(* ===== verification/Prelude.thy ===== *)
theory Prelude
  imports Main "HOL-Library.Word"
begin

text \<open>
  Shared vocabulary of the development: the widths of the C integer types, and
  lemmas that read bitwise word operations through \<^const>\<open>unat\<close>, collected in
  \<open>word_nat\<close> so that component proofs can move between machine words and \<^typ>\<open>nat\<close>.
\<close>

unbundle bit_operations_syntax

named_theorems word_nat \<open>word operations read through unat\<close>

type_synonym u64 = "64 word"
type_synonym u32 = "32 word"
type_synonym u8 = "8 word"

text \<open>The predefined exceptions that runtime primitives raise, with the string they carry.\<close>

datatype exn = Failure string | Invalid_argument string | Zero_divide | End_of_file | Not_found
  | Out_of_memory | Stack_overflow | Sys_error string | Fatal_error string

lemma unat_push_bit [word_nat]:
  "unat (push_bit n (w :: 'a::len word)) = (unat w * 2 ^ n) mod 2 ^ LENGTH('a)"
  by (metis push_bit_nat_def take_bit_eq_mod unsigned_push_bit_eq)

lemma unat_drop_bit [word_nat]: "unat (drop_bit n (w :: 'a::len word)) = unat w div 2 ^ n"
  by (metis drop_bit_nat_def unat_drop_bit_eq)

lemma unat_and_mask [word_nat]:
  "unat ((w :: 'a::len word) AND mask n) = unat w mod 2 ^ n"
  by (metis take_bit_eq_mask take_bit_eq_mod unsigned_take_bit_eq)

lemma unat_of_bool [word_nat, simp]: "unat (of_bool b :: 'a::len word) = of_bool b"
  by simp

lemma unat_bound: "unat (w :: 'a::len word) < 2 ^ LENGTH('a)"
  by simp

lemma unat_or_disjoint:
  assumes "unat (x :: 'a::len word) < 2 ^ k" and "2 ^ k dvd unat y"
  shows "unat (x OR y) = unat x + unat y"
proof -
  have x: "unat x = take_bit k (unat x)"
    using assms(1) by (simp add: take_bit_nat_eq_self)
  obtain c where y: "unat y = push_bit k c"
    using assms(2) by (auto simp: push_bit_eq_mult mult.commute elim: dvdE)
  have "take_bit k (unat x) AND push_bit k c = 0"
    by (rule bit_eqI) (auto simp: bit_and_iff bit_take_bit_iff bit_push_bit_iff)
  then have "take_bit k (unat x) + push_bit k c = take_bit k (unat x) OR push_bit k c"
    by (rule disjunctive_add_eq_or)
  then show ?thesis
    by (simp add: unsigned_or_eq y flip: x)
qed

lemma unat_ucast [word_nat]: "unat (ucast (w :: 'a::len word) :: 'b::len word) = unat w mod 2 ^ LENGTH('b)"
  by (simp add: unsigned_ucast_eq take_bit_eq_mod)

lemma unat_add_exact:
  "unat (a :: 'a::len word) + unat b < 2 ^ LENGTH('a) \<Longrightarrow> unat (a + b) = unat a + unat b"
  by (simp add: unat_word_ariths)

lemma unat_push_bit_exact:
  "unat (a :: 'a::len word) * 2 ^ n < 2 ^ LENGTH('a) \<Longrightarrow> unat (push_bit n a) = unat a * 2 ^ n"
  by (simp add: unat_push_bit)

lemma sint_word_of_int_64: "- (2 ^ 63) \<le> y \<Longrightarrow> y < 2 ^ 63 \<Longrightarrow> sint (word_of_int y :: 64 word) = y"
  by (simp add: sint_sbintrunc' signed_take_bit_int_eq_self)

lemma odd_sint: "odd (sint (x :: 64 word)) = odd x"
  using bit_sint_iff [of x 0] by (simp add: bit_0)

lemma sint_of_nat_small: "n < 2 ^ 63 \<Longrightarrow> sint (of_nat n :: u64) = int n"
  using sint_word_of_int_64 [of "int n"] by simp

lemma find_append: "find P (xs @ ys) = (case find P xs of None \<Rightarrow> find P ys | Some x \<Rightarrow> Some x)"
  by (induction xs) auto

lemma find_map: "find P (map f xs) = map_option f (find (\<lambda>x. P (f x)) xs)"
  by (induction xs) auto

lemma all_less_small:
  "(\<forall>i < 1. P i) \<longleftrightarrow> P (0 :: nat)" "(\<forall>i < Suc 0. P i) \<longleftrightarrow> P (0 :: nat)"
  "(\<forall>i < 2. P i) \<longleftrightarrow> P 0 \<and> P (1 :: nat)" "(\<forall>i < 3. P i) \<longleftrightarrow> P 0 \<and> P 1 \<and> P (2 :: nat)"
  "(\<forall>i < 4. P i) \<longleftrightarrow> P 0 \<and> P 1 \<and> P 2 \<and> P (3 :: nat)"
  "(\<forall>i < 5. P i) \<longleftrightarrow> P 0 \<and> P 1 \<and> P 2 \<and> P 3 \<and> P (4 :: nat)"
  "(\<forall>i < 6. P i) \<longleftrightarrow> P 0 \<and> P 1 \<and> P 2 \<and> P 3 \<and> P 4 \<and> P (5 :: nat)"
  by (auto simp: numeral_eq_Suc All_less_Suc)

end
