(* ===== verification/Bng_Digit.thy ===== *)
theory Bng_Digit
  imports Prelude
begin

text \<open>
  The digit-level macros of \<open>otherlibs/num/bng_digit.c\<close> on a 64-bit machine: a
  \<open>bngdigit\<close> is an unsigned 64-bit word and a \<open>bngcarry\<close> an unsigned 32-bit one.
  A macro that assigns two result variables returns the pair of them.  The
  correction loops of \<open>bng_div_aux\<close> are a partial function whose value \<^const>\<open>None\<close>
  stands for a loop that does not end.  The lemmas give the exact arithmetic
  meaning of every macro over \<^typ>\<open>nat\<close>.
\<close>

section \<open>Digit operations\<close>

type_synonym bngdigit = "64 word"
type_synonym bngcarry = "32 word"

definition BNG_BITS_PER_DIGIT :: nat where "BNG_BITS_PER_DIGIT = 64"
definition BNG_BITS_PER_HALF_DIGIT :: nat where "BNG_BITS_PER_HALF_DIGIT = 32"

definition BngAdd2 :: "bngdigit \<Rightarrow> bngdigit \<Rightarrow> bngdigit \<times> bngcarry" where
  "BngAdd2 arg1 arg2 =
     (let tmp1 = arg1;
          tmp2 = tmp1 + arg2
      in (tmp2, of_bool (tmp2 < tmp1)))"

definition BngAdd2Carry :: "bngdigit \<Rightarrow> bngdigit \<Rightarrow> bngcarry \<Rightarrow> bngdigit \<times> bngcarry" where
  "BngAdd2Carry arg1 arg2 carryin =
     (let tmp1 = arg1;
          tmp2 = tmp1 + arg2;
          tmp3 = tmp2 + ucast carryin
      in (tmp3, of_bool (tmp2 < tmp1) + of_bool (tmp3 < tmp2)))"

definition BngAdd3 :: "bngdigit \<Rightarrow> bngdigit \<Rightarrow> bngdigit \<Rightarrow> bngdigit \<Rightarrow> bngdigit \<times> bngdigit" where
  "BngAdd3 carryaccu arg1 arg2 arg3 =
     (let tmp1 = arg1;
          tmp2 = tmp1 + arg2;
          carryaccu = carryaccu + of_bool (tmp2 < tmp1);
          tmp3 = tmp2 + arg3;
          carryaccu = carryaccu + of_bool (tmp3 < tmp2)
      in (tmp3, carryaccu))"

definition BngSub2 :: "bngdigit \<Rightarrow> bngdigit \<Rightarrow> bngdigit \<times> bngcarry" where
  "BngSub2 arg1 arg2 =
     (let tmp1 = arg1;
          tmp2 = arg2
      in (tmp1 - tmp2, of_bool (tmp1 < tmp2)))"

definition BngSub2Carry :: "bngdigit \<Rightarrow> bngdigit \<Rightarrow> bngcarry \<Rightarrow> bngdigit \<times> bngcarry" where
  "BngSub2Carry arg1 arg2 carryin =
     (let tmp1 = arg1;
          tmp2 = arg2;
          tmp3 = tmp1 - tmp2
      in (tmp3 - ucast carryin, of_bool (tmp1 < tmp2) + of_bool (tmp3 < ucast carryin)))"

definition BngSub3 :: "bngdigit \<Rightarrow> bngdigit \<Rightarrow> bngdigit \<Rightarrow> bngdigit \<Rightarrow> bngdigit \<times> bngdigit" where
  "BngSub3 carryaccu arg1 arg2 arg3 =
     (let tmp1 = arg1;
          tmp2 = arg2;
          tmp3 = arg3;
          tmp4 = tmp1 - tmp2
      in (tmp4 - tmp3, carryaccu + (of_bool (tmp1 < tmp2) + of_bool (tmp4 < tmp3))))"

definition BngLowHalf :: "bngdigit \<Rightarrow> bngdigit" where
  "BngLowHalf d = d AND (push_bit BNG_BITS_PER_HALF_DIGIT 1 - 1)"

definition BngHighHalf :: "bngdigit \<Rightarrow> bngdigit" where
  "BngHighHalf d = drop_bit BNG_BITS_PER_HALF_DIGIT d"

definition BngMult :: "bngdigit \<Rightarrow> bngdigit \<Rightarrow> bngdigit \<times> bngdigit" where
  "BngMult arg1 arg2 =
     (let p11 = BngLowHalf arg1 * BngLowHalf arg2;
          p12 = BngLowHalf arg1 * BngHighHalf arg2;
          p21 = BngHighHalf arg1 * BngLowHalf arg2;
          p22 = BngHighHalf arg1 * BngHighHalf arg2;
          resh = p22 + drop_bit BNG_BITS_PER_HALF_DIGIT p12
                     + drop_bit BNG_BITS_PER_HALF_DIGIT p21;
          (resl, resh) = BngAdd3 resh p11 (push_bit BNG_BITS_PER_HALF_DIGIT p12)
                                          (push_bit BNG_BITS_PER_HALF_DIGIT p21)
      in (resh, resl))"

partial_function (option) bng_div_adjust ::
  "bngdigit \<Rightarrow> bngdigit \<Rightarrow> bngdigit \<Rightarrow> bngdigit \<Rightarrow> (bngdigit \<times> bngdigit \<times> bngdigit) option" where
  "bng_div_adjust nh nl d q =
     (if nh \<noteq> 0 \<or> d \<le> nl
      then bng_div_adjust (nh - of_bool (nl < d)) (nl - d) d (q + 1)
      else Some (nh, nl, q))"

definition bng_div_aux ::
  "bngdigit \<Rightarrow> bngdigit \<Rightarrow> bngdigit \<Rightarrow> (bngdigit \<times> bngdigit) option" where
  "bng_div_aux nh nl d =
     (let dl = BngLowHalf d;
          dh = BngHighHalf d;
          qh = nh div (dh + 1);
          nsaved = BngLowHalf nl;
          ph = qh * dh;
          pl = qh * dl;
          nh = nh - ph;
          nl = drop_bit BNG_BITS_PER_HALF_DIGIT nl OR push_bit BNG_BITS_PER_HALF_DIGIT nh;
          nh = drop_bit BNG_BITS_PER_HALF_DIGIT nh;
          nh = nh - of_bool (nl < pl);
          nl = nl - pl
      in case bng_div_adjust nh nl d qh of
           None \<Rightarrow> None
         | Some (nh, nl, qh) \<Rightarrow>
             (let ql = nl div (dh + 1);
                  ph = ql * dh;
                  pl = ql * dl;
                  nl = nl - ph;
                  nh = drop_bit BNG_BITS_PER_HALF_DIGIT nl;
                  nl = push_bit BNG_BITS_PER_HALF_DIGIT nl OR nsaved;
                  nh = nh - of_bool (nl < pl);
                  nl = nl - pl
              in case bng_div_adjust nh nl d ql of
                   None \<Rightarrow> None
                 | Some (nh, nl, ql) \<Rightarrow>
                     Some (push_bit BNG_BITS_PER_HALF_DIGIT qh OR ql, nl)))"

declare bng_div_adjust.simps [code]

text \<open>Both halves of \<open>bng_div_aux\<close> have this shape; the definition only serves the proofs.\<close>

definition bng_div_half ::
  "bngdigit \<Rightarrow> bngdigit \<Rightarrow> bngdigit \<Rightarrow> (bngdigit \<times> bngdigit \<times> bngdigit) option" where
  "bng_div_half A x d =
     (let q = A div (BngHighHalf d + 1);
          n = A - q * BngHighHalf d;
          p = q * BngLowHalf d;
          lo = push_bit BNG_BITS_PER_HALF_DIGIT n OR x;
          hi = drop_bit BNG_BITS_PER_HALF_DIGIT n
      in bng_div_adjust (hi - of_bool (lo < p)) (lo - p) d q)"

section \<open>Arithmetic meaning\<close>

lemma unat64: "unat (x :: bngdigit) < 2 ^ 64"
  using unat_bound [of x] by simp

lemma carry_cases: "(c :: bngcarry) \<le> 1 \<Longrightarrow> c = 0 \<or> c = 1"
proof -
  assume "c \<le> 1"
  then have "unat c = 0 \<or> unat c = unat (1 :: bngcarry)"
    by (auto simp: word_le_nat_alt)
  then show ?thesis by (simp only: unat_eq_zero word_unat_eq_iff)
qed

lemma BngAdd2_correct:
  "BngAdd2 x y = (r, c) \<Longrightarrow> unat r + 2 ^ 64 * unat c = unat x + unat y \<and> c \<le> 1"
  using unat64 [of x] unat64 [of y]
  by (auto simp: BngAdd2_def Let_def word_less_nat_alt unat_plus_if' split: if_splits)

lemma BngAdd2Carry_correct:
  assumes "BngAdd2Carry x y ci = (r, c)" and "ci \<le> 1"
  shows "unat r + 2 ^ 64 * unat c = unat x + unat y + unat ci \<and> c \<le> 1"
  using carry_cases [OF assms(2)] assms(1) unat64 [of x] unat64 [of y]
  by (auto simp: BngAdd2Carry_def Let_def word_less_nat_alt unat_plus_if' split: if_splits)

lemma BngAdd3_correct:
  assumes "BngAdd3 acc x y z = (r, acc')"
  shows "\<exists>k \<le> 2. acc' = acc + of_nat k \<and> unat r + 2 ^ 64 * k = unat x + unat y + unat z"
proof -
  let ?k = "of_bool (unat (x + y) < unat x) + of_bool (unat (x + y + z) < unat (x + y)) :: nat"
  have "acc' = acc + of_nat ?k" and r: "r = x + y + z"
    using assms by (auto simp: BngAdd3_def Let_def word_less_nat_alt)
  moreover have "unat r + 2 ^ 64 * ?k = unat x + unat y + unat z"
    using unat64 [of x] unat64 [of y] unat64 [of z]
    by (auto simp: r unat_plus_if' split: if_splits)
  ultimately show ?thesis by (intro exI [of _ ?k]) auto
qed

lemma BngSub2_correct:
  "BngSub2 x y = (r, c) \<Longrightarrow> unat r + unat y = unat x + 2 ^ 64 * unat c \<and> c \<le> 1"
  using unat64 [of x] unat64 [of y]
  by (auto simp: BngSub2_def Let_def word_less_nat_alt unat_sub_if' split: if_splits)

lemma BngSub2Carry_correct:
  assumes "BngSub2Carry x y ci = (r, c)" and "ci \<le> 1"
  shows "unat r + unat y + unat ci = unat x + 2 ^ 64 * unat c \<and> c \<le> 1"
  using carry_cases [OF assms(2)] assms(1) unat64 [of x] unat64 [of y]
  by (auto simp: BngSub2Carry_def Let_def word_less_nat_alt unat_sub_if' split: if_splits)

lemma BngSub3_correct:
  assumes "BngSub3 acc x y z = (r, acc')"
  shows "\<exists>k \<le> 2. acc' = acc + of_nat k \<and> unat r + unat y + unat z = unat x + 2 ^ 64 * k"
proof -
  let ?k = "of_bool (unat x < unat y) + of_bool (unat (x - y) < unat z) :: nat"
  have "acc' = acc + of_nat ?k" and r: "r = x - y - z"
    using assms by (auto simp: BngSub3_def Let_def word_less_nat_alt)
  moreover have "unat r + unat y + unat z = unat x + 2 ^ 64 * ?k"
    using unat64 [of x] unat64 [of y] unat64 [of z]
    by (auto simp: r unat_sub_if' split: if_splits)
  ultimately show ?thesis by (intro exI [of _ ?k]) auto
qed

lemma unat_BngLowHalf: "unat (BngLowHalf d) = unat d mod 2 ^ 32"
proof -
  have "push_bit BNG_BITS_PER_HALF_DIGIT 1 - 1 = (mask 32 :: bngdigit)"
    by (simp add: BNG_BITS_PER_HALF_DIGIT_def mask_eq_exp_minus_1 push_bit_eq_mult)
  then show ?thesis by (simp only: BngLowHalf_def unat_and_mask)
qed

lemma unat_BngHighHalf: "unat (BngHighHalf d) = unat d div 2 ^ 32"
  by (simp only: BngHighHalf_def unat_drop_bit BNG_BITS_PER_HALF_DIGIT_def)

lemma half_mult:
  assumes "unat (x :: bngdigit) < 2 ^ 32" and "unat (y :: bngdigit) < 2 ^ 32"
  shows "unat (x * y) = unat x * unat y" and "unat x * unat y \<le> (2 ^ 32 - 1) * (2 ^ 32 - 1)"
proof -
  show le: "unat x * unat y \<le> (2 ^ 32 - 1) * (2 ^ 32 - 1)"
    using assms by (intro mult_le_mono) auto
  then show "unat (x * y) = unat x * unat y"
    by (simp add: unat_word_ariths)
qed



lemma unat_shift_half:
  "unat (push_bit BNG_BITS_PER_HALF_DIGIT (p :: bngdigit)) = unat p mod 2 ^ 32 * 2 ^ 32"
proof -
  have "unat (push_bit BNG_BITS_PER_HALF_DIGIT p) = (unat p * 2 ^ 32) mod (2 ^ 32 * 2 ^ 32)"
    by (simp only: unat_push_bit BNG_BITS_PER_HALF_DIGIT_def) simp
  then show ?thesis by (simp only: mod_mult_mult2)
qed

lemma unat_unshift_half:
  "unat (drop_bit BNG_BITS_PER_HALF_DIGIT (p :: bngdigit)) = unat p div 2 ^ 32"
  by (simp only: unat_drop_bit BNG_BITS_PER_HALF_DIGIT_def)

lemma BngMult_correct:
  assumes "BngMult x y = (h, l)"
  shows "2 ^ 64 * unat h + unat l = unat x * unat y"
proof -
  define xl xh yl yh where defs: "xl = BngLowHalf x" "xh = BngHighHalf x" "yl = BngLowHalf y" "yh = BngHighHalf y"
  have small: "unat xl < 2 ^ 32" "unat yl < 2 ^ 32" "unat xh < 2 ^ 32" "unat yh < 2 ^ 32"
    using unat64 [of x] unat64 [of y]
    by (simp_all add: defs unat_BngLowHalf unat_BngHighHalf less_mult_imp_div_less)
  have x: "unat x = unat xl + 2 ^ 32 * unat xh" and y: "unat y = unat yl + 2 ^ 32 * unat yh"
    by (simp_all only: defs unat_BngLowHalf unat_BngHighHalf mod_mult_div_eq)
  define p12 p21 where p: "p12 = unat xl * unat yh" "p21 = unat xh * unat yl"
  from assms have l: "BngAdd3 (xh * yh + drop_bit BNG_BITS_PER_HALF_DIGIT (xl * yh)
         + drop_bit BNG_BITS_PER_HALF_DIGIT (xh * yl)) (xl * yl)
        (push_bit BNG_BITS_PER_HALF_DIGIT (xl * yh)) (push_bit BNG_BITS_PER_HALF_DIGIT (xh * yl)) = (l, h)"
    by (auto simp: BngMult_def Let_def defs split: prod.splits)
  from BngAdd3_correct [OF l] obtain k where
    h: "h = xh * yh + drop_bit BNG_BITS_PER_HALF_DIGIT (xl * yh)
         + drop_bit BNG_BITS_PER_HALF_DIGIT (xh * yl) + of_nat k" and
    low: "unat l + 2 ^ 64 * k = unat xl * unat yl + p12 mod 2 ^ 32 * 2 ^ 32 + p21 mod 2 ^ 32 * 2 ^ 32"
    by (auto simp only: half_mult(1) small unat_shift_half p)
  define H where "H = unat xh * unat yh + p12 div 2 ^ 32 + p21 div 2 ^ 32 + k"
  have "of_nat (unat (drop_bit BNG_BITS_PER_HALF_DIGIT (xl * yh))) = drop_bit BNG_BITS_PER_HALF_DIGIT (xl * yh)"
    and "of_nat (unat (drop_bit BNG_BITS_PER_HALF_DIGIT (xh * yl))) = drop_bit BNG_BITS_PER_HALF_DIGIT (xh * yl)"
    by simp_all
  then have "h = of_nat H"
    by (simp add: h H_def p unat_unshift_half half_mult(1) [OF small(1) small(4)] half_mult(1) [OF small(3) small(2)])
  define u12 l12 u21 l21 where ul: "u12 = p12 div 2 ^ 32" "l12 = p12 mod 2 ^ 32"
    "u21 = p21 div 2 ^ 32" "l21 = p21 mod 2 ^ 32"
  have pp: "2 ^ 32 * u12 + l12 = p12" "2 ^ 32 * u21 + l21 = p21"
    by (simp_all only: ul mult_div_mod_eq)
  have "2 ^ 64 * H + unat l = 2 ^ 64 * (unat xh * unat yh)
        + 2 ^ 32 * (2 ^ 32 * u12 + l12) + 2 ^ 32 * (2 ^ 32 * u21 + l21) + unat xl * unat yl"
    using low unfolding H_def ul [symmetric] by (simp add: algebra_simps)
  also have "\<dots> = unat x * unat y"
    unfolding pp p x y by (simp add: algebra_simps)
  finally have eq: "2 ^ 64 * H + unat l = unat x * unat y" .
  have "unat x * unat y < 2 ^ 64 * 2 ^ 64"
    using unat64 [of x] unat64 [of y] by (intro mult_strict_mono) auto
  with eq have "2 ^ 64 * H < 2 ^ 64 * 2 ^ 64" by linarith
  then have "unat h = H" by (simp add: \<open>h = of_nat H\<close> unat_of_nat)
  with eq show ?thesis by simp
qed

lemma borrow_sub:
  fixes h l p :: bngdigit
  assumes "unat p \<le> 2 ^ 64 * unat h + unat l"
  shows "2 ^ 64 * unat (h - of_bool (l < p)) + unat (l - p) + unat p = 2 ^ 64 * unat h + unat l"
proof (cases "l < p")
  case True
  with assms have "h \<noteq> 0" by (auto simp: word_less_nat_alt)
  then have "unat (h - 1) + 1 = unat h"
    by (simp add: unat_minus_one) (metis Suc_pred unat_gt_0)
  moreover have "unat (l - p) + unat p = 2 ^ 64 + unat l"
    using True unat64 [of p] by (simp add: unat_sub_if' word_less_nat_alt)
  ultimately show ?thesis
    using True by (simp add: algebra_simps)
next
  case False
  then show ?thesis by (simp add: unat_sub_if' word_less_nat_alt)
qed

lemma bng_div_adjust_correct:
  assumes "0 < d"
  shows "\<exists>nl' k. bng_div_adjust nh nl d q = Some (0, nl', q + of_nat k) \<and> nl' < d
           \<and> 2 ^ 64 * unat nh + unat nl = k * unat d + unat nl'"
proof (induction "2 ^ 64 * unat nh + unat nl" arbitrary: nh nl q rule: less_induct)
  case less
  have dpos: "0 < unat d" using assms by (simp add: word_less_nat_alt)
  show ?case
  proof (cases "nh \<noteq> 0 \<or> d \<le> nl")
    case False
    then show ?thesis
      by (subst bng_div_adjust.simps) (auto intro!: exI [of _ 0])
  next
    case True
    define nh' nl' where new: "nh' = nh - of_bool (nl < d)" "nl' = nl - d"
    have "unat d \<le> 2 ^ 64 * unat nh + unat nl"
      using True unat64 [of d] by (auto simp: word_le_nat_alt unat_gt_0 [symmetric])
    from borrow_sub [OF this]
    have step: "2 ^ 64 * unat nh' + unat nl' + unat d = 2 ^ 64 * unat nh + unat nl"
      by (simp only: new)
    then have "2 ^ 64 * unat nh' + unat nl' < 2 ^ 64 * unat nh + unat nl" using dpos by linarith
    from less [OF this, of "q + 1"] obtain nl'' k where
      r: "bng_div_adjust nh' nl' d (q + 1) = Some (0, nl'', q + 1 + of_nat k)" "nl'' < d"
         "2 ^ 64 * unat nh' + unat nl' = k * unat d + unat nl''" by auto
    with step have "2 ^ 64 * unat nh + unat nl = Suc k * unat d + unat nl''" by simp
    moreover have "bng_div_adjust nh nl d q = Some (0, nl'', q + of_nat (Suc k))"
      using True r(1) by (subst bng_div_adjust.simps) (simp add: new add.assoc)
    ultimately show ?thesis using r(2) by blast
  qed
qed


lemma join_halves:
  fixes n x :: bngdigit
  assumes "unat x < 2 ^ 32"
  shows "2 ^ 64 * unat (drop_bit BNG_BITS_PER_HALF_DIGIT n)
           + unat (push_bit BNG_BITS_PER_HALF_DIGIT n OR x) = unat n * 2 ^ 32 + unat x"
proof -
  have "unat (push_bit BNG_BITS_PER_HALF_DIGIT n OR x) = unat x + unat n mod 2 ^ 32 * 2 ^ 32"
    using unat_or_disjoint [OF assms, of "push_bit BNG_BITS_PER_HALF_DIGIT n"]
    by (simp only: unat_shift_half or.commute) simp
  moreover have "unat n * 2 ^ 32 = (2 ^ 32 * (unat n div 2 ^ 32) + unat n mod 2 ^ 32) * 2 ^ 32"
    by (simp only: mult_div_mod_eq)
  ultimately show ?thesis
    unfolding unat_unshift_half
    by (simp only: distrib_right) (simp add: mult.assoc mult.commute)
qed

lemma half_digit_bounds:
  "unat (BngLowHalf d) < 2 ^ 32" "unat (BngHighHalf d) < 2 ^ 32"
  "unat d = 2 ^ 32 * unat (BngHighHalf d) + unat (BngLowHalf d)"
  using unat64 [of d]
  by (simp_all add: unat_BngLowHalf unat_BngHighHalf less_mult_imp_div_less)

lemma div_half_estimate:
  fixes A x d :: bngdigit
  assumes "A < d" and "unat x < 2 ^ 32"
  defines "q \<equiv> A div (BngHighHalf d + 1)"
  defines "n \<equiv> A - q * BngHighHalf d"
  defines "hi \<equiv> drop_bit BNG_BITS_PER_HALF_DIGIT n"
  defines "lo \<equiv> push_bit BNG_BITS_PER_HALF_DIGIT n OR x"
  defines "p \<equiv> q * BngLowHalf d"
  shows "2 ^ 64 * unat (hi - of_bool (lo < p)) + unat (lo - p) + unat q * unat d
           = unat A * 2 ^ 32 + unat x"
proof -
  let ?dh = "unat (BngHighHalf d)" and ?dl = "unat (BngLowHalf d)"
  note hb = half_digit_bounds [of d]
  have "unat (BngHighHalf d + 1) = ?dh + 1"
    using hb(2) by (simp add: unat_plus_if')
  then have q: "unat q = unat A div (?dh + 1)"
    by (simp add: q_def unat_div)
  have qle: "unat q * (?dh + 1) \<le> unat A"
    by (simp only: q div_times_less_eq_dividend)
  have "unat A < 2 ^ 32 * (?dh + 1)"
    using assms(1) hb by (simp add: word_less_nat_alt)
  then have q32: "unat q < 2 ^ 32"
    by (simp add: q less_mult_imp_div_less)
  have "unat (q * BngHighHalf d) = unat q * ?dh"
    using q32 hb(2) by (rule half_mult)
  moreover have "unat q * ?dh \<le> unat A" using qle by simp
  ultimately have n: "unat n = unat A - unat q * ?dh"
    by (simp add: n_def unat_sub_if')
  have p: "unat p = unat q * ?dl"
    unfolding p_def using q32 hb(1) by (rule half_mult)
  have "unat q \<le> unat n" using qle n by simp
  then have "unat p \<le> unat n * 2 ^ 32"
    unfolding p using hb(1) by (intro mult_le_mono) auto
  moreover have tot: "2 ^ 64 * unat hi + unat lo = unat n * 2 ^ 32 + unat x"
    unfolding hi_def lo_def by (rule join_halves [OF assms(2)])
  ultimately have "unat p \<le> 2 ^ 64 * unat hi + unat lo" by linarith
  from borrow_sub [OF this] tot
  have "2 ^ 64 * unat (hi - of_bool (lo < p)) + unat (lo - p) + unat q * ?dl = unat n * 2 ^ 32 + unat x"
    by (simp only: p)
  moreover have "unat A = unat n + unat q * ?dh" using n qle by simp
  ultimately show ?thesis
    unfolding hb(3) by (simp only: distrib_left distrib_right) (simp add: algebra_simps)
qed

lemma bng_div_half_correct:
  assumes "A < d" and "unat x < 2 ^ 32"
  shows "\<exists>r q'. bng_div_half A x d = Some (0, r, q') \<and> r < d \<and> unat q' < 2 ^ 32
           \<and> unat A * 2 ^ 32 + unat x = unat q' * unat d + unat r"
proof -
  define q where "q = A div (BngHighHalf d + 1)"
  define n where "n = A - q * BngHighHalf d"
  define hi where "hi = drop_bit BNG_BITS_PER_HALF_DIGIT n"
  define lo where "lo = push_bit BNG_BITS_PER_HALF_DIGIT n OR x"
  define p where "p = q * BngLowHalf d"
  have half: "bng_div_half A x d = bng_div_adjust (hi - of_bool (lo < p)) (lo - p) d q"
    unfolding bng_div_half_def Let_def hi_def lo_def p_def n_def q_def by (rule refl)
  have dpos: "0 < d" using assms(1) by (rule le_less_trans [OF word_zero_le])
  have est: "2 ^ 64 * unat (hi - of_bool (lo < p)) + unat (lo - p) + unat q * unat d
           = unat A * 2 ^ 32 + unat x"
    unfolding hi_def lo_def p_def n_def q_def by (rule div_half_estimate [OF assms(1,2)])
  obtain r k where r: "bng_div_adjust (hi - of_bool (lo < p)) (lo - p) d q = Some (0, r, q + of_nat k)"
    "r < d" "2 ^ 64 * unat (hi - of_bool (lo < p)) + unat (lo - p) = k * unat d + unat r"
    using bng_div_adjust_correct [OF dpos, of "hi - of_bool (lo < p)" "lo - p" q] by blast
  from est r(3) have tot: "unat A * 2 ^ 32 + unat x = (unat q + k) * unat d + unat r"
    by (simp add: algebra_simps)
  have "unat A + 1 \<le> unat d" using assms(1) by (simp add: word_less_nat_alt)
  then have "(unat A + 1) * 2 ^ 32 \<le> unat d * 2 ^ 32" by (rule mult_le_mono1)
  with tot assms(2) have "(unat q + k) * unat d < 2 ^ 32 * unat d"
    by (simp add: algebra_simps)
  then have small: "unat q + k < 2 ^ 32" by simp
  have "unat (q + of_nat k) = unat (of_nat (unat q + k) :: bngdigit)" by simp
  also have "\<dots> = unat q + k" using small by (simp only: unat_of_nat) simp
  finally have "unat (q + of_nat k) = unat q + k" .
  with r tot small half show ?thesis by auto
qed

lemma bng_div_aux_halves:
  "bng_div_aux nh nl d =
     (case bng_div_half nh (drop_bit BNG_BITS_PER_HALF_DIGIT nl) d of
        None \<Rightarrow> None
      | Some (_, r, qh) \<Rightarrow>
          (case bng_div_half r (BngLowHalf nl) d of
             None \<Rightarrow> None
           | Some (_, r, ql) \<Rightarrow> Some (push_bit BNG_BITS_PER_HALF_DIGIT qh OR ql, r)))"
  unfolding bng_div_aux_def bng_div_half_def Let_def
  by (simp only: or.commute)

lemma bng_div_aux_correct:
  assumes "nh < d"
  shows "\<exists>quo rem. bng_div_aux nh nl d = Some (quo, rem) \<and> rem < d
           \<and> 2 ^ 64 * unat nh + unat nl = unat quo * unat d + unat rem"
proof -
  define x1 where "x1 = drop_bit BNG_BITS_PER_HALF_DIGIT nl"
  define x2 where "x2 = BngLowHalf nl"
  have x1: "unat x1 < 2 ^ 32" and x2: "unat x2 < 2 ^ 32"
    and nl: "unat nl = 2 ^ 32 * unat x1 + unat x2"
    using half_digit_bounds [of nl] by (simp_all only: BngHighHalf_def x1_def x2_def)
  from bng_div_half_correct [OF assms x1] obtain r1 q1 where
    s1: "bng_div_half nh x1 d = Some (0, r1, q1)" "r1 < d" "unat q1 < 2 ^ 32"
        "unat nh * 2 ^ 32 + unat x1 = unat q1 * unat d + unat r1" by blast
  from bng_div_half_correct [OF s1(2) x2] obtain r2 q2 where
    s2: "bng_div_half r1 x2 d = Some (0, r2, q2)" "r2 < d" "unat q2 < 2 ^ 32"
        "unat r1 * 2 ^ 32 + unat x2 = unat q2 * unat d + unat r2" by blast
  have res: "bng_div_aux nh nl d = Some (push_bit BNG_BITS_PER_HALF_DIGIT q1 OR q2, r2)"
    using s1(1) s2(1) by (simp add: bng_div_aux_halves x1_def x2_def)
  have q: "unat (push_bit BNG_BITS_PER_HALF_DIGIT q1 OR q2) = unat q1 * 2 ^ 32 + unat q2"
    using join_halves [OF s2(3), of q1] s1(3) by (simp add: unat_unshift_half)
  have "2 ^ 64 * unat nh + unat nl = (unat nh * 2 ^ 32 + unat x1) * 2 ^ 32 + unat x2"
    unfolding nl by (simp add: algebra_simps)
  also have "\<dots> = unat q1 * 2 ^ 32 * unat d + (unat r1 * 2 ^ 32 + unat x2)"
    unfolding s1(4) by (simp add: algebra_simps)
  also have "\<dots> = (unat q1 * 2 ^ 32 + unat q2) * unat d + unat r2"
    unfolding s2(4) by (simp add: algebra_simps)
  finally have "2 ^ 64 * unat nh + unat nl
      = unat (push_bit BNG_BITS_PER_HALF_DIGIT q1 OR q2) * unat d + unat r2"
    by (simp only: q)
  with res s2(2) show ?thesis by blast
qed

end
