(* ===== verification/Bng.thy ===== *)
theory Bng
  imports Bng_Digit
begin

text \<open>
  The multi-precision naturals of \<open>otherlibs/num/bng.c\<close>.  Memory is a function from
  digit addresses to digits; \<open>{a,alen}\<close> in the comments of the C code is the pair of an
  address and a length, read little-endian by \<open>bng_val\<close>.  Every loop over digits is a
  recursion on the remaining length that writes memory where the C code does, so
  overlapping operands are modelled.  \<open>struct bng_operations\<close> is a record of functions;
  the entries that are called by other entries form its first part
  (\<open>bng_primitives\<close>), and the routines built on them take that table as an argument.

  The locale \<open>bng_contract\<close> states what \<open>bng.h\<close> promises of the primitive entries.
  Multiplication, squaring and long division are proved once against that contract;
  the interpretation \<open>generic\<close> discharges it for the portable C routines.  The two
  loops of division whose end is not structural are partial functions, and the laws
  state that they return.
\<close>

section \<open>Operations\<close>

type_synonym bng_mem = "nat \<Rightarrow> bngdigit"

definition bng_lzb_step :: "bngdigit \<Rightarrow> nat \<Rightarrow> nat \<times> bngdigit \<Rightarrow> nat \<times> bngdigit" where
  "bng_lzb_step msk s = (\<lambda>(n, d). if d AND msk \<noteq> 0 then (n - s, drop_bit s d) else (n, d))"

definition bng_leading_zero_bits :: "bngdigit \<Rightarrow> nat" where
  "bng_leading_zero_bits d =
     (let nd = (BNG_BITS_PER_DIGIT, d);
          nd = bng_lzb_step 0xFFFFFFFF00000000 32 nd;
          nd = bng_lzb_step 0xFFFF0000 16 nd;
          nd = bng_lzb_step 0xFF00 8 nd;
          nd = bng_lzb_step 0xF0 4 nd;
          nd = bng_lzb_step 0xC 2 nd;
          (n, d) = bng_lzb_step 2 1 nd
      in n - unat d)"

fun bng_complement :: "bng_mem \<Rightarrow> nat \<Rightarrow> nat \<Rightarrow> bng_mem" where
  "bng_complement m a 0 = m"
| "bng_complement m a (Suc alen) = bng_complement (m(a := NOT (m a))) (Suc a) alen"

fun bng_num_digits :: "bng_mem \<Rightarrow> nat \<Rightarrow> nat \<Rightarrow> nat" where
  "bng_num_digits m a 0 = 1"
| "bng_num_digits m a (Suc alen) =
     (if m (a + alen) \<noteq> 0 then Suc alen else bng_num_digits m a alen)"

definition bng_is_zero :: "bng_mem \<Rightarrow> nat \<Rightarrow> nat \<Rightarrow> bool" where
  "bng_is_zero m a alen \<longleftrightarrow> bng_num_digits m a alen = 0"

fun bng_trim :: "bng_mem \<Rightarrow> nat \<Rightarrow> nat \<Rightarrow> nat" where
  "bng_trim m a 0 = 0"
| "bng_trim m a (Suc alen) = (if m (a + alen) = 0 then bng_trim m a alen else Suc alen)"

fun bng_compare_digits :: "bng_mem \<Rightarrow> nat \<Rightarrow> nat \<Rightarrow> nat \<Rightarrow> int" where
  "bng_compare_digits m a b 0 = 0"
| "bng_compare_digits m a b (Suc alen) =
     (let da = m (a + alen); db = m (b + alen)
      in if da > db then 1 else if da < db then -1 else bng_compare_digits m a b alen)"

definition bng_compare :: "bng_mem \<Rightarrow> nat \<Rightarrow> nat \<Rightarrow> nat \<Rightarrow> nat \<Rightarrow> int" where
  "bng_compare m a alen b blen =
     (let alen = bng_trim m a alen; blen = bng_trim m b blen
      in if alen > blen then 1
         else if alen < blen then -1
         else bng_compare_digits m a b alen)"

fun bng_incr_loop :: "bng_mem \<Rightarrow> nat \<Rightarrow> nat \<Rightarrow> bng_mem \<times> bngcarry" where
  "bng_incr_loop m a 0 = (m, 1)"
| "bng_incr_loop m a (Suc alen) =
     (let m = m(a := m a + 1)
      in if m a \<noteq> 0 then (m, 0) else bng_incr_loop m (Suc a) alen)"

definition bng_generic_add_carry :: "bng_mem \<Rightarrow> nat \<Rightarrow> nat \<Rightarrow> bngcarry \<Rightarrow> bng_mem \<times> bngcarry" where
  "bng_generic_add_carry m a alen carry =
     (if carry = 0 \<or> alen = 0 then (m, carry) else bng_incr_loop m a alen)"

fun bng_add_loop :: "bng_mem \<Rightarrow> nat \<Rightarrow> nat \<Rightarrow> nat \<Rightarrow> bngcarry \<Rightarrow> bng_mem \<times> bngcarry" where
  "bng_add_loop m a b 0 carry = (m, carry)"
| "bng_add_loop m a b (Suc blen) carry =
     (let (r, carry) = BngAdd2Carry (m a) (m b) carry
      in bng_add_loop (m(a := r)) (Suc a) (Suc b) blen carry)"

definition bng_generic_add ::
  "bng_mem \<Rightarrow> nat \<Rightarrow> nat \<Rightarrow> nat \<Rightarrow> nat \<Rightarrow> bngcarry \<Rightarrow> bng_mem \<times> bngcarry" where
  "bng_generic_add m a alen b blen carry =
     (let alen = alen - blen;
          (m, carry) = bng_add_loop m a b blen carry
      in if carry = 0 \<or> alen = 0 then (m, carry) else bng_incr_loop m (a + blen) alen)"

fun bng_decr_loop :: "bng_mem \<Rightarrow> nat \<Rightarrow> nat \<Rightarrow> bng_mem \<times> bngcarry" where
  "bng_decr_loop m a 0 = (m, 1)"
| "bng_decr_loop m a (Suc alen) =
     (let old = m a; m = m(a := m a - 1)
      in if old \<noteq> 0 then (m, 0) else bng_decr_loop m (Suc a) alen)"

definition bng_generic_sub_carry :: "bng_mem \<Rightarrow> nat \<Rightarrow> nat \<Rightarrow> bngcarry \<Rightarrow> bng_mem \<times> bngcarry" where
  "bng_generic_sub_carry m a alen carry =
     (if carry = 0 \<or> alen = 0 then (m, carry) else bng_decr_loop m a alen)"

fun bng_sub_loop :: "bng_mem \<Rightarrow> nat \<Rightarrow> nat \<Rightarrow> nat \<Rightarrow> bngcarry \<Rightarrow> bng_mem \<times> bngcarry" where
  "bng_sub_loop m a b 0 carry = (m, carry)"
| "bng_sub_loop m a b (Suc blen) carry =
     (let (r, carry) = BngSub2Carry (m a) (m b) carry
      in bng_sub_loop (m(a := r)) (Suc a) (Suc b) blen carry)"

definition bng_generic_sub ::
  "bng_mem \<Rightarrow> nat \<Rightarrow> nat \<Rightarrow> nat \<Rightarrow> nat \<Rightarrow> bngcarry \<Rightarrow> bng_mem \<times> bngcarry" where
  "bng_generic_sub m a alen b blen carry =
     (let alen = alen - blen;
          (m, carry) = bng_sub_loop m a b blen carry
      in if carry = 0 \<or> alen = 0 then (m, carry) else bng_decr_loop m (a + blen) alen)"

fun bng_shift_left_loop ::
  "bng_mem \<Rightarrow> nat \<Rightarrow> nat \<Rightarrow> nat \<Rightarrow> nat \<Rightarrow> bngdigit \<Rightarrow> bng_mem \<times> bngdigit" where
  "bng_shift_left_loop m a 0 shift shift2 carry = (m, carry)"
| "bng_shift_left_loop m a (Suc alen) shift shift2 carry =
     (let d = m a
      in bng_shift_left_loop (m(a := push_bit shift d OR carry)) (Suc a) alen shift shift2
           (drop_bit shift2 d))"

definition bng_generic_shift_left ::
  "bng_mem \<Rightarrow> nat \<Rightarrow> nat \<Rightarrow> nat \<Rightarrow> bng_mem \<times> bngdigit" where
  "bng_generic_shift_left m a alen shift =
     (let shift2 = BNG_BITS_PER_DIGIT - shift; carry = 0
      in if shift > 0 then bng_shift_left_loop m a alen shift shift2 carry else (m, carry))"

fun bng_shift_right_loop ::
  "bng_mem \<Rightarrow> nat \<Rightarrow> nat \<Rightarrow> nat \<Rightarrow> nat \<Rightarrow> bngdigit \<Rightarrow> bng_mem \<times> bngdigit" where
  "bng_shift_right_loop m a 0 shift shift2 carry = (m, carry)"
| "bng_shift_right_loop m a (Suc alen) shift shift2 carry =
     (let d = m (a + alen)
      in bng_shift_right_loop (m(a + alen := drop_bit shift d OR carry)) a alen shift shift2
           (push_bit shift2 d))"

definition bng_generic_shift_right ::
  "bng_mem \<Rightarrow> nat \<Rightarrow> nat \<Rightarrow> nat \<Rightarrow> bng_mem \<times> bngdigit" where
  "bng_generic_shift_right m a alen shift =
     (let shift2 = BNG_BITS_PER_DIGIT - shift; carry = 0
      in if shift > 0 then bng_shift_right_loop m a alen shift shift2 carry else (m, carry))"

fun bng_mult_add_digit_loop ::
  "bng_mem \<Rightarrow> nat \<Rightarrow> nat \<Rightarrow> nat \<Rightarrow> bngdigit \<Rightarrow> bngdigit \<Rightarrow> bng_mem \<times> bngdigit" where
  "bng_mult_add_digit_loop m a b 0 d out = (m, out)"
| "bng_mult_add_digit_loop m a b (Suc blen) d out =
     (let bd = m b;
          (ph, pl) = BngMult bd d;
          (r, ph) = BngAdd3 ph (m a) pl out
      in bng_mult_add_digit_loop (m(a := r)) (Suc a) (Suc b) blen d ph)"

definition bng_generic_mult_add_digit ::
  "bng_mem \<Rightarrow> nat \<Rightarrow> nat \<Rightarrow> nat \<Rightarrow> nat \<Rightarrow> bngdigit \<Rightarrow> bng_mem \<times> bngdigit" where
  "bng_generic_mult_add_digit m a alen b blen d =
     (let alen = alen - blen;
          (m, out) = bng_mult_add_digit_loop m a b blen d 0;
          a = a + blen
      in if alen = 0 then (m, out)
         else let (r, carry) = BngAdd2 (m a) out;
                  m = m(a := r);
                  a = Suc a;
                  alen = alen - 1
              in if carry = 0 \<or> alen = 0 then (m, ucast carry)
                 else let (m, carry) = bng_incr_loop m a alen in (m, ucast carry))"

fun bng_mult_sub_digit_loop ::
  "bng_mem \<Rightarrow> nat \<Rightarrow> nat \<Rightarrow> nat \<Rightarrow> bngdigit \<Rightarrow> bngdigit \<Rightarrow> bng_mem \<times> bngdigit" where
  "bng_mult_sub_digit_loop m a b 0 d out = (m, out)"
| "bng_mult_sub_digit_loop m a b (Suc blen) d out =
     (let bd = m b;
          (ph, pl) = BngMult bd d;
          (r, ph) = BngSub3 ph (m a) pl out
      in bng_mult_sub_digit_loop (m(a := r)) (Suc a) (Suc b) blen d ph)"

definition bng_generic_mult_sub_digit ::
  "bng_mem \<Rightarrow> nat \<Rightarrow> nat \<Rightarrow> nat \<Rightarrow> nat \<Rightarrow> bngdigit \<Rightarrow> bng_mem \<times> bngdigit" where
  "bng_generic_mult_sub_digit m a alen b blen d =
     (let alen = alen - blen;
          (m, out) = bng_mult_sub_digit_loop m a b blen d 0;
          a = a + blen
      in if alen = 0 then (m, out)
         else let (r, carry) = BngSub2 (m a) out;
                  m = m(a := r);
                  a = Suc a;
                  alen = alen - 1
              in if carry = 0 \<or> alen = 0 then (m, ucast carry)
                 else let (m, carry) = bng_decr_loop m a alen in (m, ucast carry))"

fun bng_div_rem_norm_digit_loop ::
  "bng_mem \<Rightarrow> nat \<Rightarrow> nat \<Rightarrow> nat \<Rightarrow> bngdigit \<Rightarrow> bngdigit \<Rightarrow> (bng_mem \<times> bngdigit) option" where
  "bng_div_rem_norm_digit_loop m a b 0 topdigit d = Some (m, topdigit)"
| "bng_div_rem_norm_digit_loop m a b (Suc i) topdigit d =
     (case bng_div_aux topdigit (m (b + i)) d of
        None \<Rightarrow> None
      | Some (quo, rem) \<Rightarrow> bng_div_rem_norm_digit_loop (m(a + i := quo)) a b i rem d)"

definition bng_generic_div_rem_norm_digit ::
  "bng_mem \<Rightarrow> nat \<Rightarrow> nat \<Rightarrow> nat \<Rightarrow> bngdigit \<Rightarrow> (bng_mem \<times> bngdigit) option" where
  "bng_generic_div_rem_norm_digit m a b len d =
     (let topdigit = m (b + (len - 1))
      in bng_div_rem_norm_digit_loop m a b (len - 1) topdigit d)"

record bng_primitives =
  add_carry :: "bng_mem \<Rightarrow> nat \<Rightarrow> nat \<Rightarrow> bngcarry \<Rightarrow> bng_mem \<times> bngcarry"
  add :: "bng_mem \<Rightarrow> nat \<Rightarrow> nat \<Rightarrow> nat \<Rightarrow> nat \<Rightarrow> bngcarry \<Rightarrow> bng_mem \<times> bngcarry"
  sub_carry :: "bng_mem \<Rightarrow> nat \<Rightarrow> nat \<Rightarrow> bngcarry \<Rightarrow> bng_mem \<times> bngcarry"
  sub :: "bng_mem \<Rightarrow> nat \<Rightarrow> nat \<Rightarrow> nat \<Rightarrow> nat \<Rightarrow> bngcarry \<Rightarrow> bng_mem \<times> bngcarry"
  shift_left :: "bng_mem \<Rightarrow> nat \<Rightarrow> nat \<Rightarrow> nat \<Rightarrow> bng_mem \<times> bngdigit"
  shift_right :: "bng_mem \<Rightarrow> nat \<Rightarrow> nat \<Rightarrow> nat \<Rightarrow> bng_mem \<times> bngdigit"
  mult_add_digit :: "bng_mem \<Rightarrow> nat \<Rightarrow> nat \<Rightarrow> nat \<Rightarrow> nat \<Rightarrow> bngdigit \<Rightarrow> bng_mem \<times> bngdigit"
  mult_sub_digit :: "bng_mem \<Rightarrow> nat \<Rightarrow> nat \<Rightarrow> nat \<Rightarrow> nat \<Rightarrow> bngdigit \<Rightarrow> bng_mem \<times> bngdigit"
  div_rem_norm_digit :: "bng_mem \<Rightarrow> nat \<Rightarrow> nat \<Rightarrow> nat \<Rightarrow> bngdigit \<Rightarrow> (bng_mem \<times> bngdigit) option"

fun bng_mult_add_loop ::
  "('z) bng_primitives_scheme \<Rightarrow> bng_mem \<Rightarrow> nat \<Rightarrow> nat \<Rightarrow> nat \<Rightarrow> nat \<Rightarrow> nat \<Rightarrow> nat \<Rightarrow> bngcarry \<Rightarrow>
   bng_mem \<times> bngcarry" where
  "bng_mult_add_loop ops m a alen b blen c 0 carry = (m, carry)"
| "bng_mult_add_loop ops m a alen b blen c (Suc clen) carry =
     (let (m, r) = mult_add_digit ops m a alen b blen (m c)
      in bng_mult_add_loop ops m (Suc a) (alen - 1) b blen (Suc c) clen (carry + ucast r))"

definition bng_generic_mult_add ::
  "('z) bng_primitives_scheme \<Rightarrow> bng_mem \<Rightarrow> nat \<Rightarrow> nat \<Rightarrow> nat \<Rightarrow> nat \<Rightarrow> nat \<Rightarrow> nat \<Rightarrow>
   bng_mem \<times> bngcarry" where
  "bng_generic_mult_add ops m a alen b blen c clen =
     bng_mult_add_loop ops m a alen b blen c clen 0"

function bng_square_products ::
  "('z) bng_primitives_scheme \<Rightarrow> bng_mem \<Rightarrow> nat \<Rightarrow> nat \<Rightarrow> nat \<Rightarrow> nat \<Rightarrow> nat \<Rightarrow> bngcarry \<Rightarrow>
   bng_mem \<times> bngcarry" where
  "bng_square_products ops m a alen b blen i carry1 =
     (if i < blen
      then let aofs = 2 * i - 1;
               (m, r) = mult_add_digit ops m (a + aofs) (alen - aofs) (b + i) (blen - i) (m (b + i - 1))
           in bng_square_products ops m a alen b blen (Suc i) (carry1 + ucast r)
      else (m, carry1))"
  by pat_completeness auto
termination
  by (relation "measure (\<lambda>(ops, m, a, alen, b, blen, i, carry1). blen - i)") auto

fun bng_square_digits :: "bng_mem \<Rightarrow> nat \<Rightarrow> nat \<Rightarrow> nat \<Rightarrow> bngcarry \<Rightarrow> bng_mem \<times> bngcarry" where
  "bng_square_digits m a b 0 carry2 = (m, carry2)"
| "bng_square_digits m a b (Suc blen) carry2 =
     (let d = m b;
          (ph, pl) = BngMult d d;
          (r, carry2) = BngAdd2Carry (m a) pl carry2;
          m = m(a := r);
          (r, carry2) = BngAdd2Carry (m (Suc a)) ph carry2;
          m = m(Suc a := r)
      in bng_square_digits m (Suc (Suc a)) (Suc b) blen carry2)"

definition bng_generic_square_add ::
  "('z) bng_primitives_scheme \<Rightarrow> bng_mem \<Rightarrow> nat \<Rightarrow> nat \<Rightarrow> nat \<Rightarrow> nat \<Rightarrow> bng_mem \<times> bngcarry" where
  "bng_generic_square_add ops m a alen b blen =
     (let (m, carry1) = bng_square_products ops m a alen b blen 1 0;
          (m, out) = shift_left ops m a alen 1;
          carry1 = ucast (ucast (push_bit 1 carry1) OR out);
          (m, carry2) = bng_square_digits m a b blen 0;
          a = a + 2 * blen;
          alen = alen - 2 * blen;
          (m, carry2) = (if alen > 0 \<and> carry2 \<noteq> 0 then bng_incr_loop m a alen else (m, carry2))
      in (m, carry1 + carry2))"

definition bng_generic_div_rem_digit ::
  "('z) bng_primitives_scheme \<Rightarrow> bng_mem \<Rightarrow> nat \<Rightarrow> nat \<Rightarrow> nat \<Rightarrow> bngdigit \<Rightarrow>
   (bng_mem \<times> bngdigit) option" where
  "bng_generic_div_rem_digit ops m a b len d =
     (let shift = bng_leading_zero_bits d;
          d = push_bit shift d;
          m = fst (shift_left ops m b len shift)
      in case div_rem_norm_digit ops m a b len d of
           None \<Rightarrow> None
         | Some (m, rem) \<Rightarrow>
             (let m = fst (shift_right ops m b len shift)
              in Some (m, drop_bit shift rem)))"

partial_function (option) bng_div_rem_adjust ::
  "('z) bng_primitives_scheme \<Rightarrow> bng_mem \<Rightarrow> nat \<Rightarrow> nat \<Rightarrow> nat \<Rightarrow> nat \<Rightarrow> bngdigit \<Rightarrow>
   (bng_mem \<times> bngdigit) option" where
  "bng_div_rem_adjust ops m nj ni d dlen quo =
     (if m nj \<noteq> 0 \<or> bng_compare m ni dlen d dlen \<ge> 0
      then let (m, c) = sub ops m ni dlen d dlen 0;
               m = m(nj := m nj - ucast c)
           in bng_div_rem_adjust ops m nj ni d dlen (quo + 1)
      else Some (m, quo))"

declare bng_div_rem_adjust.simps [code]

definition bng_div_rem_estimate :: "bng_mem \<Rightarrow> nat \<Rightarrow> bngdigit \<Rightarrow> bngdigit option" where
  "bng_div_rem_estimate m nj topden =
     (if topden + 1 = 0 then Some (m nj)
      else map_option fst (bng_div_aux (m nj) (m (nj - 1)) (topden + 1)))"

fun bng_div_rem_loop ::
  "('z) bng_primitives_scheme \<Rightarrow> bng_mem \<Rightarrow> nat \<Rightarrow> nat \<Rightarrow> nat \<Rightarrow> bngdigit \<Rightarrow> nat \<Rightarrow> bng_mem option" where
  "bng_div_rem_loop ops m n d dlen topden 0 = Some m"
| "bng_div_rem_loop ops m n d dlen topden (Suc i) =
     (let j = i + dlen
      in case bng_div_rem_estimate m (n + j) topden of
           None \<Rightarrow> None
         | Some quo \<Rightarrow>
             (let (m, c) = mult_sub_digit ops m (n + i) dlen d dlen quo;
                  m = m(n + j := m (n + j) - c)
              in case bng_div_rem_adjust ops m (n + j) (n + i) d dlen quo of
                   None \<Rightarrow> None
                 | Some (m, quo) \<Rightarrow> bng_div_rem_loop ops (m(n + j := quo)) n d dlen topden i))"

definition bng_generic_div_rem ::
  "('z) bng_primitives_scheme \<Rightarrow> bng_mem \<Rightarrow> nat \<Rightarrow> nat \<Rightarrow> nat \<Rightarrow> nat \<Rightarrow> bng_mem option" where
  "bng_generic_div_rem ops m n nlen d dlen =
     (let shift = bng_leading_zero_bits (m (d + (dlen - 1)));
          m = fst (shift_left ops m n nlen shift);
          m = fst (shift_left ops m d dlen shift);
          res = (if dlen = 1
                 then case div_rem_norm_digit ops m (n + 1) n nlen (m d) of
                        None \<Rightarrow> None
                      | Some (m, r) \<Rightarrow> Some (m(n := r))
                 else bng_div_rem_loop ops m n d dlen (m (d + (dlen - 1))) (nlen - dlen))
      in case res of
           None \<Rightarrow> None
         | Some m \<Rightarrow>
             (let m = fst (shift_right ops m n dlen shift);
                  m = fst (shift_right ops m d dlen shift)
              in Some m))"

record bng_operations = bng_primitives +
  mult_add :: "bng_mem \<Rightarrow> nat \<Rightarrow> nat \<Rightarrow> nat \<Rightarrow> nat \<Rightarrow> nat \<Rightarrow> nat \<Rightarrow> bng_mem \<times> bngcarry"
  square_add :: "bng_mem \<Rightarrow> nat \<Rightarrow> nat \<Rightarrow> nat \<Rightarrow> nat \<Rightarrow> bng_mem \<times> bngcarry"
  div_rem_digit :: "bng_mem \<Rightarrow> nat \<Rightarrow> nat \<Rightarrow> nat \<Rightarrow> bngdigit \<Rightarrow> (bng_mem \<times> bngdigit) option"
  div_rem :: "bng_mem \<Rightarrow> nat \<Rightarrow> nat \<Rightarrow> nat \<Rightarrow> nat \<Rightarrow> bng_mem option"

definition bng_prim :: bng_primitives where
  "bng_prim =
     \<lparr> add_carry = bng_generic_add_carry,
       add = bng_generic_add,
       sub_carry = bng_generic_sub_carry,
       sub = bng_generic_sub,
       shift_left = bng_generic_shift_left,
       shift_right = bng_generic_shift_right,
       mult_add_digit = bng_generic_mult_add_digit,
       mult_sub_digit = bng_generic_mult_sub_digit,
       div_rem_norm_digit = bng_generic_div_rem_norm_digit \<rparr>"

definition bng_ops :: bng_operations where
  "bng_ops = bng_primitives.extend bng_prim
     \<lparr> mult_add = bng_generic_mult_add bng_prim,
       square_add = bng_generic_square_add bng_prim,
       div_rem_digit = bng_generic_div_rem_digit bng_prim,
       div_rem = bng_generic_div_rem bng_prim \<rparr>"

section \<open>Values and frames\<close>

definition bng_base :: nat where "bng_base = 2 ^ 64"

fun bng_val :: "bng_mem \<Rightarrow> nat \<Rightarrow> nat \<Rightarrow> nat" where
  "bng_val m a 0 = 0"
| "bng_val m a (Suc n) = unat (m a) + bng_base * bng_val m (Suc a) n"

definition bng_frame :: "bng_mem \<Rightarrow> bng_mem \<Rightarrow> nat \<Rightarrow> nat \<Rightarrow> bool" where
  "bng_frame m m' a n \<longleftrightarrow> (\<forall>x. x < a \<or> a + n \<le> x \<longrightarrow> m' x = m x)"

abbreviation bng_disjoint :: "nat \<Rightarrow> nat \<Rightarrow> nat \<Rightarrow> nat \<Rightarrow> bool" where
  "bng_disjoint a alen b blen \<equiv> a + alen \<le> b \<or> b + blen \<le> a"

lemma bng_base_pos [simp]: "0 < bng_base"
  by (simp add: bng_base_def)

lemma bng_base_nonzero [simp]: "bng_base \<noteq> 0"
  using bng_base_pos by simp

lemma unat_less_base: "unat (x :: bngdigit) < bng_base"
  using unat64 [of x] by (simp add: bng_base_def)

lemma bng_val_cong: "(\<And>i. i < n \<Longrightarrow> m' (a + i) = m (a + i)) \<Longrightarrow> bng_val m' a n = bng_val m a n"
proof (induction n arbitrary: a)
  case (Suc n)
  have "m' (Suc a + i) = m (Suc a + i)" if "i < n" for i
    using Suc.prems [of "Suc i"] that by simp
  then have "bng_val m' (Suc a) n = bng_val m (Suc a) n" by (rule Suc.IH)
  then show ?case using Suc.prems [of 0] by simp
qed simp

lemma bng_val_upd [simp]: "x < a \<or> a + n \<le> x \<Longrightarrow> bng_val (m(x := v)) a n = bng_val m a n"
  by (rule bng_val_cong) auto

lemma bng_val_less: "bng_val m a n < bng_base ^ n"
proof (induction n arbitrary: a)
  case (Suc n)
  have "bng_val m (Suc a) n + 1 \<le> bng_base ^ n" using Suc.IH [of "Suc a"] by simp
  then have "bng_base * (bng_val m (Suc a) n + 1) \<le> bng_base * bng_base ^ n" by (rule mult_le_mono2)
  then show ?case using unat_less_base [of "m a"] by (simp add: algebra_simps)
qed simp

lemma bng_val_append: "bng_val m a (n + k) = bng_val m a n + bng_base ^ n * bng_val m (a + n) k"
  by (induction n arbitrary: a) (simp_all add: algebra_simps)

lemma bng_val_top: "bng_val m a (Suc n) = bng_val m a n + bng_base ^ n * unat (m (a + n))"
  using bng_val_append [of m a n 1] by simp

lemma bng_frame_refl [simp]: "bng_frame m m a n"
  by (simp add: bng_frame_def)

lemma bng_frame_upd [simp]: "a \<le> x \<Longrightarrow> x < a + n \<Longrightarrow> bng_frame m (m(x := v)) a n"
  by (auto simp: bng_frame_def)

lemma bng_frame_trans:
  "bng_frame m m1 a n \<Longrightarrow> bng_frame m1 m2 b k \<Longrightarrow> c \<le> a \<Longrightarrow> c \<le> b \<Longrightarrow> a + n \<le> c + l \<Longrightarrow>
   b + k \<le> c + l \<Longrightarrow> bng_frame m m2 c l"
  unfolding bng_frame_def by (metis le_trans less_le_trans)

lemma bng_frame_val: "bng_frame m m' a n \<Longrightarrow> b + k \<le> a \<or> a + n \<le> b \<Longrightarrow> bng_val m' b k = bng_val m b k"
  by (rule bng_val_cong) (auto simp: bng_frame_def)

lemma bng_frame_at: "bng_frame m m' a n \<Longrightarrow> x < a \<or> a + n \<le> x \<Longrightarrow> m' x = m x"
  by (auto simp: bng_frame_def)

lemma bng_frame_step:
  "bng_frame (m(a := v)) m' (Suc a) n \<Longrightarrow> bng_frame m m' a (Suc n)"
  by (rule bng_frame_trans [of m "m(a := v)" a 1]) auto

lemmas digit_val =
  BngAdd2_correct [folded bng_base_def]
  BngAdd2Carry_correct [folded bng_base_def]
  BngAdd3_correct [folded bng_base_def]
  BngSub2_correct [folded bng_base_def]
  BngSub2Carry_correct [folded bng_base_def]
  BngSub3_correct [folded bng_base_def]
  BngMult_correct [folded bng_base_def]
  bng_div_aux_correct [folded bng_base_def]

lemma unat_incr: "unat ((x :: bngdigit) + 1) = (if unat x + 1 = bng_base then 0 else unat x + 1)"
  using unat64 [of x] by (auto simp: unat_plus_if' bng_base_def)

lemma unat_decr: "unat ((x :: bngdigit) - 1) = (if x = 0 then bng_base - 1 else unat x - 1)"
proof (cases "x = 0")
  case True
  then show ?thesis by (simp add: bng_base_def unsigned_minus_1_eq_mask mask_eq_exp_minus_1)
next
  case False
  then show ?thesis by (simp add: unat_minus_one)
qed

lemma bng_incr_loop_correct:
  "bng_incr_loop m a n = (m', c) \<Longrightarrow>
   c \<le> 1 \<and> bng_frame m m' a n \<and> bng_val m' a n + bng_base ^ n * unat c = bng_val m a n + 1"
proof (induction n arbitrary: m a)
  case (Suc n)
  show ?case
  proof (cases "m a + 1 = 0")
    case False
    then have "unat (m a) + 1 \<noteq> bng_base" by (metis unat_incr unat_eq_zero)
    with False Suc.prems show ?thesis by (auto simp: Let_def unat_incr)
  next
    case True
    then have b: "unat (m a) + 1 = bng_base" by (metis unat_incr unat_eq_zero add_is_0 one_neq_zero)
    from True Suc.prems have "bng_incr_loop (m(a := 0)) (Suc a) n = (m', c)" by (simp add: Let_def)
    note IH = Suc.IH [OF this]
    then have ih: "c \<le> 1" "bng_frame (m(a := 0)) m' (Suc a) n" by blast+
    have v: "bng_val m' (Suc a) n + bng_base ^ n * unat c = bng_val m (Suc a) n + 1"
      using IH by (simp only: bng_val_upd lessI simp_thms)
    have "m' a = 0" using bng_frame_at [OF ih(2), of a] by simp
    then have "bng_val m' a (Suc n) + bng_base ^ Suc n * unat c
        = bng_base * (bng_val m' (Suc a) n + bng_base ^ n * unat c)" by (simp add: algebra_simps)
    also have "\<dots> = bng_val m a (Suc n) + 1"
      unfolding v using b by (simp add: algebra_simps)
    finally show ?thesis using ih bng_frame_step by blast
  qed
qed auto

lemma bng_decr_loop_correct:
  "bng_decr_loop m a n = (m', c) \<Longrightarrow>
   c \<le> 1 \<and> bng_frame m m' a n \<and> bng_val m' a n + 1 = bng_val m a n + bng_base ^ n * unat c"
proof (induction n arbitrary: m a)
  case (Suc n)
  show ?case
  proof (cases "m a = 0")
    case False
    then have "0 < unat (m a)" by (simp add: unat_gt_0)
    with False Suc.prems show ?thesis by (auto simp: Let_def unat_decr)
  next
    case True
    from True Suc.prems have "bng_decr_loop (m(a := - 1)) (Suc a) n = (m', c)" by (simp add: Let_def)
    note IH = Suc.IH [OF this]
    then have ih: "c \<le> 1" "bng_frame (m(a := - 1)) m' (Suc a) n" by blast+
    have v: "bng_val m' (Suc a) n + 1 = bng_val m (Suc a) n + bng_base ^ n * unat c"
      using IH by (simp only: bng_val_upd lessI simp_thms)
    have "unat (m' a) = bng_base - 1" using bng_frame_at [OF ih(2), of a] unat_decr [of 0] by simp
    then have "bng_val m' a (Suc n) + 1 = bng_base * (bng_val m' (Suc a) n + 1)"
      by (simp add: algebra_simps)
    also have "\<dots> = bng_val m a (Suc n) + bng_base ^ Suc n * unat c"
      unfolding v using True by (simp add: algebra_simps)
    finally show ?thesis using ih bng_frame_step by blast
  qed
qed auto

lemma mult_add_no_overflow:
  assumes p: "bng_base * unat ph + unat pl = unat (x :: bngdigit) * unat (y :: bngdigit)"
    and r: "unat (r :: bngdigit) + bng_base * k = unat (u :: bngdigit) + unat (pl :: bngdigit) + unat (v :: bngdigit)"
  shows "unat (ph + of_nat k :: bngdigit) = unat ph + k"
proof -
  let ?B = "bng_base"
  have "unat x \<le> ?B - 1" "unat y \<le> ?B - 1" "unat u \<le> ?B - 1" "unat v \<le> ?B - 1"
    using unat_less_base [of x] unat_less_base [of y] unat_less_base [of u] unat_less_base [of v] by auto
  then have "unat x * unat y + unat u + unat v \<le> (?B - 1) * (?B - 1) + (?B - 1) + (?B - 1)"
    by (intro add_mono mult_le_mono)
  also have "\<dots> < ?B * ?B" by (simp add: bng_base_def)
  finally have "?B * (unat ph + k) < ?B * ?B" using p r by (simp add: algebra_simps)
  then have "unat ph + k < 2 ^ 64" by (simp add: bng_base_def)
  then have "unat (of_nat (unat ph + k) :: bngdigit) = unat ph + k" by (simp only: unat_of_nat) simp
  then show ?thesis by simp
qed
lemma bng_mult_add_digit_loop_correct:
  "bng_mult_add_digit_loop m a b n d ci = (m', c) \<Longrightarrow> a \<le> b \<or> b + n \<le> a \<Longrightarrow>
   bng_frame m m' a n
   \<and> bng_val m' a n + bng_base ^ n * unat c = bng_val m a n + unat d * bng_val m b n + unat ci"
proof (induction n arbitrary: m a b ci)
  case (Suc n)
  obtain ph pl where p: "BngMult (m b) d = (ph, pl)" by fastforce
  obtain r c1 where r: "BngAdd3 ph (m a) pl ci = (r, c1)" by fastforce
  from digit_val(3) [OF r] obtain k where k: "c1 = ph + of_nat k"
    "unat r + bng_base * k = unat (m a) + unat pl + unat ci" by blast
  have d: "unat r + bng_base * unat c1 = unat (m a) + unat (m b) * unat d + unat ci"
    using mult_add_no_overflow [OF digit_val(7) [OF p] k(2)] k digit_val(7) [OF p]
    by (simp add: algebra_simps)
  have next_call: "bng_mult_add_digit_loop (m(a := r)) (Suc a) (Suc b) n d c1 = (m', c)"
    using Suc.prems(1) p r by simp
  have disj: "Suc a \<le> Suc b \<or> Suc b + n \<le> Suc a" and nb: "a < Suc b \<or> Suc b + n \<le> a"
    using Suc.prems(2) by auto
  from Suc.IH [OF next_call disj] have ih: "bng_frame (m(a := r)) m' (Suc a) n"
    and "bng_val m' (Suc a) n + bng_base ^ n * unat c
          = bng_val (m(a := r)) (Suc a) n + unat d * bng_val (m(a := r)) (Suc b) n + unat c1" by blast+
  then have v: "bng_val m' (Suc a) n + bng_base ^ n * unat c
          = bng_val m (Suc a) n + unat d * bng_val m (Suc b) n + unat c1"
    using nb by (simp only: bng_val_upd lessI simp_thms)
  have "m' a = r" using bng_frame_at [OF ih, of a] by simp
  then have "bng_val m' a (Suc n) + bng_base ^ Suc n * unat c
      = unat r + bng_base * (bng_val m' (Suc a) n + bng_base ^ n * unat c)" by (simp add: algebra_simps)
  also have "\<dots> = unat r + bng_base * unat c1 + bng_base * (bng_val m (Suc a) n + unat d * bng_val m (Suc b) n)"
    unfolding v by (simp add: algebra_simps)
  also have "\<dots> = bng_val m a (Suc n) + unat d * bng_val m b (Suc n) + unat ci"
    unfolding d by (simp add: algebra_simps)
  finally show ?case using bng_frame_step [OF ih] by blast
qed auto

lemma bng_add_loop_correct:
  "bng_add_loop m a b n ci = (m', c) \<Longrightarrow> ci \<le> 1 \<Longrightarrow> a \<le> b \<or> b + n \<le> a \<Longrightarrow>
   c \<le> 1 \<and> bng_frame m m' a n
   \<and> bng_val m' a n + bng_base ^ n * unat c = bng_val m a n + bng_val m b n + unat ci"
proof (induction n arbitrary: m a b ci)
  case (Suc n)
  obtain r c1 where r: "BngAdd2Carry (m a) (m b) ci = (r, c1)" by fastforce
  from digit_val(2) [OF r Suc.prems(2)]
  have d: "unat r + bng_base * unat c1 = unat (m a) + unat (m b) + unat ci" and c1: "c1 \<le> 1" by auto
  have next_call: "bng_add_loop (m(a := r)) (Suc a) (Suc b) n c1 = (m', c)"
    using Suc.prems(1) r by simp
  have disj: "Suc a \<le> Suc b \<or> Suc b + n \<le> Suc a" and nb: "a < Suc b \<or> Suc b + n \<le> a"
    using Suc.prems(3) by auto
  from Suc.IH [OF next_call c1 disj] have ih: "c \<le> 1" "bng_frame (m(a := r)) m' (Suc a) n"
    and v: "bng_val m' (Suc a) n + bng_base ^ n * unat c
          = bng_val (m(a := r)) (Suc a) n + bng_val (m(a := r)) (Suc b) n + unat c1" by blast+
  have "m' a = r" using bng_frame_at [OF ih(2), of a] by simp
  then have "bng_val m' a (Suc n) + bng_base ^ Suc n * unat c
      = unat r + bng_base * (bng_val m' (Suc a) n + bng_base ^ n * unat c)" by (simp add: algebra_simps)
  also have "\<dots> = unat r + bng_base * (bng_val m (Suc a) n + bng_val m (Suc b) n + unat c1)"
    unfolding v using nb by simp
  also have "\<dots> = bng_val m a (Suc n) + bng_val m b (Suc n) + unat ci"
    using d by (simp add: algebra_simps)
  finally show ?case using ih(1) bng_frame_step [OF ih(2)] by blast
qed auto

lemma bng_sub_loop_correct:
  "bng_sub_loop m a b n ci = (m', c) \<Longrightarrow> ci \<le> 1 \<Longrightarrow> a \<le> b \<or> b + n \<le> a \<Longrightarrow>
   c \<le> 1 \<and> bng_frame m m' a n
   \<and> bng_val m' a n + bng_val m b n + unat ci = bng_val m a n + bng_base ^ n * unat c"
proof (induction n arbitrary: m a b ci)
  case (Suc n)
  obtain r c1 where r: "BngSub2Carry (m a) (m b) ci = (r, c1)" by fastforce
  from digit_val(5) [OF r Suc.prems(2)]
  have d: "unat r + unat (m b) + unat ci = unat (m a) + bng_base * unat c1" and c1: "c1 \<le> 1" by auto
  have next_call: "bng_sub_loop (m(a := r)) (Suc a) (Suc b) n c1 = (m', c)"
    using Suc.prems(1) r by simp
  have disj: "Suc a \<le> Suc b \<or> Suc b + n \<le> Suc a" and nb: "a < Suc b \<or> Suc b + n \<le> a"
    using Suc.prems(3) by auto
  from Suc.IH [OF next_call c1 disj] have ih: "c \<le> 1" "bng_frame (m(a := r)) m' (Suc a) n"
    and "bng_val m' (Suc a) n + bng_val (m(a := r)) (Suc b) n + unat c1
          = bng_val (m(a := r)) (Suc a) n + bng_base ^ n * unat c" by blast+
  then have v: "bng_val m' (Suc a) n + bng_val m (Suc b) n + unat c1
          = bng_val m (Suc a) n + bng_base ^ n * unat c" using nb by (simp only: bng_val_upd lessI simp_thms)
  have "m' a = r" using bng_frame_at [OF ih(2), of a] by simp
  then have "bng_val m' a (Suc n) + bng_val m b (Suc n) + unat ci
      = unat r + unat (m b) + unat ci + bng_base * (bng_val m' (Suc a) n + bng_val m (Suc b) n)"
    by (simp add: algebra_simps)
  also have "\<dots> = unat (m a) + bng_base * (bng_val m' (Suc a) n + bng_val m (Suc b) n + unat c1)"
    unfolding d by (simp add: algebra_simps)
  also have "\<dots> = bng_val m a (Suc n) + bng_base ^ Suc n * unat c"
    unfolding v by (simp add: algebra_simps)
  finally show ?case using ih(1) bng_frame_step [OF ih(2)] by blast
qed auto

lemma mult_sub_no_overflow:
  assumes p: "bng_base * unat ph + unat pl = unat (x :: bngdigit) * unat (y :: bngdigit)"
    and r: "unat (r :: bngdigit) + unat (pl :: bngdigit) + unat (v :: bngdigit) = unat (u :: bngdigit) + bng_base * k"
  shows "unat (ph + of_nat k :: bngdigit) = unat ph + k"
proof -
  let ?B = "bng_base"
  have "unat x \<le> ?B - 1" "unat y \<le> ?B - 1" "unat r \<le> ?B - 1" "unat v \<le> ?B - 1"
    using unat_less_base [of x] unat_less_base [of y] unat_less_base [of r] unat_less_base [of v] by auto
  then have "unat x * unat y + unat r + unat v \<le> (?B - 1) * (?B - 1) + (?B - 1) + (?B - 1)"
    by (intro add_mono mult_le_mono)
  also have "\<dots> < ?B * ?B" by (simp add: bng_base_def)
  finally have "?B * (unat ph + k) < ?B * ?B" using p r by (simp add: algebra_simps)
  then have "unat ph + k < 2 ^ 64" by (simp add: bng_base_def)
  then have "unat (of_nat (unat ph + k) :: bngdigit) = unat ph + k" by (simp only: unat_of_nat) simp
  then show ?thesis by simp
qed

lemma bng_mult_sub_digit_loop_correct:
  "bng_mult_sub_digit_loop m a b n d ci = (m', c) \<Longrightarrow> a \<le> b \<or> b + n \<le> a \<Longrightarrow>
   bng_frame m m' a n
   \<and> bng_val m' a n + unat d * bng_val m b n + unat ci = bng_val m a n + bng_base ^ n * unat c"
proof (induction n arbitrary: m a b ci)
  case (Suc n)
  obtain ph pl where p: "BngMult (m b) d = (ph, pl)" by fastforce
  obtain r c1 where r: "BngSub3 ph (m a) pl ci = (r, c1)" by fastforce
  from digit_val(6) [OF r] obtain k where k: "c1 = ph + of_nat k"
    "unat r + unat pl + unat ci = unat (m a) + bng_base * k" by blast
  have d: "unat r + unat (m b) * unat d + unat ci = unat (m a) + bng_base * unat c1"
    using mult_sub_no_overflow [OF digit_val(7) [OF p] k(2)] k digit_val(7) [OF p]
    by (simp add: algebra_simps)
  have next_call: "bng_mult_sub_digit_loop (m(a := r)) (Suc a) (Suc b) n d c1 = (m', c)"
    using Suc.prems(1) p r by simp
  have disj: "Suc a \<le> Suc b \<or> Suc b + n \<le> Suc a" and nb: "a < Suc b \<or> Suc b + n \<le> a"
    using Suc.prems(2) by auto
  from Suc.IH [OF next_call disj] have ih: "bng_frame (m(a := r)) m' (Suc a) n"
    and "bng_val m' (Suc a) n + unat d * bng_val (m(a := r)) (Suc b) n + unat c1
          = bng_val (m(a := r)) (Suc a) n + bng_base ^ n * unat c" by blast+
  then have v: "bng_val m' (Suc a) n + unat d * bng_val m (Suc b) n + unat c1
          = bng_val m (Suc a) n + bng_base ^ n * unat c"
    using nb by (simp only: bng_val_upd lessI simp_thms)
  have "m' a = r" using bng_frame_at [OF ih, of a] by simp
  then have "bng_val m' a (Suc n) + unat d * bng_val m b (Suc n) + unat ci
      = (unat r + unat (m b) * unat d + unat ci)
          + bng_base * (bng_val m' (Suc a) n + unat d * bng_val m (Suc b) n)" by (simp add: algebra_simps)
  also have "\<dots> = unat (m a) + bng_base * (bng_val m' (Suc a) n + unat d * bng_val m (Suc b) n + unat c1)"
    unfolding d by (simp add: algebra_simps)
  also have "\<dots> = bng_val m a (Suc n) + bng_base ^ Suc n * unat c"
    unfolding v by (simp add: algebra_simps)
  finally show ?case using bng_frame_step [OF ih] by blast
qed auto

lemma digit_shift_left:
  assumes "s \<le> 64"
  shows "unat (push_bit s (d :: bngdigit)) + bng_base * unat (drop_bit (64 - s) d) = unat d * 2 ^ s"
    and "2 ^ s dvd unat (push_bit s (d :: bngdigit))"
proof -
  have b: "bng_base = 2 ^ (64 - s) * 2 ^ s" using assms by (simp add: bng_base_def flip: power_add)
  have push: "unat (push_bit s d) = (unat d mod 2 ^ (64 - s)) * 2 ^ s"
    using b by (simp only: unat_push_bit len_num0 mult_mod_left) (simp add: bng_base_def mult_mod_left)
  show "2 ^ s dvd unat (push_bit s d)" unfolding push by simp
  have "unat (push_bit s d) + bng_base * unat (drop_bit (64 - s) d)
      = (unat d mod 2 ^ (64 - s) + 2 ^ (64 - s) * (unat d div 2 ^ (64 - s))) * 2 ^ s"
    unfolding push unat_drop_bit b by (simp only: distrib_right distrib_left ac_simps)
  then show "unat (push_bit s d) + bng_base * unat (drop_bit (64 - s) d) = unat d * 2 ^ s"
    by (simp only: mod_mult_div_eq)
qed

lemma digit_shift_left_or:
  assumes "s \<le> 64" and "unat (c :: bngdigit) < 2 ^ s"
  shows "unat (push_bit s (d :: bngdigit) OR c) + bng_base * unat (drop_bit (64 - s) d)
       = unat d * 2 ^ s + unat c"
  using unat_or_disjoint [OF assms(2) digit_shift_left(2) [OF assms(1), of d]]
    digit_shift_left(1) [OF assms(1), of d] by (simp add: or.commute)

lemma digit_drop_less: "s \<le> 64 \<Longrightarrow> unat (drop_bit (64 - s) (d :: bngdigit)) < 2 ^ s"
proof -
  assume "s \<le> 64"
  then have "unat d < 2 ^ (64 - s) * 2 ^ s" using unat64 [of d] by (simp flip: power_add)
  then show ?thesis unfolding unat_drop_bit by (simp add: less_mult_imp_div_less mult.commute)
qed

lemma bng_shift_left_loop_correct:
  "bng_shift_left_loop m a n s (64 - s) ci = (m', c) \<Longrightarrow> s \<le> 64 \<Longrightarrow> unat ci < 2 ^ s \<Longrightarrow>
   bng_frame m m' a n \<and> unat c < 2 ^ s
   \<and> bng_val m' a n + bng_base ^ n * unat c = bng_val m a n * 2 ^ s + unat ci"
proof (induction n arbitrary: m a ci)
  case (Suc n)
  let ?r = "push_bit s (m a) OR ci" and ?c1 = "drop_bit (64 - s) (m a)"
  have call: "bng_shift_left_loop (m(a := ?r)) (Suc a) n s (64 - s) ?c1 = (m', c)"
    using Suc.prems(1) by (simp add: Let_def)
  from Suc.IH [OF call Suc.prems(2) digit_drop_less [OF Suc.prems(2)]]
  have ih: "bng_frame (m(a := ?r)) m' (Suc a) n" "unat c < 2 ^ s"
    and "bng_val m' (Suc a) n + bng_base ^ n * unat c = bng_val (m(a := ?r)) (Suc a) n * 2 ^ s + unat ?c1"
    by blast+
  then have v: "bng_val m' (Suc a) n + bng_base ^ n * unat c = bng_val m (Suc a) n * 2 ^ s + unat ?c1"
    by (simp only: bng_val_upd lessI simp_thms)
  have "m' a = ?r" using bng_frame_at [OF ih(1), of a] by simp
  then have "bng_val m' a (Suc n) + bng_base ^ Suc n * unat c
      = unat ?r + bng_base * (bng_val m' (Suc a) n + bng_base ^ n * unat c)" by (simp add: algebra_simps)
  also have "\<dots> = (unat ?r + bng_base * unat ?c1) + bng_base * bng_val m (Suc a) n * 2 ^ s"
    unfolding v by (simp add: algebra_simps)
  also have "\<dots> = bng_val m a (Suc n) * 2 ^ s + unat ci"
    unfolding digit_shift_left_or [OF Suc.prems(2,3)] by (simp add: algebra_simps)
  finally show ?case using ih(2) bng_frame_step [OF ih(1)] by blast
qed auto

lemma digit_shift_right_or:
  assumes "s \<le> 64" and "unat (c :: bngdigit) = k * 2 ^ (64 - s)"
  shows "unat (drop_bit s (d :: bngdigit) OR c) * 2 ^ s + unat d mod 2 ^ s = unat d + bng_base * k"
    and "unat (push_bit (64 - s) d) = (unat d mod 2 ^ s) * 2 ^ (64 - s)"
proof -
  have b: "bng_base = 2 ^ s * 2 ^ (64 - s)" using assms(1) by (simp add: bng_base_def flip: power_add)
  show "unat (push_bit (64 - s) d) = (unat d mod 2 ^ s) * 2 ^ (64 - s)"
    using b by (simp only: unat_push_bit len_num0 mult_mod_left) (simp add: bng_base_def mult_mod_left)
  have "unat (drop_bit s d) < 2 ^ (64 - s)"
    using b unat_less_base [of d] unfolding unat_drop_bit by (simp add: less_mult_imp_div_less mult.commute)
  moreover have "2 ^ (64 - s) dvd unat c" using assms(2) by simp
  ultimately have "unat (drop_bit s d OR c) = unat d div 2 ^ s + k * 2 ^ (64 - s)"
    using unat_or_disjoint [of "drop_bit s d" "64 - s" c] assms(2) by (simp add: unat_drop_bit)
  then have "unat (drop_bit s d OR c) * 2 ^ s + unat d mod 2 ^ s
      = (unat d div 2 ^ s * 2 ^ s + unat d mod 2 ^ s) + bng_base * k"
    unfolding b by (simp add: algebra_simps)
  then show "unat (drop_bit s d OR c) * 2 ^ s + unat d mod 2 ^ s = unat d + bng_base * k"
    by (simp only: div_mult_mod_eq)
qed

lemma bng_shift_right_loop_correct:
  "bng_shift_right_loop m a n s (64 - s) ci = (m', c) \<Longrightarrow> s \<le> 64 \<Longrightarrow> unat ci = k * 2 ^ (64 - s) \<Longrightarrow> k < 2 ^ s \<Longrightarrow>
   bng_frame m m' a n \<and> (\<exists>k'. unat c = k' * 2 ^ (64 - s) \<and> k' < 2 ^ s
   \<and> bng_val m' a n * 2 ^ s + k' = bng_val m a n + bng_base ^ n * k)"
proof (induction n arbitrary: m ci k)
  case (Suc n)
  let ?d = "m (a + n)"
  let ?r = "drop_bit s ?d OR ci" and ?c1 = "push_bit (64 - s) ?d" and ?k1 = "unat (m (a + n)) mod 2 ^ s"
  note step = digit_shift_right_or [OF Suc.prems(2,3), of ?d]
  have call: "bng_shift_right_loop (m(a + n := ?r)) a n s (64 - s) ?c1 = (m', c)"
    using Suc.prems(1) by (simp add: Let_def)
  have k1: "?k1 < 2 ^ s" by simp
  from Suc.IH [OF call Suc.prems(2) step(2) k1] obtain k' where
    ih: "bng_frame (m(a + n := ?r)) m' a n" "unat c = k' * 2 ^ (64 - s)" "k' < 2 ^ s"
    and "bng_val m' a n * 2 ^ s + k' = bng_val (m(a + n := ?r)) a n + bng_base ^ n * ?k1" by blast
  then have v: "bng_val m' a n * 2 ^ s + k' = bng_val m a n + bng_base ^ n * ?k1"
    by (simp only: bng_val_upd order_refl simp_thms)
  have r: "m' (a + n) = ?r" using bng_frame_at [OF ih(1), of "a + n"] by simp
  have "bng_val m' a (Suc n) * 2 ^ s + k'
      = (bng_val m' a n * 2 ^ s + k') + bng_base ^ n * (unat ?r * 2 ^ s)"
    unfolding bng_val_top r by (simp add: algebra_simps)
  also have "\<dots> = bng_val m a n + bng_base ^ n * (unat ?r * 2 ^ s + ?k1)"
    unfolding v by (simp add: algebra_simps)
  also have "\<dots> = bng_val m a (Suc n) + bng_base ^ Suc n * k"
    unfolding step(1) bng_val_top by (simp add: algebra_simps)
  finally have "bng_val m' a (Suc n) * 2 ^ s + k' = bng_val m a (Suc n) + bng_base ^ Suc n * k" .
  moreover have "bng_frame m m' a (Suc n)"
    by (rule bng_frame_trans [OF _ ih(1), of m a "Suc n"]) auto
  ultimately show ?case using ih(2,3) by blast
qed auto

lemma bng_div_rem_norm_digit_loop_correct:
  "tp < d \<Longrightarrow> b \<le> a \<or> a + n \<le> b \<Longrightarrow>
   \<exists>m' r. bng_div_rem_norm_digit_loop m a b n tp d = Some (m', r) \<and> r < d \<and> bng_frame m m' a n
   \<and> bng_base ^ n * unat tp + bng_val m b n = bng_val m' a n * unat d + unat r"
proof (induction n arbitrary: m tp)
  case (Suc n)
  from digit_val(8) [OF Suc.prems(1), of "m (b + n)"] obtain q t where
    q: "bng_div_aux tp (m (b + n)) d = Some (q, t)" "t < d"
       "bng_base * unat tp + unat (m (b + n)) = unat q * unat d + unat t" by blast
  let ?m = "m(a + n := q)"
  have disj: "b \<le> a \<or> a + n \<le> b" and nb: "a + n < b \<or> b + n \<le> a + n" using Suc.prems(2) by auto
  from Suc.IH [OF q(2) disj, of ?m] obtain m' r where
    ih: "bng_div_rem_norm_digit_loop ?m a b n t d = Some (m', r)" "r < d" "bng_frame ?m m' a n"
        "bng_base ^ n * unat t + bng_val ?m b n = bng_val m' a n * unat d + unat r" by blast
  from ih(4) have v: "bng_base ^ n * unat t + bng_val m b n = bng_val m' a n * unat d + unat r"
    using nb by (simp only: bng_val_upd)
  have at: "m' (a + n) = q" using bng_frame_at [OF ih(3), of "a + n"] by simp
  have "bng_base ^ Suc n * unat tp + bng_val m b (Suc n)
      = bng_base ^ n * (bng_base * unat tp + unat (m (b + n))) + bng_val m b n"
    unfolding bng_val_top by (simp add: algebra_simps)
  also have "\<dots> = bng_base ^ n * unat q * unat d + (bng_base ^ n * unat t + bng_val m b n)"
    unfolding q(3) by (simp add: algebra_simps)
  also have "\<dots> = bng_val m' a (Suc n) * unat d + unat r"
    unfolding v bng_val_top at by (simp add: algebra_simps)
  finally have "bng_base ^ Suc n * unat tp + bng_val m b (Suc n) = bng_val m' a (Suc n) * unat d + unat r" .
  moreover have "bng_frame m m' a (Suc n)"
    by (rule bng_frame_trans [OF _ ih(3), of m a "Suc n"]) auto
  ultimately show ?case using ih(1,2) q(1) by auto
qed auto

section \<open>Comparison, complement, leading zeros\<close>

lemma bng_trim_correct:
  "bng_trim m a n \<le> n \<and> bng_val m a (bng_trim m a n) = bng_val m a n
   \<and> (bng_trim m a n = 0 \<or> m (a + (bng_trim m a n - 1)) \<noteq> 0)"
  by (induction n) (auto simp: bng_val_top simp del: bng_val.simps(2))

lemma bng_val_ge_top:
  assumes "n > 0" "m (a + (n - 1)) \<noteq> 0"
  shows "bng_base ^ (n - 1) \<le> bng_val m a n"
proof -
  obtain k where k: "n = Suc k" using assms(1) by (cases n) auto
  have "1 \<le> unat (m (a + k))" using assms(2) k by (simp add: Suc_le_eq unat_gt_0)
  then have "bng_base ^ k \<le> bng_base ^ k * unat (m (a + k))"
    using mult_le_mono2 [of 1 "unat (m (a + k))" "bng_base ^ k"] by simp
  then show ?thesis unfolding k bng_val_top diff_Suc_1 by (rule trans_le_add2)
qed

lemma bng_val_less_longer:
  assumes "k < n" "m (a + (n - 1)) \<noteq> 0"
  shows "bng_val m b k < bng_val m a n"
proof -
  have "bng_base ^ k \<le> bng_base ^ (n - 1)" using assms(1) by (intro power_increasing) (auto simp: Suc_le_eq)
  then show ?thesis using bng_val_less [of m b k] bng_val_ge_top [of n m a] assms by simp
qed

lemma bng_compare_digits_correct:
  "bng_compare_digits m a b n = sgn (int (bng_val m a n) - int (bng_val m b n))"
proof (induction n)
  case (Suc n)
  have lt: "bng_val m x (Suc n) < bng_val m y (Suc n)" if "m (x + n) < m (y + n)" for x y
  proof -
    have "unat (m (x + n)) + 1 \<le> unat (m (y + n))" using that by (simp add: word_less_nat_alt)
    then have "bng_base ^ n * (unat (m (x + n)) + 1) \<le> bng_base ^ n * unat (m (y + n))" by (rule mult_le_mono2)
    then show ?thesis unfolding bng_val_top using bng_val_less [of m x n] by (simp add: algebra_simps)
  qed
  consider "m (b + n) < m (a + n)" | "m (a + n) < m (b + n)" | "m (a + n) = m (b + n)" by (rule linorder_cases)
  then show ?case
  proof cases
    case 1 then show ?thesis using lt [OF 1] by (simp add: Let_def del: bng_val.simps(2))
  next
    case 2 then show ?thesis using lt [OF 2] by (simp add: Let_def less_not_sym del: bng_val.simps(2))
  next
    case 3 then show ?thesis using Suc.IH unfolding bng_val_top by (simp add: Let_def)
  qed
qed simp

lemma bng_compare_correct:
  "bng_compare m a alen b blen = sgn (int (bng_val m a alen) - int (bng_val m b blen))"
proof -
  let ?p = "bng_trim m a alen" and ?q = "bng_trim m b blen"
  note p = bng_trim_correct [of m a alen] and q = bng_trim_correct [of m b blen]
  consider "?q < ?p" | "?p < ?q" | "?p = ?q" by linarith
  then show ?thesis
  proof cases
    case 1
    then have "bng_val m b ?q < bng_val m a ?p" using p by (intro bng_val_less_longer) auto
    with 1 p q show ?thesis by (simp add: bng_compare_def)
  next
    case 2
    then have "bng_val m a ?p < bng_val m b ?q" using q by (intro bng_val_less_longer) auto
    with 2 p q show ?thesis by (simp add: bng_compare_def)
  next
    case 3
    with p q show ?thesis by (simp add: bng_compare_def bng_compare_digits_correct)
  qed
qed

lemma bng_num_digits_correct:
  "1 \<le> bng_num_digits m a n
   \<and> bng_num_digits m a n \<le> max 1 n \<and> (0 < n \<longrightarrow> bng_val m a (bng_num_digits m a n) = bng_val m a n)
   \<and> (bng_num_digits m a n = 1 \<or> m (a + (bng_num_digits m a n - 1)) \<noteq> 0)"
proof (induction n)
  case (Suc n)
  then show ?case by (cases n) (auto simp: bng_val_top simp del: bng_val.simps(2))
qed simp

lemma unat_NOT: "unat (NOT (x :: bngdigit)) + unat x + 1 = bng_base"
proof -
  have "NOT x = - 1 - x" by (simp add: not_eq_complement)
  moreover have top: "unat (- 1 :: bngdigit) = bng_base - 1" using unat_decr [of 0] by simp
  moreover have "unat (- 1 - x :: bngdigit) = unat (- 1 :: bngdigit) - unat x"
    using unat_less_base [of x] by (intro unat_sub) (simp add: word_le_nat_alt top)
  ultimately show ?thesis using unat_less_base [of x] by simp
qed

lemma bng_complement_correct:
  "bng_frame m (bng_complement m a n) a n
   \<and> bng_val (bng_complement m a n) a n + bng_val m a n + 1 = bng_base ^ n"
proof (induction n arbitrary: m a)
  case (Suc n)
  let ?m1 = "m(a := NOT (m a))"
  let ?m' = "bng_complement ?m1 (Suc a) n"
  have fr: "bng_frame ?m1 ?m' (Suc a) n" and "bng_val ?m' (Suc a) n + bng_val ?m1 (Suc a) n + 1 = bng_base ^ n"
    using Suc.IH [of ?m1 "Suc a"] by blast+
  then have v: "bng_val ?m' (Suc a) n + bng_val m (Suc a) n + 1 = bng_base ^ n"
    by (simp only: bng_val_upd lessI simp_thms)
  have "?m' a = NOT (m a)" using bng_frame_at [OF fr, of a] by simp
  then have "bng_val ?m' a (Suc n) + bng_val m a (Suc n) + 1
      = (unat (NOT (m a)) + unat (m a) + 1) + bng_base * (bng_val ?m' (Suc a) n + bng_val m (Suc a) n)"
    by (simp add: algebra_simps)
  also have "\<dots> = bng_base * (bng_val ?m' (Suc a) n + bng_val m (Suc a) n + 1)"
    unfolding unat_NOT by (simp add: algebra_simps)
  also have "\<dots> = bng_base ^ Suc n" unfolding v by simp
  finally have "bng_val ?m' a (Suc n) + bng_val m a (Suc n) + 1 = bng_base ^ Suc n" .
  then show ?case using bng_frame_step [OF fr] by simp
qed simp

lemma and_high_half:
  assumes "unat (d :: bngdigit) < 2 ^ (2 * s)" "2 * s \<le> 64"
  shows "d AND push_bit s (mask s) \<noteq> 0 \<longleftrightarrow> 2 ^ s \<le> unat d"
proof -
  have "d AND push_bit s (mask s) = push_bit s (take_bit s (drop_bit s d))"
    by (rule bit_eqI) (auto simp: bit_simps)
  moreover have "take_bit s (drop_bit s d) = drop_bit s d"
  proof -
    have "unat d div 2 ^ s < 2 ^ s" using assms(1) by (simp add: less_mult_imp_div_less mult_2 power_add)
    then show ?thesis
      by (simp add: word_unat_eq_iff unsigned_take_bit_eq unat_drop_bit take_bit_nat_eq_self)
  qed
  ultimately have "d AND push_bit s (mask s) = push_bit s (drop_bit s d)" by simp
  moreover have "unat (push_bit s (drop_bit s d)) = unat d div 2 ^ s * 2 ^ s"
  proof -
    have "unat d div 2 ^ s * 2 ^ s < 2 ^ 64" using unat64 [of d] by (meson div_times_less_eq_dividend le_less_trans)
    then show ?thesis by (simp only: unat_push_bit unat_drop_bit len_num0) simp
  qed
  ultimately have "d AND push_bit s (mask s) = 0 \<longleftrightarrow> unat d div 2 ^ s * 2 ^ s = 0" by (metis unat_eq_0)
  then show ?thesis by (simp add: div_eq_0_iff not_less)
qed

lemma bng_lzb_step_correct:
  assumes "msk = push_bit s (mask s)" "2 * s \<le> n" "n \<le> 64" "unat d = unat D div 2 ^ (64 - n)"
    "unat (d :: bngdigit) < 2 ^ (2 * s)" "unat d \<noteq> 0"
    and "bng_lzb_step msk s (n, d) = (n', d')"
  shows "s \<le> n'" "n' \<le> 64" "unat d' = unat D div 2 ^ (64 - n')" "unat d' < 2 ^ s" "unat d' \<noteq> 0"
proof -
  have iff: "d AND msk \<noteq> 0 \<longleftrightarrow> 2 ^ s \<le> unat d" unfolding assms(1)
    by (rule and_high_half) (use assms in auto)
  have e: "64 - (n - s) = 64 - n + s" using assms(2,3) by simp
  have lt: "unat d div 2 ^ s < 2 ^ s" using assms(5) by (simp add: less_mult_imp_div_less mult_2 power_add)
  have r: "(n', d') = (if 2 ^ s \<le> unat d then (n - s, drop_bit s d) else (n, d))"
    using assms(7) iff unfolding bng_lzb_step_def by simp
  show "s \<le> n'" "n' \<le> 64" using r assms(2,3) by (auto split: if_splits)
  show "unat d' = unat D div 2 ^ (64 - n')"
    using r assms(4) by (auto simp: e unat_drop_bit power_add div_mult2_eq split: if_splits)
  show "unat d' < 2 ^ s" using r lt by (auto simp: unat_drop_bit split: if_splits)
  show "unat d' \<noteq> 0" using r assms(6) by (auto simp: unat_drop_bit div_greater_zero_iff split: if_splits)
qed

lemma bng_leading_zero_bits_correct:
  assumes "d \<noteq> 0"
  shows "bng_leading_zero_bits d < 64"
    and "2 ^ 63 \<le> unat d * 2 ^ bng_leading_zero_bits d" and "unat d * 2 ^ bng_leading_zero_bits d < 2 ^ 64"
proof -
  obtain n1 d1 where s1: "bng_lzb_step 0xFFFFFFFF00000000 32 (64, d) = (n1, d1)" by fastforce
  obtain n2 d2 where s2: "bng_lzb_step 0xFFFF0000 16 (n1, d1) = (n2, d2)" by fastforce
  obtain n3 d3 where s3: "bng_lzb_step 0xFF00 8 (n2, d2) = (n3, d3)" by fastforce
  obtain n4 d4 where s4: "bng_lzb_step 0xF0 4 (n3, d3) = (n4, d4)" by fastforce
  obtain n5 d5 where s5: "bng_lzb_step 0xC 2 (n4, d4) = (n5, d5)" by fastforce
  obtain n6 d6 where s6: "bng_lzb_step 2 1 (n5, d5) = (n6, d6)" by fastforce
  have res: "bng_leading_zero_bits d = n6 - unat d6"
    by (simp add: bng_leading_zero_bits_def BNG_BITS_PER_DIGIT_def s1 s2 s3 s4 s5 s6 del: One_nat_def)
  have m: "0xFFFFFFFF00000000 = push_bit 32 (mask 32 :: bngdigit)" "0xFFFF0000 = push_bit 16 (mask 16 :: bngdigit)"
    "0xFF00 = push_bit 8 (mask 8 :: bngdigit)" "0xF0 = push_bit 4 (mask 4 :: bngdigit)"
    "0xC = push_bit 2 (mask 2 :: bngdigit)" "2 = push_bit 1 (mask 1 :: bngdigit)"
    by (simp_all add: mask_eq_exp_minus_1 push_bit_eq_mult)
  note i1 = bng_lzb_step_correct [OF m(1) _ _ _ _ _ s1, where D = d]
  have d0: "unat d = unat d div 2 ^ (64 - 64)" "unat d < 2 ^ (2 * 32)" "unat d \<noteq> 0"
    using assms unat64 [of d] by (simp_all add: unat_eq_0)
  note i1 = bng_lzb_step_correct [OF m(1) _ _ d0(1) d0(2) d0(3) s1, simplified]
  have i1': "2 * 16 \<le> n1" "n1 \<le> 64" "unat d1 = unat d div 2 ^ (64 - n1)" "unat d1 < 2 ^ (2 * 16)" "unat d1 \<noteq> 0"
    using i1 by simp_all
  note i2 = bng_lzb_step_correct [OF m(2) i1' s2]
  have i2': "2 * 8 \<le> n2" "n2 \<le> 64" "unat d2 = unat d div 2 ^ (64 - n2)" "unat d2 < 2 ^ (2 * 8)" "unat d2 \<noteq> 0"
    using i2 by simp_all
  note i3 = bng_lzb_step_correct [OF m(3) i2' s3]
  have i3': "2 * 4 \<le> n3" "n3 \<le> 64" "unat d3 = unat d div 2 ^ (64 - n3)" "unat d3 < 2 ^ (2 * 4)" "unat d3 \<noteq> 0"
    using i3 by simp_all
  note i4 = bng_lzb_step_correct [OF m(4) i3' s4]
  have i4': "2 * 2 \<le> n4" "n4 \<le> 64" "unat d4 = unat d div 2 ^ (64 - n4)" "unat d4 < 2 ^ (2 * 2)" "unat d4 \<noteq> 0"
    using i4 by simp_all
  note i5 = bng_lzb_step_correct [OF m(5) i4' s5]
  have i5': "2 * 1 \<le> n5" "n5 \<le> 64" "unat d5 = unat d div 2 ^ (64 - n5)" "unat d5 < 2 ^ (2 * 1)" "unat d5 \<noteq> 0"
    using i5 by simp_all
  note i6 = bng_lzb_step_correct [OF m(6) i5' s6]
  have d6: "unat d6 = 1" using i6 by simp
  then have q: "unat d div 2 ^ (64 - n6) = 1" using i6(3) by simp
  then have b: "2 ^ (64 - n6) \<le> unat d" "unat d < 2 * 2 ^ (64 - n6)"
    using div_times_less_eq_dividend [of "unat d" "2 ^ (64 - n6)"]
      dividend_less_div_times [of "2 ^ (64 - n6)" "unat d"] by simp_all
  have p: "(2::nat) ^ 63 = 2 ^ (64 - n6) * 2 ^ (n6 - 1)" "(2::nat) ^ 64 = 2 * 2 ^ (64 - n6) * 2 ^ (n6 - 1)"
    using i6(1,2) by (simp_all flip: power_add power_Suc)
  show "bng_leading_zero_bits d < 64" using res d6 i6(1,2) by simp
  show "2 ^ 63 \<le> unat d * 2 ^ bng_leading_zero_bits d"
    unfolding res d6 p(1) using b(1) by (rule mult_le_mono1)
  show "unat d * 2 ^ bng_leading_zero_bits d < 2 ^ 64"
    unfolding res d6 p(2) using b(2) by simp
qed

section \<open>The contract of the operation table\<close>

locale bng_contract =
  fixes ops :: "('z) bng_primitives_scheme"
  assumes add_carry_law:
    "ci \<le> 1 \<Longrightarrow> add_carry ops m a alen ci = (m', c) \<Longrightarrow>
     c \<le> 1 \<and> bng_frame m m' a alen
     \<and> bng_val m' a alen + bng_base ^ alen * unat c = bng_val m a alen + unat ci"
  and add_law:
    "blen \<le> alen \<Longrightarrow> bng_disjoint a alen b blen \<or> a = b \<Longrightarrow> ci \<le> 1 \<Longrightarrow> add ops m a alen b blen ci = (m', c) \<Longrightarrow>
     c \<le> 1 \<and> bng_frame m m' a alen
     \<and> bng_val m' a alen + bng_base ^ alen * unat c = bng_val m a alen + bng_val m b blen + unat ci"
  and sub_carry_law:
    "ci \<le> 1 \<Longrightarrow> sub_carry ops m a alen ci = (m', c) \<Longrightarrow>
     c \<le> 1 \<and> bng_frame m m' a alen
     \<and> bng_val m' a alen + unat ci = bng_val m a alen + bng_base ^ alen * unat c"
  and sub_law:
    "blen \<le> alen \<Longrightarrow> bng_disjoint a alen b blen \<or> a = b \<Longrightarrow> ci \<le> 1 \<Longrightarrow> sub ops m a alen b blen ci = (m', c) \<Longrightarrow>
     c \<le> 1 \<and> bng_frame m m' a alen
     \<and> bng_val m' a alen + bng_val m b blen + unat ci = bng_val m a alen + bng_base ^ alen * unat c"
  and shift_left_law:
    "s < 64 \<Longrightarrow> shift_left ops m a alen s = (m', out) \<Longrightarrow>
     bng_frame m m' a alen \<and> unat out < 2 ^ s
     \<and> bng_val m' a alen + bng_base ^ alen * unat out = bng_val m a alen * 2 ^ s"
  and shift_right_law:
    "s < 64 \<Longrightarrow> shift_right ops m a alen s = (m', out) \<Longrightarrow>
     bng_frame m m' a alen \<and> (\<exists>k < 2 ^ s. unat out = k * 2 ^ (64 - s)
     \<and> bng_val m' a alen * 2 ^ s + k = bng_val m a alen)"
  and mult_add_digit_law:
    "blen \<le> alen \<Longrightarrow> bng_disjoint a alen b blen \<Longrightarrow> mult_add_digit ops m a alen b blen d = (m', out) \<Longrightarrow>
     bng_frame m m' a alen \<and> (blen < alen \<longrightarrow> out \<le> 1)
     \<and> bng_val m' a alen + bng_base ^ alen * unat out = bng_val m a alen + unat d * bng_val m b blen"
  and mult_sub_digit_law:
    "blen \<le> alen \<Longrightarrow> bng_disjoint a alen b blen \<Longrightarrow> mult_sub_digit ops m a alen b blen d = (m', out) \<Longrightarrow>
     bng_frame m m' a alen \<and> (blen < alen \<longrightarrow> out \<le> 1)
     \<and> bng_val m' a alen + unat d * bng_val m b blen = bng_val m a alen + bng_base ^ alen * unat out"
  and div_rem_norm_digit_law:
    "0 < len \<Longrightarrow> m (b + (len - 1)) < d \<Longrightarrow> 2 ^ 63 \<le> unat d \<Longrightarrow> b \<le> a \<or> a + (len - 1) \<le> b \<Longrightarrow>
     \<exists>m' r. div_rem_norm_digit ops m a b len d = Some (m', r) \<and> r < d \<and> bng_frame m m' a (len - 1)
     \<and> bng_val m b len = bng_val m' a (len - 1) * unat d + unat r"

lemma bng_carry_join:
  assumes "bng_frame m m1 a n" and lo: "bng_val m1 a n + bng_base ^ n * c1 = bng_val m a n + x"
    and "bng_frame m1 m' (a + n) k" and hi: "bng_val m' (a + n) k + bng_base ^ k * c = bng_val m1 (a + n) k + c1"
  shows "bng_frame m m' a (n + k)"
    and "bng_val m' a (n + k) + bng_base ^ (n + k) * c = bng_val m a (n + k) + x"
proof -
  show "bng_frame m m' a (n + k)" by (rule bng_frame_trans [OF assms(1,3)]) auto
  have same: "bng_val m' a n = bng_val m1 a n" "bng_val m1 (a + n) k = bng_val m (a + n) k"
    using bng_frame_val [OF assms(3), of a n] bng_frame_val [OF assms(1), of "a + n" k] by simp_all
  have "bng_val m' a (n + k) + bng_base ^ (n + k) * c
      = bng_val m1 a n + bng_base ^ n * (bng_val m' (a + n) k + bng_base ^ k * c)"
    unfolding bng_val_append same by (simp only: power_add distrib_left ac_simps)
  also have "\<dots> = (bng_val m1 a n + bng_base ^ n * c1) + bng_base ^ n * bng_val m (a + n) k"
    unfolding hi same by (simp only: distrib_left ac_simps)
  also have "\<dots> = bng_val m a (n + k) + x"
    unfolding lo bng_val_append by (simp only: ac_simps)
  finally show "bng_val m' a (n + k) + bng_base ^ (n + k) * c = bng_val m a (n + k) + x" .
qed

lemma bng_borrow_join:
  assumes "bng_frame m m1 a n" and lo: "bng_val m1 a n + x = bng_val m a n + bng_base ^ n * c1"
    and "bng_frame m1 m' (a + n) k" and hi: "bng_val m' (a + n) k + c1 = bng_val m1 (a + n) k + bng_base ^ k * c"
  shows "bng_frame m m' a (n + k)"
    and "bng_val m' a (n + k) + x = bng_val m a (n + k) + bng_base ^ (n + k) * c"
proof -
  show "bng_frame m m' a (n + k)" by (rule bng_frame_trans [OF assms(1,3)]) auto
  have same: "bng_val m' a n = bng_val m1 a n" "bng_val m1 (a + n) k = bng_val m (a + n) k"
    using bng_frame_val [OF assms(3), of a n] bng_frame_val [OF assms(1), of "a + n" k] by simp_all
  have "bng_val m' a (n + k) + x = (bng_val m1 a n + x) + bng_base ^ n * bng_val m' (a + n) k"
    unfolding bng_val_append same by (simp only: ac_simps)
  also have "\<dots> = bng_val m a n + bng_base ^ n * (bng_val m' (a + n) k + c1)"
    unfolding lo by (simp only: distrib_left ac_simps)
  also have "\<dots> = bng_val m a (n + k) + bng_base ^ (n + k) * c"
    unfolding hi same bng_val_append by (simp only: power_add distrib_left ac_simps)
  finally show "bng_val m' a (n + k) + x = bng_val m a (n + k) + bng_base ^ (n + k) * c" .
qed

lemma bng_generic_add_carry_correct:
  "ci \<le> 1 \<Longrightarrow> bng_generic_add_carry m a alen ci = (m', c) \<Longrightarrow>
     c \<le> 1 \<and> bng_frame m m' a alen
     \<and> bng_val m' a alen + bng_base ^ alen * unat c = bng_val m a alen + unat ci"
  using carry_cases [of ci] bng_incr_loop_correct [of m a alen m' c]
  by (auto simp: bng_generic_add_carry_def split: if_splits)

lemma bng_generic_sub_carry_correct:
  "ci \<le> 1 \<Longrightarrow> bng_generic_sub_carry m a alen ci = (m', c) \<Longrightarrow>
     c \<le> 1 \<and> bng_frame m m' a alen
     \<and> bng_val m' a alen + unat ci = bng_val m a alen + bng_base ^ alen * unat c"
  using carry_cases [of ci] bng_decr_loop_correct [of m a alen m' c]
  by (auto simp: bng_generic_sub_carry_def split: if_splits)

lemma bng_generic_add_correct:
  assumes len: "blen \<le> alen" and dj: "bng_disjoint a alen b blen \<or> a = b" and ci: "ci \<le> 1"
    and call: "bng_generic_add m a alen b blen ci = (m', c)"
  shows "c \<le> 1 \<and> bng_frame m m' a alen
     \<and> bng_val m' a alen + bng_base ^ alen * unat c = bng_val m a alen + bng_val m b blen + unat ci"
proof -
  obtain m1 c1 where l: "bng_add_loop m a b blen ci = (m1, c1)" by fastforce
  have dj': "a \<le> b \<or> b + blen \<le> a" using dj by auto
  obtain k where k: "alen = blen + k" using len le_Suc_ex by blast
  from bng_add_loop_correct [OF l ci dj'] have p: "c1 \<le> 1" "bng_frame m m1 a blen"
    "bng_val m1 a blen + bng_base ^ blen * unat c1 = bng_val m a blen + (bng_val m b blen + unat ci)" by auto
  have l2: "bng_generic_add_carry m1 (a + blen) k c1 = (m', c)"
    using call l by (auto simp: bng_generic_add_def bng_generic_add_carry_def k split: if_splits)
  from bng_generic_add_carry_correct [OF p(1) l2] have q: "c \<le> 1" "bng_frame m1 m' (a + blen) k"
    "bng_val m' (a + blen) k + bng_base ^ k * unat c = bng_val m1 (a + blen) k + unat c1" by auto
  show ?thesis using bng_carry_join [OF p(2,3) q(2,3)] q(1) k by (simp add: add.assoc)
qed

lemma bng_generic_sub_correct:
  assumes len: "blen \<le> alen" and dj: "bng_disjoint a alen b blen \<or> a = b" and ci: "ci \<le> 1"
    and call: "bng_generic_sub m a alen b blen ci = (m', c)"
  shows "c \<le> 1 \<and> bng_frame m m' a alen
     \<and> bng_val m' a alen + bng_val m b blen + unat ci = bng_val m a alen + bng_base ^ alen * unat c"
proof -
  obtain m1 c1 where l: "bng_sub_loop m a b blen ci = (m1, c1)" by fastforce
  have dj': "a \<le> b \<or> b + blen \<le> a" using dj by auto
  obtain k where k: "alen = blen + k" using len le_Suc_ex by blast
  from bng_sub_loop_correct [OF l ci dj'] have p: "c1 \<le> 1" "bng_frame m m1 a blen"
    "bng_val m1 a blen + (bng_val m b blen + unat ci) = bng_val m a blen + bng_base ^ blen * unat c1" by auto
  have l2: "bng_generic_sub_carry m1 (a + blen) k c1 = (m', c)"
    using call l by (auto simp: bng_generic_sub_def bng_generic_sub_carry_def k split: if_splits)
  from bng_generic_sub_carry_correct [OF p(1) l2] have q: "c \<le> 1" "bng_frame m1 m' (a + blen) k"
    "bng_val m' (a + blen) k + unat c1 = bng_val m1 (a + blen) k + bng_base ^ k * unat c" by auto
  show ?thesis using bng_borrow_join [OF p(2,3) q(2,3)] q(1) k by (simp add: add.assoc)
qed

lemma bng_generic_shift_left_correct:
  "s < 64 \<Longrightarrow> bng_generic_shift_left m a alen s = (m', out) \<Longrightarrow>
     bng_frame m m' a alen \<and> unat out < 2 ^ s
     \<and> bng_val m' a alen + bng_base ^ alen * unat out = bng_val m a alen * 2 ^ s"
  using bng_shift_left_loop_correct [of m a alen s 0 m' out]
  by (auto simp: bng_generic_shift_left_def BNG_BITS_PER_DIGIT_def split: if_splits)

lemma bng_generic_shift_right_correct:
  "s < 64 \<Longrightarrow> bng_generic_shift_right m a alen s = (m', out) \<Longrightarrow>
     bng_frame m m' a alen \<and> (\<exists>k < 2 ^ s. unat out = k * 2 ^ (64 - s)
     \<and> bng_val m' a alen * 2 ^ s + k = bng_val m a alen)"
  using bng_shift_right_loop_correct [of m a alen s 0 m' out 0]
  by (auto simp: bng_generic_shift_right_def BNG_BITS_PER_DIGIT_def split: if_splits)

lemma unat_ucast_carry: "(c :: bngcarry) \<le> 1 \<Longrightarrow> unat (ucast c :: bngdigit) = unat c \<and> (ucast c :: bngdigit) \<le> 1"
  using carry_cases [of c] by auto

lemma bng_add_digit_tail:
  assumes r: "BngAdd2 (m a) d = (r, c1)" and l: "bng_generic_add_carry (m(a := r)) (Suc a) k c1 = (m', c)"
  shows "c \<le> 1" and "bng_frame m m' a (Suc k)"
    and "bng_val m' a (Suc k) + bng_base ^ Suc k * unat c = bng_val m a (Suc k) + unat d"
proof -
  have a2: "c1 \<le> 1" "bng_val (m(a := r)) a 1 + bng_base ^ 1 * unat c1 = bng_val m a 1 + unat d"
    using digit_val(1) [OF r] by auto
  have f: "bng_frame m (m(a := r)) a 1" by simp
  from bng_generic_add_carry_correct [OF a2(1) l] have q: "c \<le> 1" "bng_frame (m(a := r)) m' (a + 1) k"
    "bng_val m' (a + 1) k + bng_base ^ k * unat c = bng_val (m(a := r)) (a + 1) k + unat c1"
    by (simp_all only: Suc_eq_plus1)
  show "c \<le> 1" by (rule q(1))
  show "bng_frame m m' a (Suc k)"
    "bng_val m' a (Suc k) + bng_base ^ Suc k * unat c = bng_val m a (Suc k) + unat d"
    using bng_carry_join [OF f a2(2) q(2,3)] by (simp_all only: plus_1_eq_Suc)
qed

lemma bng_sub_digit_tail:
  assumes r: "BngSub2 (m a) d = (r, c1)" and l: "bng_generic_sub_carry (m(a := r)) (Suc a) k c1 = (m', c)"
  shows "c \<le> 1" and "bng_frame m m' a (Suc k)"
    and "bng_val m' a (Suc k) + unat d = bng_val m a (Suc k) + bng_base ^ Suc k * unat c"
proof -
  have a2: "c1 \<le> 1" "bng_val (m(a := r)) a 1 + unat d = bng_val m a 1 + bng_base ^ 1 * unat c1"
    using digit_val(4) [OF r] by auto
  have f: "bng_frame m (m(a := r)) a 1" by simp
  from bng_generic_sub_carry_correct [OF a2(1) l] have q: "c \<le> 1" "bng_frame (m(a := r)) m' (a + 1) k"
    "bng_val m' (a + 1) k + unat c1 = bng_val (m(a := r)) (a + 1) k + bng_base ^ k * unat c"
    by (simp_all only: Suc_eq_plus1)
  show "c \<le> 1" by (rule q(1))
  show "bng_frame m m' a (Suc k)"
    "bng_val m' a (Suc k) + unat d = bng_val m a (Suc k) + bng_base ^ Suc k * unat c"
    using bng_borrow_join [OF f a2(2) q(2,3)] by (simp_all only: plus_1_eq_Suc)
qed

lemma bng_generic_mult_add_digit_correct:
  assumes len: "blen \<le> alen" and dj: "bng_disjoint a alen b blen"
    and call: "bng_generic_mult_add_digit m a alen b blen d = (m', out)"
  shows "bng_frame m m' a alen \<and> (blen < alen \<longrightarrow> out \<le> 1)
     \<and> bng_val m' a alen + bng_base ^ alen * unat out = bng_val m a alen + unat d * bng_val m b blen"
proof -
  obtain m1 o1 where l: "bng_mult_add_digit_loop m a b blen d 0 = (m1, o1)" by fastforce
  have dj': "a \<le> b \<or> b + blen \<le> a" using dj by auto
  from bng_mult_add_digit_loop_correct [OF l dj'] have p: "bng_frame m m1 a blen"
    "bng_val m1 a blen + bng_base ^ blen * unat o1 = bng_val m a blen + unat d * bng_val m b blen" by auto
  consider "blen = alen" | k where "alen = blen + Suc k"
    using len less_imp_Suc_add [of blen alen] by (auto simp: le_less)
  then show ?thesis
  proof cases
    case 1
    then show ?thesis using p call l by (simp add: bng_generic_mult_add_digit_def)
  next
    case 2
    obtain r c1 where r: "BngAdd2 (m1 (a + blen)) o1 = (r, c1)" by fastforce
    obtain m3 c3 where l2: "bng_generic_add_carry (m1(a + blen := r)) (Suc (a + blen)) k c1 = (m3, c3)" by fastforce
    have e: "m' = m3" "out = ucast c3" using call l l2 r
      by (auto simp: bng_generic_mult_add_digit_def bng_generic_add_carry_def 2 split: if_splits)
    note tail = bng_add_digit_tail [OF r l2]
    show ?thesis using bng_carry_join [OF p tail(2,3)] unat_ucast_carry [OF tail(1)]
      by (simp only: e 2 simp_thms)
  qed
qed

lemma bng_generic_mult_sub_digit_correct:
  assumes len: "blen \<le> alen" and dj: "bng_disjoint a alen b blen"
    and call: "bng_generic_mult_sub_digit m a alen b blen d = (m', out)"
  shows "bng_frame m m' a alen \<and> (blen < alen \<longrightarrow> out \<le> 1)
     \<and> bng_val m' a alen + unat d * bng_val m b blen = bng_val m a alen + bng_base ^ alen * unat out"
proof -
  obtain m1 o1 where l: "bng_mult_sub_digit_loop m a b blen d 0 = (m1, o1)" by fastforce
  have dj': "a \<le> b \<or> b + blen \<le> a" using dj by auto
  from bng_mult_sub_digit_loop_correct [OF l dj'] have p: "bng_frame m m1 a blen"
    "bng_val m1 a blen + unat d * bng_val m b blen = bng_val m a blen + bng_base ^ blen * unat o1" by auto
  consider "blen = alen" | k where "alen = blen + Suc k"
    using len less_imp_Suc_add [of blen alen] by (auto simp: le_less)
  then show ?thesis
  proof cases
    case 1
    then show ?thesis using p call l by (simp add: bng_generic_mult_sub_digit_def)
  next
    case 2
    obtain r c1 where r: "BngSub2 (m1 (a + blen)) o1 = (r, c1)" by fastforce
    obtain m3 c3 where l2: "bng_generic_sub_carry (m1(a + blen := r)) (Suc (a + blen)) k c1 = (m3, c3)" by fastforce
    have e: "m' = m3" "out = ucast c3" using call l l2 r
      by (auto simp: bng_generic_mult_sub_digit_def bng_generic_sub_carry_def 2 split: if_splits)
    note tail = bng_sub_digit_tail [OF r l2]
    show ?thesis using bng_borrow_join [OF p tail(2,3)] unat_ucast_carry [OF tail(1)]
      by (simp only: e 2 simp_thms)
  qed
qed

lemma bng_generic_div_rem_norm_digit_correct:
  assumes "0 < len" and "m (b + (len - 1)) < d" and "b \<le> a \<or> a + (len - 1) \<le> b"
  shows "\<exists>m' r. bng_generic_div_rem_norm_digit m a b len d = Some (m', r) \<and> r < d \<and> bng_frame m m' a (len - 1)
     \<and> bng_val m b len = bng_val m' a (len - 1) * unat d + unat r"
  using bng_div_rem_norm_digit_loop_correct [OF assms(2,3), of m] bng_val_top [of m b "len - 1"] assms(1)
  by (simp add: bng_generic_div_rem_norm_digit_def add.commute)

interpretation generic: bng_contract bng_prim
  apply unfold_locales
          apply (unfold bng_prim_def bng_primitives.simps)
          apply (erule (1) bng_generic_add_carry_correct)
         apply (erule (3) bng_generic_add_correct)
        apply (erule (1) bng_generic_sub_carry_correct)
       apply (erule (3) bng_generic_sub_correct)
      apply (erule (1) bng_generic_shift_left_correct)
     apply (erule (1) bng_generic_shift_right_correct)
    apply (erule (2) bng_generic_mult_add_digit_correct)
   apply (erule (2) bng_generic_mult_sub_digit_correct)
  apply (erule (2) bng_generic_div_rem_norm_digit_correct)
  done

end
