(* ===== verification/Bng_Long.thy ===== *)
theory Bng_Long
  imports Bng
begin

text \<open>
  Multiplication, squaring and long division of \<open>otherlibs/num/bng.c\<close>: the laws of the
  routines that call other entries of the operation table, proved in the locale
  \<open>bng_contract\<close>, and the properties of the table \<open>bng_ops\<close> that the library installs.
\<close>

section \<open>Multiplication and squaring\<close>

fun bng_cross :: "bng_mem \<Rightarrow> nat \<Rightarrow> nat \<Rightarrow> nat" where
  "bng_cross m b 0 = 0"
| "bng_cross m b (Suc n) = bng_base * unat (m b) * bng_val m (Suc b) n + bng_base ^ 2 * bng_cross m (Suc b) n"

fun bng_squares :: "bng_mem \<Rightarrow> nat \<Rightarrow> nat \<Rightarrow> nat" where
  "bng_squares m b 0 = 0"
| "bng_squares m b (Suc n) = unat (m b) ^ 2 + bng_base ^ 2 * bng_squares m (Suc b) n"

lemma bng_square_split: "2 * bng_cross m b n + bng_squares m b n = bng_val m b n ^ 2"
proof (induction n arbitrary: b)
  case (Suc n)
  have "2 * bng_cross m b (Suc n) + bng_squares m b (Suc n)
      = 2 * bng_base * unat (m b) * bng_val m (Suc b) n + unat (m b) ^ 2
        + bng_base ^ 2 * (2 * bng_cross m (Suc b) n + bng_squares m (Suc b) n)"
    by (simp add: algebra_simps)
  also have "\<dots> = bng_val m b (Suc n) ^ 2"
    unfolding Suc.IH by (simp add: power2_eq_square algebra_simps)
  finally show ?case .
qed simp

lemma bng_cross_cong: "(\<And>i. i < n \<Longrightarrow> m' (b + i) = m (b + i)) \<Longrightarrow> bng_cross m' b n = bng_cross m b n"
proof (induction n arbitrary: b)
  case (Suc n)
  have *: "m' (Suc b + i) = m (Suc b + i)" if "i < n" for i
    using Suc.prems [of "Suc i"] that by simp
  from Suc.IH [OF *] bng_val_cong [of n m' "Suc b" m, OF *] Suc.prems [of 0] show ?case by simp
qed simp

lemma bng_squares_cong: "(\<And>i. i < n \<Longrightarrow> m' (b + i) = m (b + i)) \<Longrightarrow> bng_squares m' b n = bng_squares m b n"
proof (induction n arbitrary: b)
  case (Suc n)
  have *: "m' (Suc b + i) = m (Suc b + i)" if "i < n" for i
    using Suc.prems [of "Suc i"] that by simp
  from Suc.IH [OF *] Suc.prems [of 0] show ?case by simp
qed simp

lemma bng_carry_join':
  assumes f: "bng_frame m m1 a n" and lo: "bng_val m1 a n + bng_base ^ n * c1 = bng_val m a n + x"
    and f': "bng_frame m1 m' (a + n) k"
    and hi: "bng_val m' (a + n) k + bng_base ^ k * c = bng_val m1 (a + n) k + y + c1"
  shows "bng_frame m m' a (n + k)"
    and "bng_val m' a (n + k) + bng_base ^ (n + k) * c = bng_val m a (n + k) + x + bng_base ^ n * y"
proof -
  have lo': "bng_val m1 a n + bng_base ^ n * (y + c1) = bng_val m a n + (x + bng_base ^ n * y)"
    using lo by (simp add: algebra_simps)
  show "bng_frame m m' a (n + k)"
    "bng_val m' a (n + k) + bng_base ^ (n + k) * c = bng_val m a (n + k) + x + bng_base ^ n * y"
    using bng_carry_join [OF f lo' f'] hi by (simp_all add: add.assoc)
qed

lemma bng_square_digits_correct:
  "bng_square_digits m a b n ci = (m', c) \<Longrightarrow> ci \<le> 1 \<Longrightarrow> bng_disjoint a (2 * n) b n \<Longrightarrow>
   c \<le> 1 \<and> bng_frame m m' a (2 * n)
   \<and> bng_val m' a (2 * n) + bng_base ^ (2 * n) * unat c = bng_val m a (2 * n) + bng_squares m b n + unat ci"
proof (induction n arbitrary: m a b ci)
  case (Suc n)
  obtain ph pl where p: "BngMult (m b) (m b) = (ph, pl)" by fastforce
  obtain r1 c1 where r1: "BngAdd2Carry (m a) pl ci = (r1, c1)" by fastforce
  obtain r2 c2 where r2: "BngAdd2Carry (m (Suc a)) ph c1 = (r2, c2)" by fastforce
  let ?m = "m(a := r1, Suc a := r2)"
  have call: "bng_square_digits ?m (a + 2) (Suc b) n c2 = (m', c)"
    using Suc.prems(1) p r1 r2 by (simp add: numeral_2_eq_2)
  from digit_val(2) [OF r1 Suc.prems(2)] have d1: "unat r1 + bng_base * unat c1 = unat (m a) + unat pl + unat ci" "c1 \<le> 1" by auto
  from digit_val(2) [OF r2 d1(2)] have d2: "unat r2 + bng_base * unat c2 = unat (m (Suc a)) + unat ph + unat c1" "c2 \<le> 1" by auto
  have dj: "bng_disjoint (a + 2) (2 * n) (Suc b) n" using Suc.prems(3) by auto
  have same: "bng_squares ?m (Suc b) n = bng_squares m (Suc b) n"
    by (rule bng_squares_cong) (use Suc.prems(3) in auto)
  have f: "bng_frame m ?m a 2" by (auto simp: bng_frame_def)
  have sq: "unat r1 + bng_base * unat r2 + bng_base ^ 2 * unat c2
      = unat (m a) + bng_base * unat (m (Suc a)) + unat (m b) ^ 2 + unat ci"
  proof -
    have "unat r1 + bng_base * unat r2 + bng_base ^ 2 * unat c2 = unat r1 + bng_base * (unat r2 + bng_base * unat c2)"
      by (simp add: power2_eq_square algebra_simps)
    also have "\<dots> = (unat r1 + bng_base * unat c1) + bng_base * unat (m (Suc a)) + bng_base * unat ph"
      unfolding d2(1) by (simp add: algebra_simps)
    also have "\<dots> = unat (m a) + bng_base * unat (m (Suc a)) + (bng_base * unat ph + unat pl) + unat ci"
      unfolding d1(1) by simp
    finally show ?thesis unfolding digit_val(7) [OF p] by (simp add: power2_eq_square)
  qed
  have lo: "bng_val ?m a 2 + bng_base ^ 2 * unat c2 = bng_val m a 2 + (unat (m b) ^ 2 + unat ci)"
    using sq by (simp add: numeral_2_eq_2)
  from Suc.IH [OF call d2(2) dj] have ih: "c \<le> 1" "bng_frame ?m m' (a + 2) (2 * n)"
    and v: "bng_val m' (a + 2) (2 * n) + bng_base ^ (2 * n) * unat c
      = bng_val ?m (a + 2) (2 * n) + bng_squares ?m (Suc b) n + unat c2" by blast+
  show ?case using bng_carry_join' [OF f lo ih(2) v [unfolded same]] ih(1) by (simp add: algebra_simps)
qed auto

context bng_contract
begin

lemma mult_add_loop_law:
  "bng_mult_add_loop ops m a alen b blen c clen carry = (m', carry') \<Longrightarrow> blen + clen \<le> alen \<Longrightarrow>
   bng_disjoint a alen b blen \<Longrightarrow> bng_disjoint a alen c clen \<Longrightarrow>
   bng_frame m m' a alen \<and> (\<exists>k. carry' = carry + of_nat k
   \<and> bng_val m' a alen + bng_base ^ alen * k = bng_val m a alen + bng_val m b blen * bng_val m c clen)"
proof (induction clen arbitrary: m a alen c carry)
  case (Suc clen)
  obtain n where n: "alen = Suc n" using Suc.prems(2) by (cases alen) auto
  obtain m1 r where r: "mult_add_digit ops m a alen b blen (m c) = (m1, r)" by fastforce
  from mult_add_digit_law [OF _ Suc.prems(3) r] Suc.prems(2) have
    d: "bng_frame m m1 a alen"
       "bng_val m1 a alen + bng_base ^ alen * unat r = bng_val m a alen + unat (m c) * bng_val m b blen" by auto
  have call: "bng_mult_add_loop ops m1 (Suc a) n b blen (Suc c) clen (carry + ucast r) = (m', carry')"
    using Suc.prems(1) r n by simp
  have same: "bng_val m1 b blen = bng_val m b blen" "bng_val m1 (Suc c) clen = bng_val m (Suc c) clen"
    using bng_frame_val [OF d(1)] Suc.prems(3,4) by auto
  have "blen + clen \<le> n" "bng_disjoint (Suc a) n b blen" "bng_disjoint (Suc a) n (Suc c) clen"
    using Suc.prems(2-4) n by auto
  from Suc.IH [OF call this, unfolded same] obtain k where
    ih: "bng_frame m1 m' (Suc a) n" "carry' = carry + ucast r + of_nat k"
      "bng_val m' (Suc a) n + bng_base ^ n * k = bng_val m1 (Suc a) n + bng_val m b blen * bng_val m (Suc c) clen" by blast
  have "m' a = m1 a" using bng_frame_at [OF ih(1), of a] by simp
  then have "bng_val m' a alen + bng_base ^ alen * (k + unat r)
      = unat (m1 a) + bng_base * (bng_val m' (Suc a) n + bng_base ^ n * k) + bng_base ^ alen * unat r"
    by (simp add: n algebra_simps)
  also have "\<dots> = (bng_val m1 a alen + bng_base ^ alen * unat r) + bng_base * bng_val m b blen * bng_val m (Suc c) clen"
    unfolding ih(3) by (simp add: n algebra_simps)
  also have "\<dots> = bng_val m a alen + bng_val m b blen * bng_val m c (Suc clen)"
    unfolding d(2) by (simp add: algebra_simps)
  finally have "bng_val m' a alen + bng_base ^ alen * (k + unat r)
      = bng_val m a alen + bng_val m b blen * bng_val m c (Suc clen)" .
  moreover have "carry' = carry + of_nat (k + unat r)" using ih(2) by (simp add: of_nat_unat ac_simps)
  moreover have "bng_frame m m' a alen" by (rule bng_frame_trans [OF d(1) ih(1)]) (auto simp: n)
  ultimately show ?case by blast
next
  case 0
  then show ?case by (auto intro!: exI [of _ 0])
qed

lemma product_less:
  "b < bng_base ^ n \<Longrightarrow> c < bng_base ^ k \<Longrightarrow> n + k \<le> l \<Longrightarrow> b * c < bng_base ^ l"
proof -
  assume "b < bng_base ^ n" "c < bng_base ^ k" "n + k \<le> l"
  then have "b * c < bng_base ^ n * bng_base ^ k" by (intro mult_strict_mono) auto
  also have "\<dots> \<le> bng_base ^ l" unfolding power_add [symmetric]
    using \<open>n + k \<le> l\<close> by (intro power_increasing) (auto simp: Suc_le_eq)
  finally show ?thesis .
qed

lemma mult_add_law:
  assumes "blen + clen \<le> alen" "bng_disjoint a alen b blen" "bng_disjoint a alen c clen"
    and "bng_generic_mult_add ops m a alen b blen c clen = (m', out)"
  shows "out \<le> 1 \<and> bng_frame m m' a alen
     \<and> bng_val m' a alen + bng_base ^ alen * unat out = bng_val m a alen + bng_val m b blen * bng_val m c clen"
proof -
  from mult_add_loop_law [OF assms(4)[unfolded bng_generic_mult_add_def] assms(1-3)] obtain k where
    k: "bng_frame m m' a alen" "out = of_nat k"
       "bng_val m' a alen + bng_base ^ alen * k = bng_val m a alen + bng_val m b blen * bng_val m c clen" by auto
  have "bng_base ^ alen * k < bng_base ^ alen * 2"
    using k(3) bng_val_less [of m a alen] product_less [OF bng_val_less bng_val_less assms(1), of m b m c] by linarith
  then have "k < 2" by simp
  then have "k = 0 \<or> k = 1" by auto
  then show ?thesis using k by auto
qed

end

lemma square_carry:
  assumes "k < 2" and "unat (out :: bngdigit) < 2" and "c2 \<le> 1"
  shows "unat (ucast (ucast (push_bit 1 (of_nat k :: bngcarry)) OR out) + (c2 :: bngcarry)) = 2 * k + unat out + unat c2"
proof -
  have "unat out = 0 \<or> unat out = unat (1 :: bngdigit)" using assms(2) by auto
  then have out: "out = 0 \<or> out = 1" by (simp only: word_unat_eq_iff unat_0)
  have "k = 0 \<or> k = 1" using assms(1) by auto
  with out carry_cases [OF assms(3)] show ?thesis by (elim disjE) simp_all
qed


lemma bng_square_products_stop: "blen \<le> i \<Longrightarrow> bng_square_products ops m a alen b blen i carry = (m, carry)"
  by (subst bng_square_products.simps) simp

lemma bng_square_products_step:
  assumes "mult_add_digit ops m (a + (2 * j + 1)) (alen - (2 * j + 1)) (b + Suc j) n (m (b + j)) = (m1, r)"
    and "blen = Suc j + n" and "0 < n"
  shows "bng_square_products ops m a alen b blen (Suc j) carry
       = bng_square_products ops m1 a alen b blen (Suc (Suc j)) (carry + ucast r)"
  using assms by (subst bng_square_products.simps) simp

context bng_contract
begin

lemma square_products_law:
  "bng_square_products ops m a alen b blen (Suc j) carry = (m', carry') \<Longrightarrow> blen = Suc j + n \<Longrightarrow>
   2 * blen \<le> alen \<Longrightarrow> bng_disjoint a alen b blen \<Longrightarrow>
   bng_frame m m' a alen \<and> (\<exists>k. carry' = carry + of_nat k \<and> bng_val m' a alen + bng_base ^ alen * k
     = bng_val m a alen + bng_base ^ (2 * j) * bng_cross m (b + j) (Suc n))"
proof (induction n arbitrary: m j carry)
  case 0
  then show ?case by (auto simp: bng_square_products_stop intro: exI [of _ 0])
next
  case (Suc n)
  define p where "p = 2 * j + 1"
  define l where "l = alen - p"
  have l: "alen = p + l" "Suc n < l" using Suc.prems(2,3) by (auto simp: p_def l_def)
  obtain m1 r where r: "mult_add_digit ops m (a + p) l (b + Suc j) (Suc n) (m (b + j)) = (m1, r)" by fastforce
  let ?x = "unat (m (b + j)) * bng_val m (b + Suc j) (Suc n)"
  have dj: "bng_disjoint (a + p) l (b + Suc j) (Suc n)" using Suc.prems(2,4) l by auto
  from mult_add_digit_law [OF _ dj r] l(2) have d: "bng_frame m m1 (a + p) l"
    "bng_val m1 (a + p) l + bng_base ^ l * unat r = bng_val m (a + p) l + ?x" by auto
  have v1: "bng_frame m m1 a alen"
    "bng_val m1 a alen + bng_base ^ alen * unat r = bng_val m a alen + bng_base ^ p * ?x"
    using bng_carry_join [OF bng_frame_refl refl d] l(1) by simp_all
  have call: "bng_square_products ops m1 a alen b blen (Suc (Suc j)) (carry + ucast r) = (m', carry')"
    using Suc.prems(1) bng_square_products_step [of ops m a j alen b "Suc n" m1 r blen carry] r Suc.prems(2)
    by (simp add: p_def l_def)
  have same: "bng_cross m1 (b + Suc j) (Suc n) = bng_cross m (b + Suc j) (Suc n)"
    by (rule bng_cross_cong) (use Suc.prems(2,4) in \<open>auto intro!: bng_frame_at [OF v1(1)]\<close>)
  from Suc.IH [OF call _ Suc.prems(3,4)] Suc.prems(2) obtain k where
    ih: "bng_frame m1 m' a alen" "carry' = carry + ucast r + of_nat k"
      "bng_val m' a alen + bng_base ^ alen * k
         = bng_val m1 a alen + bng_base ^ (2 * Suc j) * bng_cross m1 (b + Suc j) (Suc n)" by auto
  have "bng_val m' a alen + bng_base ^ alen * (k + unat r)
      = (bng_val m1 a alen + bng_base ^ alen * unat r) + bng_base ^ (2 * Suc j) * bng_cross m (b + Suc j) (Suc n)"
    using ih(3) unfolding same by (simp only: distrib_left ac_simps)
  also have "\<dots> = bng_val m a alen + bng_base ^ (2 * j) * bng_cross m (b + j) (Suc (Suc n))"
    unfolding v1(2) bng_cross.simps(2) [of m "b + j"]
    by (simp add: p_def power2_eq_square algebra_simps del: bng_cross.simps bng_val.simps)
  finally have "bng_val m' a alen + bng_base ^ alen * (k + unat r)
      = bng_val m a alen + bng_base ^ (2 * j) * bng_cross m (b + j) (Suc (Suc n))" .
  moreover have "carry' = carry + of_nat (k + unat r)" using ih(2) by (simp add: of_nat_unat ac_simps)
  moreover have "bng_frame m m' a alen" by (rule bng_frame_trans [OF v1(1) ih(1)]) auto
  ultimately show ?case by blast
qed

lemma square_products_top:
  assumes "bng_square_products ops m a alen b blen 1 0 = (m', carry)" "2 * blen \<le> alen" "bng_disjoint a alen b blen"
  shows "\<exists>k < 2. carry = of_nat k \<and> bng_frame m m' a alen
    \<and> bng_val m' a alen + bng_base ^ alen * k = bng_val m a alen + bng_cross m b blen"
proof -
  have "bng_frame m m' a alen \<and> (\<exists>k. carry = of_nat k \<and>
      bng_val m' a alen + bng_base ^ alen * k = bng_val m a alen + bng_cross m b blen)"
  proof (cases blen)
    case 0
    then show ?thesis using assms(1) by (auto simp: bng_square_products_stop intro: exI [of _ 0])
  next
    case (Suc n)
    with square_products_law [of m a alen b blen 0 0 m' carry n] assms show ?thesis by simp
  qed
  then obtain k where k: "carry = of_nat k" "bng_frame m m' a alen"
    "bng_val m' a alen + bng_base ^ alen * k = bng_val m a alen + bng_cross m b blen" by blast
  have "bng_val m b blen ^ 2 < bng_base ^ alen"
    using product_less [OF bng_val_less bng_val_less, of blen blen alen] assms(2) by (simp add: power2_eq_square)
  then have "bng_base ^ alen * k < bng_base ^ alen * 2"
    using k(3) bng_val_less [of m a alen] bng_square_split [of m b blen] by linarith
  then show ?thesis using k by auto
qed

lemma square_add_law:
  assumes len: "2 * blen \<le> alen" and dj: "bng_disjoint a alen b blen"
    and call: "bng_generic_square_add ops m a alen b blen = (m', out)"
  shows "unat out \<le> 2 \<and> bng_frame m m' a alen
     \<and> bng_val m' a alen + bng_base ^ alen * unat out = 2 * bng_val m a alen + bng_val m b blen ^ 2"
proof -
  obtain m1 c1 where s1: "bng_square_products ops m a alen b blen 1 0 = (m1, c1)" by fastforce
  obtain m2 o2 where s2: "shift_left ops m1 a alen 1 = (m2, o2)" by fastforce
  obtain m3 c3 where s3: "bng_square_digits m2 a b blen 0 = (m3, c3)" by fastforce
  obtain k where k: "alen = 2 * blen + k" using len le_Suc_ex by blast
  obtain m4 c4 where s4: "bng_generic_add_carry m3 (a + 2 * blen) k c3 = (m4, c4)" by fastforce
  have e: "m' = m4" "out = ucast (ucast (push_bit 1 c1) OR o2) + c4"
    using call s1 s2 s3 s4 by (auto simp: bng_generic_square_add_def bng_generic_add_carry_def k split: if_splits)
  from square_products_top [OF s1 len dj] obtain j where
    j: "j < 2" "c1 = of_nat j" "bng_frame m m1 a alen" "bng_val m1 a alen + bng_base ^ alen * j = bng_val m a alen + bng_cross m b blen"
    by blast
  from shift_left_law [OF _ s2] have sl: "bng_frame m1 m2 a alen" "unat o2 < 2"
    "bng_val m2 a alen + bng_base ^ alen * unat o2 = bng_val m1 a alen * 2" by auto
  have f2: "bng_frame m m2 a alen" by (rule bng_frame_trans [OF j(3) sl(1)]) auto
  have same: "bng_squares m2 b blen = bng_squares m b blen"
    by (rule bng_squares_cong) (use dj in \<open>auto intro!: bng_frame_at [OF f2]\<close>)
  from bng_square_digits_correct [OF s3] dj k have sd: "c3 \<le> 1" "bng_frame m2 m3 a (2 * blen)"
    "bng_val m3 a (2 * blen) + bng_base ^ (2 * blen) * unat c3 = bng_val m2 a (2 * blen) + bng_squares m b blen"
    unfolding same by auto
  from bng_generic_add_carry_correct [OF sd(1) s4] have ic: "c4 \<le> 1" "bng_frame m3 m4 (a + 2 * blen) k"
    "bng_val m4 (a + 2 * blen) k + bng_base ^ k * unat c4 = bng_val m3 (a + 2 * blen) k + unat c3" by auto
  from bng_carry_join [OF sd(2,3) ic(2,3)] have f4: "bng_frame m2 m4 a alen"
    and v4: "bng_val m4 a alen + bng_base ^ alen * unat c4 = bng_val m2 a alen + bng_squares m b blen"
    by (simp_all only: k)
  have out: "unat out = 2 * j + unat o2 + unat c4" unfolding e(2) j(2) by (rule square_carry [OF j(1) sl(2) ic(1)])
  have v: "bng_val m' a alen + bng_base ^ alen * unat out = 2 * bng_val m a alen + bng_val m b blen ^ 2"
    using v4 sl(3) j(4) bng_square_split [of m b blen] unfolding out e(1) distrib_left by linarith
  have "bng_val m b blen ^ 2 < bng_base ^ alen"
    using product_less [OF bng_val_less bng_val_less, of blen blen alen] len by (simp add: power2_eq_square)
  then have "bng_base ^ alen * unat out < bng_base ^ alen * 3"
    using v bng_val_less [of m a alen] by linarith
  moreover have "bng_frame m m' a alen" unfolding e(1) by (rule bng_frame_trans [OF f2 f4]) auto
  ultimately show ?thesis using v by auto
qed

end

section \<open>Division\<close>

lemma bng_val_inj: "bng_val m a n = bng_val m' a n \<Longrightarrow> i < n \<Longrightarrow> m' (a + i) = m (a + i)"
proof (induction n arbitrary: a i)
  case (Suc n)
  have "unat (m a) = bng_val m a (Suc n) mod bng_base" for m using unat_less_base [of "m a"] by simp
  then have "unat (m a) = unat (m' a)" using Suc.prems(1) by metis
  then have hd: "m' a = m a" and "bng_val m (Suc a) n = bng_val m' (Suc a) n"
    using Suc.prems(1) by (simp_all add: word_unat_eq_iff)
  then show ?case using Suc.IH [of "Suc a" "i - 1"] Suc.prems(2) by (cases i) auto
qed simp

lemma bng_top_less:
  assumes "0 < n"
  shows "unat (m (a + (n - 1))) < x \<longleftrightarrow> bng_val m a n < x * bng_base ^ (n - 1)"
proof -
  obtain k where k: "n = Suc k" using assms by (cases n) auto
  have "bng_val m a n div bng_base ^ k = unat (m (a + k))"
    unfolding k bng_val_top using bng_val_less [of m a k] by simp
  then have "unat (m (a + k)) < x \<longleftrightarrow> bng_val m a n < x * bng_base ^ k"
    using div_less_iff_less_mult [of "bng_base ^ k" "bng_val m a n" x] by simp
  then show ?thesis by (simp add: k)
qed

lemma denormalise:
  fixes v :: nat
  assumes "v * 2 ^ s = q * (d * 2 ^ s) + r" and "r < d * 2 ^ s"
  shows "\<exists>r'. r = r' * 2 ^ s \<and> r' < d \<and> v = q * d + r'"
proof -
  have "2 ^ s dvd r" using assms(1) by (metis dvd_add_right_iff dvd_triv_right mult.assoc)
  then obtain r' where r: "r = r' * 2 ^ s" by (metis dvd_def mult.commute)
  have "v * 2 ^ s = (q * d + r') * 2 ^ s" using assms(1) unfolding r by (simp add: algebra_simps)
  then show ?thesis using assms(2) r by auto
qed

lemma bng_frame_restored:
  assumes "bng_val m' b k = bng_val m b k"
    and "\<And>x. x < a \<or> a + n \<le> x \<Longrightarrow> x < b \<or> b + k \<le> x \<Longrightarrow> m' x = m x"
  shows "bng_frame m m' a n"
  unfolding bng_frame_def
proof (intro allI impI)
  fix x assume x: "x < a \<or> a + n \<le> x"
  show "m' x = m x"
  proof (cases "b \<le> x \<and> x < b + k")
    case True
    then have "x - b < k" by auto
    from bng_val_inj [OF assms(1)[symmetric] this] True show ?thesis by simp
  next
    case False
    then show ?thesis using assms(2) x by auto
  qed
qed

context bng_contract
begin

lemma shift_exact_law:
  assumes "s < 64" and "shift_left ops m b len s = (m1, out)" and "bng_val m b len * 2 ^ s < bng_base ^ len"
  shows "bng_frame m m1 b len" and "bng_val m1 b len = bng_val m b len * 2 ^ s"
proof -
  from shift_left_law [OF assms(1,2)] have l: "bng_frame m m1 b len"
    "bng_val m1 b len + bng_base ^ len * unat out = bng_val m b len * 2 ^ s" by auto
  then have "bng_base ^ len * unat out < bng_base ^ len * 1" using assms(3) by linarith
  then have "unat out = 0" by simp
  then show "bng_frame m m1 b len" "bng_val m1 b len = bng_val m b len * 2 ^ s" using l by simp_all
qed

lemma normalise_law:
  assumes len: "0 < len" and d: "d \<noteq> 0" and tp: "m (b + (len - 1)) < d"
    and s: "s = bng_leading_zero_bits d" and call: "shift_left ops m b len s = (m1, out)"
  shows "bng_frame m m1 b len" and "bng_val m1 b len = bng_val m b len * 2 ^ s"
    and "unat (push_bit s d) = unat d * 2 ^ s" and "2 ^ 63 \<le> unat (push_bit s d)"
    and "m1 (b + (len - 1)) < push_bit s d"
proof -
  note lz = bng_leading_zero_bits_correct [OF d, folded s]
  have tp': "bng_val m b len < unat d * bng_base ^ (len - 1)"
    using tp unfolding word_less_nat_alt by (rule bng_top_less [OF len, THEN iffD1])
  then have "bng_val m b len * 2 ^ s < unat d * bng_base ^ (len - 1) * 2 ^ s" by simp
  also have "\<dots> = unat d * 2 ^ s * bng_base ^ (len - 1)" by (simp only: ac_simps)
  also have "\<dots> < bng_base * bng_base ^ (len - 1)"
    using lz(3) by (simp add: bng_base_def)
  also have "\<dots> = bng_base ^ len" using len by (cases len) auto
  finally have fits: "bng_val m b len * 2 ^ s < bng_base ^ len" .
  show "bng_frame m m1 b len" and v: "bng_val m1 b len = bng_val m b len * 2 ^ s"
    by (rule shift_exact_law [OF lz(1) call fits])+
  show p: "unat (push_bit s d) = unat d * 2 ^ s" using lz(3) by (simp only: unat_push_bit len_num0) simp
  show "2 ^ 63 \<le> unat (push_bit s d)" unfolding p by (rule lz(2))
  have "bng_val m1 b len < unat d * 2 ^ s * bng_base ^ (len - 1)" unfolding v using tp' by (simp add: ac_simps)
  then show "m1 (b + (len - 1)) < push_bit s d"
    unfolding word_less_nat_alt p by (rule bng_top_less [OF len, THEN iffD2])
qed

lemma normalise_divisor_law:
  assumes len: "0 < len" and d: "m (b + (len - 1)) = d" "d \<noteq> 0"
    and s: "s = bng_leading_zero_bits d" and call: "shift_left ops m b len s = (m1, out)"
  shows "bng_frame m m1 b len" and "bng_val m1 b len = bng_val m b len * 2 ^ s"
    and "unat d * 2 ^ s \<le> unat (m1 (b + (len - 1)))"
proof -
  note lz = bng_leading_zero_bits_correct [OF d(2), folded s]
  have b: "(2 :: nat) ^ 64 = 2 ^ (64 - s) * 2 ^ s" using lz(1) by (simp flip: power_add)
  have "unat d < 2 ^ (64 - s)" using lz(3) unfolding b by simp
  then have "(unat d + 1) * 2 ^ s \<le> 2 ^ (64 - s) * 2 ^ s" by (intro mult_le_mono1) simp
  then have top: "(unat d + 1) * 2 ^ s \<le> bng_base" using b by (simp add: bng_base_def)
  have less: "bng_val m b len < (unat d + 1) * bng_base ^ (len - 1)"
    by (rule bng_top_less [OF len, THEN iffD1]) (simp only: d(1) less_add_one)
  then have "bng_val m b len * 2 ^ s < (unat d + 1) * bng_base ^ (len - 1) * 2 ^ s" by simp
  also have "\<dots> = (unat d + 1) * 2 ^ s * bng_base ^ (len - 1)" by (simp only: ac_simps)
  also have "\<dots> \<le> bng_base * bng_base ^ (len - 1)" using top by (rule mult_le_mono1)
  also have "\<dots> = bng_base ^ len" using len by (cases len) auto
  finally have fits: "bng_val m b len * 2 ^ s < bng_base ^ len" .
  show "bng_frame m m1 b len" and v: "bng_val m1 b len = bng_val m b len * 2 ^ s"
    by (rule shift_exact_law [OF lz(1) call fits])+
  have "\<not> bng_val m b len < unat d * bng_base ^ (len - 1)"
    using bng_top_less [OF len, of m b "unat d"] d(1) by simp
  then have "\<not> bng_val m1 b len < unat d * 2 ^ s * bng_base ^ (len - 1)"
    unfolding v by (simp add: ac_simps)
  then have "\<not> unat (m1 (b + (len - 1))) < unat d * 2 ^ s" using bng_top_less [OF len] by blast
  then show "unat d * 2 ^ s \<le> unat (m1 (b + (len - 1)))" by simp
qed

lemma restore_law:
  assumes "s < 64" and "shift_right ops m b len s = (m1, out)" and "bng_val m b len = v * 2 ^ s"
  shows "bng_frame m m1 b len" and "bng_val m1 b len = v"
proof -
  from shift_right_law [OF assms(1,2)] obtain k where k: "bng_frame m m1 b len" "k < 2 ^ s"
    "bng_val m1 b len * 2 ^ s + k = v * 2 ^ s" unfolding assms(3) by auto
  have "(bng_val m1 b len * 2 ^ s + k) div 2 ^ s = bng_val m1 b len" using k(2) by simp
  then show "bng_val m1 b len = v" unfolding k(3) by simp
  show "bng_frame m m1 b len" by (rule k(1))
qed

lemma div_rem_digit_law:
  assumes len: "0 < len" and tp: "m (b + (len - 1)) < d" and dj: "bng_disjoint a (len - 1) b len"
  shows "\<exists>m' r. bng_generic_div_rem_digit ops m a b len d = Some (m', r) \<and> r < d \<and> bng_frame m m' a (len - 1)
     \<and> bng_val m b len = bng_val m' a (len - 1) * unat d + unat r"
proof -
  define s where "s = bng_leading_zero_bits d"
  obtain m1 o1 where s1: "shift_left ops m b len s = (m1, o1)" by fastforce
  have d0: "d \<noteq> 0" using tp by (metis word_not_simps(1))
  note norm = normalise_law [of len d m b, OF len d0 tp s_def s1]
  have dj': "b \<le> a \<or> a + (len - 1) \<le> b" using dj by auto
  from div_rem_norm_digit_law [of len m1 b "push_bit s d" a, OF len norm(5,4) dj'] obtain m2 r where
    dv: "div_rem_norm_digit ops m1 a b len (push_bit s d) = Some (m2, r)" "r < push_bit s d" "bng_frame m1 m2 a (len - 1)"
        "bng_val m1 b len = bng_val m2 a (len - 1) * unat (push_bit s d) + unat r" by blast
  obtain m3 o3 where s3: "shift_right ops m2 b len s = (m3, o3)" by fastforce
  have s64: "s < 64" unfolding s_def by (rule bng_leading_zero_bits_correct(1) [OF d0])
  have b2: "bng_val m2 b len = bng_val m b len * 2 ^ s" using bng_frame_val [OF dv(3)] dj norm(2) by auto
  note rest = restore_law [OF s64 s3 b2]
  have call: "bng_generic_div_rem_digit ops m a b len d = Some (m3, drop_bit s r)"
    using s1 dv(1) s3 by (simp add: bng_generic_div_rem_digit_def Let_def flip: s_def)
  have a3: "bng_val m3 a (len - 1) = bng_val m2 a (len - 1)" using bng_frame_val [OF rest(1)] dj by auto
  have "bng_val m b len * 2 ^ s = bng_val m2 a (len - 1) * (unat d * 2 ^ s) + unat r" "unat r < unat d * 2 ^ s"
    using dv(2,4) norm(2,3) by (simp_all add: word_less_nat_alt)
  from denormalise [OF this] obtain q where q: "unat r = q * 2 ^ s" "q < unat d"
    "bng_val m b len = bng_val m2 a (len - 1) * unat d + q" by blast
  then have qd: "unat (drop_bit s r) = q" by (simp add: unat_drop_bit)
  have "bng_frame m m3 a (len - 1)"
  proof (rule bng_frame_restored [OF rest(2)])
    fix x assume "x < a \<or> a + (len - 1) \<le> x" "x < b \<or> b + len \<le> x"
    then show "m3 x = m x" using bng_frame_at [OF rest(1)] bng_frame_at [OF dv(3)] bng_frame_at [OF norm(1)] by metis
  qed
  then show ?thesis using call q qd a3 by (auto simp: word_less_nat_alt)
qed

end

lemma bng_top_borrow:
  fixes c :: bngdigit
  assumes f: "bng_frame m m1 a n" and v: "bng_val m1 a n + x = bng_val m a n + bng_base ^ n * unat c"
    and ge: "x \<le> bng_val m a (Suc n)"
  defines "m2 \<equiv> m1(a + n := m1 (a + n) - c)"
  shows "bng_frame m m2 a (Suc n)" and "bng_val m2 a (Suc n) + x = bng_val m a (Suc n)"
proof -
  let ?h = "m (a + n)"
  have h1: "m1 (a + n) = ?h" using bng_frame_at [OF f, of "a + n"] by simp
  have "bng_base ^ n * unat c < bng_base ^ n * (unat ?h + 1)"
    using ge v bng_val_less [of m1 a n] by (simp add: bng_val_top algebra_simps del: bng_val.simps)
  then have "unat c < unat ?h + 1" by (simp only: mult_less_cancel1)
  then have h2: "unat (m1 (a + n) - c) = unat ?h - unat c" and le: "unat c \<le> unat ?h"
    unfolding h1 by (simp_all add: unat_sub word_le_nat_alt)
  have "bng_val m2 a (Suc n) + x = bng_val m1 a n + x + bng_base ^ n * (unat ?h - unat c)"
    unfolding bng_val_top m2_def using h2 by simp
  also have "\<dots> = bng_val m a n + bng_base ^ n * (unat c + (unat ?h - unat c))"
    unfolding v by (simp add: distrib_left)
  finally show "bng_val m2 a (Suc n) + x = bng_val m a (Suc n)" using le unfolding bng_val_top by simp
  show "bng_frame m m2 a (Suc n)" unfolding m2_def
    by (rule bng_frame_trans [OF f bng_frame_upd [of a "a + n" "Suc n"]]) auto
qed

lemma bng_adjust_guard:
  "m (a + n) \<noteq> 0 \<or> bng_compare m a n d n \<ge> 0 \<longleftrightarrow> bng_val m d n \<le> bng_val m a (Suc n)"
proof (cases "m (a + n) = 0")
  case True
  then show ?thesis
    by (auto simp: bng_compare_correct sgn_if bng_val_top simp del: bng_val.simps)
next
  case False
  then show ?thesis
    using bng_val_ge_top [of "Suc n" m a] bng_val_less [of m d n] by (simp del: bng_val.simps)
qed

lemma bng_val_short: "bng_val m a (Suc n) < bng_base ^ n \<Longrightarrow> bng_val m a (Suc n) = bng_val m a n"
  using bng_val_ge_top [of "Suc n" m a] by (cases "m (a + n) = 0") (auto simp: bng_val_top simp del: bng_val.simps)

context bng_contract
begin

lemma div_rem_adjust_law:
  "0 < bng_val m d dlen \<Longrightarrow> bng_disjoint ni (Suc dlen) d dlen \<Longrightarrow>
   \<exists>m' k. bng_div_rem_adjust ops m (ni + dlen) ni d dlen quo = Some (m', quo + of_nat k)
     \<and> bng_frame m m' ni (Suc dlen) \<and> bng_val m' ni dlen < bng_val m d dlen
     \<and> bng_val m ni (Suc dlen) = k * bng_val m d dlen + bng_val m' ni dlen"
proof (induction "bng_val m ni (Suc dlen)" arbitrary: m quo rule: less_induct)
  case less
  let ?D = "bng_val m d dlen"
  show ?case
  proof (cases "?D \<le> bng_val m ni (Suc dlen)")
    case False
    then have "bng_val m ni (Suc dlen) = bng_val m ni dlen"
      using bng_val_less [of m d dlen] by (intro bng_val_short) simp
    moreover have "bng_div_rem_adjust ops m (ni + dlen) ni d dlen quo = Some (m, quo)"
      using False by (subst bng_div_rem_adjust.simps) (simp only: bng_adjust_guard if_False)
    ultimately show ?thesis using False by (auto simp del: bng_val.simps intro!: exI [of _ 0])
  next
    case True
    obtain m1 c where c: "sub ops m ni dlen d dlen 0 = (m1, c)" by fastforce
    let ?m2 = "m1(ni + dlen := m1 (ni + dlen) - ucast c)"
    have dj: "bng_disjoint ni dlen d dlen \<or> ni = d" using less.prems(2) by auto
    from sub_law [OF _ dj _ c] have sb: "c \<le> 1" "bng_frame m m1 ni dlen"
      "bng_val m1 ni dlen + ?D = bng_val m ni dlen + bng_base ^ dlen * unat c" by auto
    then have sb3: "bng_val m1 ni dlen + ?D = bng_val m ni dlen + bng_base ^ dlen * unat (ucast c :: bngdigit)"
      using unat_ucast_carry by simp
    note t = bng_top_borrow [OF sb(2) sb3 True]
    have D2: "bng_val ?m2 d dlen = ?D" using bng_frame_val [OF t(1)] less.prems(2) by auto
    have "bng_val ?m2 ni (Suc dlen) < bng_val m ni (Suc dlen)" using t(2) less.prems(1) by simp
    from less.hyps [OF this, unfolded D2, OF less.prems, of "quo + 1"] obtain m' k where
      ih: "bng_div_rem_adjust ops ?m2 (ni + dlen) ni d dlen (quo + 1) = Some (m', quo + 1 + of_nat k)"
        "bng_frame ?m2 m' ni (Suc dlen)" "bng_val m' ni dlen < ?D"
        "bng_val ?m2 ni (Suc dlen) = k * ?D + bng_val m' ni dlen" by blast
    have "bng_div_rem_adjust ops m (ni + dlen) ni d dlen quo = Some (m', quo + of_nat (Suc k))"
      using True c ih(1) by (subst bng_div_rem_adjust.simps) (simp only: bng_adjust_guard if_True, simp add: add.assoc)
    moreover have "bng_frame m m' ni (Suc dlen)" by (rule bng_frame_trans [OF t(1) ih(2)]) auto
    moreover have "bng_val m ni (Suc dlen) = Suc k * ?D + bng_val m' ni dlen" using t(2) ih(4) by simp
    ultimately show ?thesis using ih(3) by blast
  qed
qed

end

lemma bng_div_rem_estimate_correct:
  assumes "m nj \<le> topden"
  shows "\<exists>quo. bng_div_rem_estimate m nj topden = Some quo
    \<and> unat quo * (unat topden + 1) \<le> bng_base * unat (m nj) + unat (m (nj - 1))"
proof (cases "topden + 1 = 0")
  case True
  then have "unat topden + 1 = bng_base" by (metis unat_incr unat_eq_zero add_is_0 one_neq_zero)
  then show ?thesis using True by (simp add: bng_div_rem_estimate_def)
next
  case False
  then have t: "unat (topden + 1) = unat topden + 1" by (metis unat_incr unat_eq_zero)
  then have "m nj < topden + 1" using assms by (simp add: word_less_nat_alt word_le_nat_alt)
  from digit_val(8) [OF this, of "m (nj - 1)"] obtain q r where
    "bng_div_aux (m nj) (m (nj - 1)) (topden + 1) = Some (q, r)"
    "bng_base * unat (m nj) + unat (m (nj - 1)) = unat q * unat (topden + 1) + unat r" by blast
  then show ?thesis using False t by (simp add: bng_div_rem_estimate_def)
qed

lemma bng_estimate_below:
  assumes len: "0 < dlen" and less: "bng_val m ni (Suc dlen) < bng_val m d dlen * bng_base"
  shows "\<exists>quo. bng_div_rem_estimate m (ni + dlen) (m (d + (dlen - 1))) = Some quo
    \<and> unat quo * bng_val m d dlen \<le> bng_val m ni (Suc dlen)"
proof -
  obtain k where k: "dlen = Suc k" using len by (cases dlen) auto
  let ?t = "m (d + k)" and ?h = "m (ni + dlen)" and ?l = "m (ni + k)"
  have D: "bng_val m d dlen < (unat ?t + 1) * bng_base ^ k"
    using bng_top_less [OF len, of m d "unat ?t + 1"] by (simp add: k del: bng_val.simps)
  have N: "(bng_base * unat ?h + unat ?l) * bng_base ^ k \<le> bng_val m ni (Suc dlen)"
    by (simp add: bng_val_top k algebra_simps del: bng_val.simps)
  have "bng_base * unat ?h * bng_base ^ k < (unat ?t + 1) * bng_base ^ k * bng_base"
  proof -
    have "bng_base * unat ?h * bng_base ^ k \<le> (bng_base * unat ?h + unat ?l) * bng_base ^ k" by simp
    also note N
    also note less
    also have "bng_val m d dlen * bng_base < (unat ?t + 1) * bng_base ^ k * bng_base" using D by simp
    finally show ?thesis .
  qed
  then have "unat ?h < unat ?t + 1" by (simp add: ac_simps del: mult_Suc_right)
  then have "?h \<le> ?t" by (simp add: word_le_nat_alt)
  from bng_div_rem_estimate_correct [of m "ni + dlen", OF this] obtain quo where
    q: "bng_div_rem_estimate m (ni + dlen) ?t = Some quo" "unat quo * (unat ?t + 1) \<le> bng_base * unat ?h + unat ?l"
    by (auto simp: k)
  have "unat quo * bng_val m d dlen \<le> unat quo * ((unat ?t + 1) * bng_base ^ k)"
    using D by (intro mult_le_mono2) simp
  also have "\<dots> = unat quo * (unat ?t + 1) * bng_base ^ k" by (simp only: mult.assoc)
  also have "\<dots> \<le> (bng_base * unat ?h + unat ?l) * bng_base ^ k" using q(2) by (rule mult_le_mono1)
  also note N
  finally show ?thesis using q(1) by (auto simp: k)
qed

context bng_contract
begin

lemma div_rem_step_law:
  assumes len: "0 < dlen" and dj: "bng_disjoint ni (Suc dlen) d dlen"
    and less: "bng_val m ni (Suc dlen) < bng_val m d dlen * bng_base"
  shows "\<exists>quo m1 c m2 quo'. bng_div_rem_estimate m (ni + dlen) (m (d + (dlen - 1))) = Some quo
    \<and> mult_sub_digit ops m ni dlen d dlen quo = (m1, c)
    \<and> bng_div_rem_adjust ops (m1(ni + dlen := m1 (ni + dlen) - c)) (ni + dlen) ni d dlen quo = Some (m2, quo')
    \<and> bng_frame m m2 ni (Suc dlen) \<and> bng_val m2 ni dlen < bng_val m d dlen
    \<and> bng_val m ni (Suc dlen) = unat quo' * bng_val m d dlen + bng_val m2 ni dlen"
proof -
  let ?D = "bng_val m d dlen"
  from bng_estimate_below [OF len less] obtain quo where
    q: "bng_div_rem_estimate m (ni + dlen) (m (d + (dlen - 1))) = Some quo" "unat quo * ?D \<le> bng_val m ni (Suc dlen)" by blast
  obtain m1 c where c: "mult_sub_digit ops m ni dlen d dlen quo = (m1, c)" by fastforce
  have dj': "bng_disjoint ni dlen d dlen" using dj by auto
  from mult_sub_digit_law [OF order_refl dj' c] have ms: "bng_frame m m1 ni dlen"
    "bng_val m1 ni dlen + unat quo * ?D = bng_val m ni dlen + bng_base ^ dlen * unat c" by auto
  note t = bng_top_borrow [OF ms q(2)]
  let ?m1 = "m1(ni + dlen := m1 (ni + dlen) - c)"
  have D1: "bng_val ?m1 d dlen = ?D" using bng_frame_val [OF t(1)] dj by auto
  have Dpos: "0 < ?D" using less by (cases "?D = 0") auto
  from div_rem_adjust_law [of ?m1 d dlen ni quo, unfolded D1, OF Dpos dj] obtain m2 k where
    a: "bng_div_rem_adjust ops ?m1 (ni + dlen) ni d dlen quo = Some (m2, quo + of_nat k)"
       "bng_frame ?m1 m2 ni (Suc dlen)" "bng_val m2 ni dlen < ?D"
       "bng_val ?m1 ni (Suc dlen) = k * ?D + bng_val m2 ni dlen" by blast
  have N: "bng_val m ni (Suc dlen) = (unat quo + k) * ?D + bng_val m2 ni dlen"
    using t(2) a(4) by (simp add: algebra_simps del: bng_val.simps)
  then have "(unat quo + k) * ?D < bng_base * ?D" using less by (metis le_add1 le_less_trans mult.commute)
  then have "unat quo + k < 2 ^ 64" by (simp add: bng_base_def)
  then have "unat (of_nat (unat quo + k) :: bngdigit) = unat quo + k" by (simp only: unat_of_nat) simp
  then have "unat (quo + of_nat k) = unat quo + k" by simp
  with N have "bng_val m ni (Suc dlen) = unat (quo + of_nat k) * ?D + bng_val m2 ni dlen" by simp
  moreover have "bng_frame m m2 ni (Suc dlen)" by (rule bng_frame_trans [OF t(1) a(2)]) auto
  ultimately show ?thesis using q(1) c a(1,3) by blast
qed

lemma div_rem_loop_law:
  "0 < dlen \<Longrightarrow> bng_disjoint n (i + dlen) d dlen \<Longrightarrow> bng_val m (n + i) dlen < bng_val m d dlen \<Longrightarrow>
   \<exists>m'. bng_div_rem_loop ops m n d dlen (m (d + (dlen - 1))) i = Some m'
     \<and> bng_frame m m' n (i + dlen) \<and> bng_val m' n dlen < bng_val m d dlen
     \<and> bng_val m n (i + dlen) = bng_val m' (n + dlen) i * bng_val m d dlen + bng_val m' n dlen"
proof (induction i arbitrary: m)
  case (Suc i)
  let ?D = "bng_val m d dlen" and ?ni = "n + i"
  have dj: "bng_disjoint ?ni (Suc dlen) d dlen" "bng_disjoint n (i + dlen) d dlen" using Suc.prems(2) by auto
  have "bng_base * (bng_val m (n + Suc i) dlen + 1) \<le> bng_base * ?D" using Suc.prems(3) by (intro mult_le_mono2) simp
  then have less: "bng_val m ?ni (Suc dlen) < ?D * bng_base"
    using unat_less_base [of "m ?ni"] by (simp add: algebra_simps)
  from div_rem_step_law [OF Suc.prems(1) dj(1) less] obtain quo m1 c m2 q where
    st: "bng_div_rem_estimate m (?ni + dlen) (m (d + (dlen - 1))) = Some quo"
      "mult_sub_digit ops m ?ni dlen d dlen quo = (m1, c)"
      "bng_div_rem_adjust ops (m1(?ni + dlen := m1 (?ni + dlen) - c)) (?ni + dlen) ?ni d dlen quo = Some (m2, q)"
      "bng_frame m m2 ?ni (Suc dlen)" "bng_val m2 ?ni dlen < ?D"
      "bng_val m ?ni (Suc dlen) = unat q * ?D + bng_val m2 ?ni dlen" by blast
  let ?m3 = "m2(?ni + dlen := q)"
  have f3: "bng_frame m ?m3 ?ni (Suc dlen)" by (rule bng_frame_trans [OF st(4) bng_frame_upd [of ?ni "?ni + dlen" "Suc dlen"]]) auto
  have "bng_val ?m3 d dlen = ?D" by (rule bng_frame_val [OF f3]) (use dj(1) in auto)
  moreover have "?m3 (d + (dlen - 1)) = m (d + (dlen - 1))"
    by (rule bng_frame_at [OF f3]) (use dj(1) Suc.prems(1) in auto)
  ultimately have D3: "bng_val ?m3 d dlen = ?D" "?m3 (d + (dlen - 1)) = m (d + (dlen - 1))" .
  have r3: "bng_val ?m3 ?ni dlen < bng_val ?m3 d dlen" using st(5) D3(1) by simp
  from Suc.IH [OF Suc.prems(1) dj(2) r3] obtain m' where
    ih: "bng_div_rem_loop ops ?m3 n d dlen (m (d + (dlen - 1))) i = Some m'" "bng_frame ?m3 m' n (i + dlen)"
      "bng_val m' n dlen < ?D" "bng_val ?m3 n (i + dlen) = bng_val m' (n + dlen) i * ?D + bng_val m' n dlen"
    unfolding D3 by blast
  have call: "bng_div_rem_loop ops m n d dlen (m (d + (dlen - 1))) (Suc i) = Some m'"
    using st(1,2,3) ih(1) by (simp add: Let_def add.assoc)
  have q': "m' (n + dlen + i) = q" using bng_frame_at [OF ih(2), of "n + dlen + i"] by (simp add: ac_simps)
  have lo: "bng_val ?m3 n i = bng_val m n i" using bng_frame_val [OF f3, of n i] by simp
  have "bng_val m n (Suc i + dlen) = bng_val m n i + bng_base ^ i * bng_val m ?ni (Suc dlen)"
    using bng_val_append [of m n i "Suc dlen"] by simp
  also have "\<dots> = (bng_val ?m3 n i + bng_base ^ i * bng_val ?m3 ?ni dlen) + bng_base ^ i * unat q * ?D"
    unfolding st(6) lo by (simp add: algebra_simps)
  also have "\<dots> = bng_val m' (n + dlen) (Suc i) * ?D + bng_val m' n dlen"
    unfolding bng_val_append [symmetric] ih(4) bng_val_top q' by (simp add: algebra_simps)
  finally have "bng_val m n (Suc i + dlen) = bng_val m' (n + dlen) (Suc i) * ?D + bng_val m' n dlen" .
  moreover have "bng_frame m m' n (Suc i + dlen)" by (rule bng_frame_trans [OF f3 ih(2)]) auto
  ultimately show ?case using call ih(3) by blast
qed simp

end

context bng_contract
begin

lemma div_rem_core_law:
  assumes len: "0 < dlen" "dlen < nlen" and dj: "bng_disjoint n nlen d dlen"
    and tp: "m (n + (nlen - 1)) < m (d + (dlen - 1))" and norm: "2 ^ 63 \<le> unat (m (d + (dlen - 1)))"
  shows "\<exists>m'. (if dlen = 1
        then case div_rem_norm_digit ops m (n + 1) n nlen (m d) of
               None \<Rightarrow> None | Some (m, r) \<Rightarrow> Some (m(n := r))
        else bng_div_rem_loop ops m n d dlen (m (d + (dlen - 1))) (nlen - dlen)) = Some m'
     \<and> bng_frame m m' n nlen \<and> bng_val m' n dlen < bng_val m d dlen
     \<and> bng_val m n nlen = bng_val m' (n + dlen) (nlen - dlen) * bng_val m d dlen + bng_val m' n dlen"
proof (cases "dlen = 1")
  case True
  have p: "0 < nlen" "n \<le> n + 1 \<or> n + 1 + (nlen - 1) \<le> n" "m (n + (nlen - 1)) < m d" "2 ^ 63 \<le> unat (m d)"
    using len tp norm True by auto
  from div_rem_norm_digit_law [of nlen m n "m d" "n + 1", OF p(1,3,4,2)] obtain m1 r where
    dv: "div_rem_norm_digit ops m (n + 1) n nlen (m d) = Some (m1, r)" "r < m d" "bng_frame m m1 (n + 1) (nlen - 1)"
      "bng_val m n nlen = bng_val m1 (n + 1) (nlen - 1) * unat (m d) + unat r" by blast
  have "bng_frame m (m1(n := r)) n nlen"
    by (rule bng_frame_trans [OF dv(3) bng_frame_upd [of n n 1]]) (use len in auto)
  then show ?thesis using dv True by (auto simp: word_less_nat_alt)
next
  case False
  define i where "i = nlen - dlen"
  have i: "nlen = i + dlen" using len by (simp add: i_def)
  obtain k where k: "dlen = Suc k" using len by (cases dlen) auto
  have "unat (m (n + i + (dlen - 1))) < unat (m (d + (dlen - 1)))"
    using tp by (simp add: i k word_less_nat_alt ac_simps)
  then have "bng_val m (n + i) dlen < unat (m (d + (dlen - 1))) * bng_base ^ (dlen - 1)"
    by (rule bng_top_less [OF len(1), THEN iffD1])
  also have "\<dots> \<le> bng_val m d dlen" by (simp add: k bng_val_top del: bng_val.simps)
  finally have less: "bng_val m (n + i) dlen < bng_val m d dlen" .
  have dj': "bng_disjoint n (i + dlen) d dlen" using dj i by simp
  from div_rem_loop_law [OF len(1) dj' less] False show ?thesis by (simp add: i)
qed

lemma div_rem_finish_law:
  assumes len: "0 < dlen" "dlen < nlen" and dj: "bng_disjoint n nlen d dlen" and s: "s < 64"
    and s4: "shift_right ops m3 n dlen s = (m4, o4)" and s5: "shift_right ops m4 d dlen s = (m5, o5)"
    and v: "v * 2 ^ s = bng_val m3 (n + dlen) (nlen - dlen) * (D * 2 ^ s) + bng_val m3 n dlen"
    and less: "bng_val m3 n dlen < D * 2 ^ s" and d3: "bng_val m3 d dlen = D * 2 ^ s"
  shows "v = bng_val m5 (n + dlen) (nlen - dlen) * D + bng_val m5 n dlen" and "bng_val m5 n dlen < D"
    and "bng_val m5 d dlen = D"
    and "x < n \<or> n + nlen \<le> x \<Longrightarrow> x < d \<or> d + dlen \<le> x \<Longrightarrow> m5 x = m3 x"
proof -
  from denormalise [OF v less] obtain r where r: "bng_val m3 n dlen = r * 2 ^ s" "r < D"
    "v = bng_val m3 (n + dlen) (nlen - dlen) * D + r" by blast
  note R = restore_law [OF s s4 r(1)]
  have d4: "bng_val m4 d dlen = D * 2 ^ s"
    using bng_frame_val [OF R(1), of d dlen] dj d3 len by auto
  note Q = restore_law [OF s s5 d4]
  have n5: "bng_val m5 n dlen = r" "bng_val m5 (n + dlen) (nlen - dlen) = bng_val m3 (n + dlen) (nlen - dlen)"
    using bng_frame_val [OF Q(1), of n dlen] bng_frame_val [OF Q(1), of "n + dlen" "nlen - dlen"]
      bng_frame_val [OF R(1), of "n + dlen" "nlen - dlen"] R(2) dj len by auto
  show "v = bng_val m5 (n + dlen) (nlen - dlen) * D + bng_val m5 n dlen" "bng_val m5 n dlen < D"
    "bng_val m5 d dlen = D" using r(2,3) n5 Q(2) by simp_all
  assume x: "x < n \<or> n + nlen \<le> x" "x < d \<or> d + dlen \<le> x"
  then have "x < n \<or> n + dlen \<le> x" using len by auto
  then show "m5 x = m3 x" using x(2) bng_frame_at [OF R(1), of x] bng_frame_at [OF Q(1), of x] by simp
qed

lemma div_rem_law:
  assumes len: "0 < dlen" "dlen < nlen" and dj: "bng_disjoint n nlen d dlen"
    and tp: "m (n + (nlen - 1)) < m (d + (dlen - 1))"
  shows "\<exists>m'. bng_generic_div_rem ops m n nlen d dlen = Some m' \<and> bng_frame m m' n nlen
     \<and> bng_val m' n dlen < bng_val m d dlen
     \<and> bng_val m n nlen = bng_val m' (n + dlen) (nlen - dlen) * bng_val m d dlen + bng_val m' n dlen"
proof -
  define t where "t = m (d + (dlen - 1))"
  define s where "s = bng_leading_zero_bits t"
  obtain m1 o1 where s1: "shift_left ops m n nlen s = (m1, o1)" by fastforce
  obtain m2 o2 where s2: "shift_left ops m1 d dlen s = (m2, o2)" by fastforce
  have t0: "t \<noteq> 0" using tp unfolding t_def by (metis word_not_simps(1))
  have s64: "s < 64" unfolding s_def by (rule bng_leading_zero_bits_correct(1) [OF t0])
  have nl: "0 < nlen" using len by simp
  note N = normalise_law [of nlen t m n, OF nl t0 tp [folded t_def] s_def s1]
  have t1: "m1 (d + (dlen - 1)) = t" unfolding t_def
    by (rule bng_frame_at [OF N(1)]) (use dj len in auto)
  note M = normalise_divisor_law [of dlen m1 d t, OF len(1) t1 t0 s_def s2]
  have f2: "m2 (n + (nlen - 1)) = m1 (n + (nlen - 1))" by (rule bng_frame_at [OF M(1)]) (use dj len in auto)
  have n2: "bng_val m2 n nlen = bng_val m n nlen * 2 ^ s" using bng_frame_val [OF M(1)] dj N(2) by auto
  have d2: "bng_val m2 d dlen = bng_val m d dlen * 2 ^ s" using bng_frame_val [OF N(1)] dj M(2) by auto
  have tp2: "m2 (n + (nlen - 1)) < m2 (d + (dlen - 1))" and nm2: "2 ^ 63 \<le> unat (m2 (d + (dlen - 1)))"
    using N(3,4,5) M(3) unfolding f2 word_less_nat_alt by simp_all
  from div_rem_core_law [of dlen nlen n d m2, OF len dj tp2 nm2] obtain m3 where
    c: "(if dlen = 1
        then case div_rem_norm_digit ops m2 (n + 1) n nlen (m2 d) of
               None \<Rightarrow> None | Some (m, r) \<Rightarrow> Some (m(n := r))
        else bng_div_rem_loop ops m2 n d dlen (m2 (d + (dlen - 1))) (nlen - dlen)) = Some m3"
     "bng_frame m2 m3 n nlen" "bng_val m3 n dlen < bng_val m2 d dlen"
     "bng_val m2 n nlen = bng_val m3 (n + dlen) (nlen - dlen) * bng_val m2 d dlen + bng_val m3 n dlen" by blast
  obtain m4 o4 where s4: "shift_right ops m3 n dlen s = (m4, o4)" by fastforce
  obtain m5 o5 where s5: "shift_right ops m4 d dlen s = (m5, o5)" by fastforce
  have call: "bng_generic_div_rem ops m n nlen d dlen = Some m5"
    unfolding bng_generic_div_rem_def Let_def t_def [symmetric] s_def [symmetric] s1 s2 fst_conv c(1) option.case s4 s5 ..
  have v: "bng_val m n nlen * 2 ^ s = bng_val m3 (n + dlen) (nlen - dlen) * (bng_val m d dlen * 2 ^ s) + bng_val m3 n dlen"
    and less: "bng_val m3 n dlen < bng_val m d dlen * 2 ^ s" using c(3,4) unfolding n2 d2 by simp_all
  have d3: "bng_val m3 d dlen = bng_val m d dlen * 2 ^ s"
    using bng_frame_val [OF c(2), of d dlen] dj d2 by auto
  note F = div_rem_finish_law [OF len dj s64 s4 s5 v less d3]
  have "bng_frame m m5 n nlen"
    by (rule bng_frame_restored [OF F(3)])
      (metis F(4) bng_frame_at [OF N(1)] bng_frame_at [OF M(1)] bng_frame_at [OF c(2)])
  then show ?thesis using call F(1,2) by blast
qed

end

section \<open>The table the library installs\<close>

lemma bng_ops_sel:
  "add bng_ops = bng_generic_add" "sub bng_ops = bng_generic_sub"
  "shift_left bng_ops = bng_generic_shift_left" "shift_right bng_ops = bng_generic_shift_right"
  "mult_add_digit bng_ops = bng_generic_mult_add_digit" "mult_sub_digit bng_ops = bng_generic_mult_sub_digit"
  "mult_add bng_ops = bng_generic_mult_add bng_prim" "square_add bng_ops = bng_generic_square_add bng_prim"
  "div_rem_digit bng_ops = bng_generic_div_rem_digit bng_prim" "div_rem bng_ops = bng_generic_div_rem bng_prim"
  by (simp_all add: bng_ops_def bng_prim_def bng_primitives.defs bng_operations.defs)

lemma bng_mem_eqI:
  assumes "bng_frame m m' a n" and "bng_val m' a n = bng_val m a n"
  shows "m' = m"
proof
  fix x
  have "bng_frame m m' x 0"
    by (rule bng_frame_restored [OF assms(2)]) (rule bng_frame_at [OF assms(1)])
  then show "m' x = m x" by (simp add: bng_frame_def)
qed

text \<open>C1: Long division \<open>bng_div_rem\<close> always returns, leaves in \<open>n\<close> the quotient above the
  remainder, with remainder below the divisor, and restores the divisor it normalised
  in place: memory outside \<open>{n,nlen}\<close> is unchanged.\<close>
theorem bng_div_rem_correct:
  assumes "0 < dlen" "dlen < nlen" and "bng_disjoint n nlen d dlen"
    and "m (n + (nlen - 1)) < m (d + (dlen - 1))"
  shows "\<exists>m'. div_rem bng_ops m n nlen d dlen = Some m' \<and> bng_frame m m' n nlen
     \<and> bng_val m' n dlen = bng_val m n nlen mod bng_val m d dlen
     \<and> bng_val m' (n + dlen) (nlen - dlen) = bng_val m n nlen div bng_val m d dlen"
proof -
  from generic.div_rem_law [OF assms(1-3), of m, OF assms(4)] obtain m' where
    "bng_generic_div_rem bng_prim m n nlen d dlen = Some m'" "bng_frame m m' n nlen"
    "bng_val m' n dlen < bng_val m d dlen"
    "bng_val m n nlen = bng_val m' (n + dlen) (nlen - dlen) * bng_val m d dlen + bng_val m' n dlen" by blast
  then show ?thesis by (auto simp: bng_ops_sel)
qed

theorem bng_div_rem_correct_witness:
  "\<exists>m'. div_rem bng_ops ((\<lambda>_. 0)(0 := 7, 1 := 9, 2 := 1, 10 := 3, 11 := 5)) 0 3 10 2 = Some m'
     \<and> bng_val m' 0 2 = bng_val ((\<lambda>_. 0)(0 := 7, 1 := 9, 2 := 1, 10 := 3, 11 := 5)) 0 3
         mod bng_val ((\<lambda>_. 0)(0 := 7, 1 := 9, 2 := 1, 10 := 3, 11 := 5)) 10 2"
  using bng_div_rem_correct [of 2 3 0 10 "(\<lambda>_. 0)(0 := 7, 1 := 9, 2 := 1, 10 := 3, 11 := 5)"] by auto

text \<open>C12: Squaring \<open>bng_square_add\<close> computes \<open>2 * {a,alen} + {b,blen}^2\<close> exactly, carry
  included, although it adds each double product once and doubles by shifting; the
  carry out is at most 2 and nothing outside \<open>{a,alen}\<close> is written.\<close>
theorem bng_square_add_correct:
  assumes "2 * blen \<le> alen" and "bng_disjoint a alen b blen"
    and "square_add bng_ops m a alen b blen = (m', out)"
  shows "unat out \<le> 2 \<and> bng_frame m m' a alen
     \<and> bng_val m' a alen + bng_base ^ alen * unat out = 2 * bng_val m a alen + bng_val m b blen ^ 2"
  using generic.square_add_law [OF assms(1,2)] assms(3) by (simp add: bng_ops_sel)

theorem bng_square_add_correct_witness:
  "bng_val (fst (square_add bng_ops (\<lambda>x. if x < 4 then 0 else 3) 0 4 7 2)) 0 4
     + bng_base ^ 4 * unat (snd (square_add bng_ops (\<lambda>x. if x < 4 then 0 else 3) 0 4 7 2))
   = 2 * bng_val (\<lambda>x. if x < 4 then 0 else 3) 0 4 + bng_val (\<lambda>x. if x < 4 then 0 else 3) 7 2 ^ 2"
  using bng_square_add_correct [of 2 4 0 7 "\<lambda>x. if x < 4 then 0 else 3", OF _ _ prod.collapse [symmetric]]
  by (simp only: mult_2 numeral_Bit0 order_refl) auto

text \<open>C22: Multiplication \<open>bng_mult_add\<close> adds the product of two numbers to \<open>{a,alen}\<close>
  exactly, with a carry out of at most 1.\<close>
theorem bng_mult_add_correct:
  assumes "blen + clen \<le> alen" and "bng_disjoint a alen b blen" and "bng_disjoint a alen c clen"
    and "mult_add bng_ops m a alen b blen c clen = (m', out)"
  shows "out \<le> 1 \<and> bng_frame m m' a alen
     \<and> bng_val m' a alen + bng_base ^ alen * unat out = bng_val m a alen + bng_val m b blen * bng_val m c clen"
  using generic.mult_add_law [OF assms(1-3)] assms(4) by (simp add: bng_ops_sel)

theorem bng_mult_add_correct_witness:
  "bng_val (fst (mult_add bng_ops (\<lambda>x. - 1) 0 4 7 2 9 2)) 0 4
     + bng_base ^ 4 * unat (snd (mult_add bng_ops (\<lambda>x. - 1) 0 4 7 2 9 2))
   = bng_val (\<lambda>x. - 1) 0 4 + bng_val (\<lambda>x. - 1) 7 2 * bng_val (\<lambda>x. - 1) 9 2"
  using bng_mult_add_correct [of 2 2 4 0 7 9 "\<lambda>x. - 1", OF _ _ _ prod.collapse [symmetric]] by auto

text \<open>C26: Division by one digit \<open>bng_div_rem_digit\<close> returns, with the exact quotient in
  \<open>{a,len-1}\<close> and the exact remainder; the numerator, shifted in place during the
  division, is restored.\<close>
theorem bng_div_rem_digit_correct:
  assumes "0 < len" and "m (b + (len - 1)) < d" and "bng_disjoint a (len - 1) b len"
  shows "\<exists>m' r. div_rem_digit bng_ops m a b len d = Some (m', r) \<and> bng_frame m m' a (len - 1)
     \<and> unat r = bng_val m b len mod unat d \<and> bng_val m' a (len - 1) = bng_val m b len div unat d"
proof -
  from generic.div_rem_digit_law [of len m b d a, OF assms] obtain m' r where
    "bng_generic_div_rem_digit bng_prim m a b len d = Some (m', r)" "unat r < unat d" "bng_frame m m' a (len - 1)"
    "bng_val m b len = bng_val m' a (len - 1) * unat d + unat r" by (auto simp: word_less_nat_alt)
  then show ?thesis by (auto simp: bng_ops_sel)
qed

theorem bng_div_rem_digit_correct_witness:
  "\<exists>m' r. div_rem_digit bng_ops ((\<lambda>_. 4)(2 := 1)) 10 0 3 6 = Some (m', r)
     \<and> unat r = bng_val ((\<lambda>_. 4)(2 := 1)) 0 3 mod 6"
  using bng_div_rem_digit_correct [of 3 "(\<lambda>_. 4)(2 := 1)" 0 6 10] by auto

text \<open>C27: Subtraction undoes addition digit for digit: after \<open>bng_add\<close> and \<open>bng_sub\<close> of the
  same operand, memory is back to what it was and the borrow equals the carry.\<close>
theorem bng_add_sub_roundtrip:
  assumes "blen \<le> alen" and "bng_disjoint a alen b blen"
    and "add bng_ops m a alen b blen 0 = (m1, c1)" and "sub bng_ops m1 a alen b blen 0 = (m2, c2)"
  shows "m2 = m \<and> c2 = c1"
proof -
  have dj: "bng_disjoint a alen b blen \<or> a = b" using assms(2) by simp
  from bng_generic_add_correct [OF assms(1) dj _ assms(3)[unfolded bng_ops_sel]]
  have p: "c1 \<le> 1" "bng_frame m m1 a alen"
    "bng_val m1 a alen + bng_base ^ alen * unat c1 = bng_val m a alen + bng_val m b blen" by auto
  from bng_generic_sub_correct [OF assms(1) dj _ assms(4)[unfolded bng_ops_sel]]
  have q: "c2 \<le> 1" "bng_frame m1 m2 a alen"
    "bng_val m2 a alen + bng_val m1 b blen = bng_val m1 a alen + bng_base ^ alen * unat c2" by auto
  have b: "bng_val m1 b blen = bng_val m b blen" using bng_frame_val [OF p(2)] assms(2) by auto
  have eq: "bng_val m2 a alen + bng_base ^ alen * unat c1 = bng_val m a alen + bng_base ^ alen * unat c2"
    using p(3) q(3) b by linarith
  have "bng_val m2 a alen = (bng_val m2 a alen + bng_base ^ alen * unat c1) mod bng_base ^ alen"
    using bng_val_less [of m2 a alen] by simp
  also have "\<dots> = bng_val m a alen" unfolding eq using bng_val_less [of m a alen] by simp
  finally have v: "bng_val m2 a alen = bng_val m a alen" .
  have "bng_frame m m2 a alen" by (rule bng_frame_trans [OF p(2) q(2)]) auto
  with v eq show ?thesis by (auto dest: bng_mem_eqI simp: word_unat_eq_iff)
qed

theorem bng_add_sub_roundtrip_witness:
  "add bng_ops (\<lambda>x. 3) 0 1 5 1 0 = ((\<lambda>x. 3)(0 := 6), 0)
   \<and> sub bng_ops ((\<lambda>x. 3)(0 := 6)) 0 1 5 1 0 = ((\<lambda>x. 3), 0)"
proof -
  have *: "add bng_ops (\<lambda>x. 3) 0 1 5 1 0 = ((\<lambda>x. 3)(0 := 6), 0)"
    by (simp add: bng_ops_sel bng_generic_add_def BngAdd2Carry_def Let_def)
  show ?thesis
    using * bng_add_sub_roundtrip [of 1 1 0 5, OF _ _ * prod.collapse [symmetric]] by (simp add: prod_eq_iff)
qed

text \<open>A left shift that loses no bit is undone by the right shift of the same amount,
  and the right shift then reports no bit shifted out.\<close>
theorem bng_shift_roundtrip:
  assumes "s < 64" and "shift_left bng_ops m a alen s = (m1, 0)" and "shift_right bng_ops m1 a alen s = (m2, out)"
  shows "m2 = m \<and> out = 0"
proof -
  from bng_generic_shift_left_correct [OF assms(1) assms(2)[unfolded bng_ops_sel]]
  have p: "bng_frame m m1 a alen" "bng_val m1 a alen = bng_val m a alen * 2 ^ s" by auto
  from bng_generic_shift_right_correct [OF assms(1) assms(3)[unfolded bng_ops_sel]]
  obtain k where q: "bng_frame m1 m2 a alen" "k < 2 ^ s" "unat out = k * 2 ^ (64 - s)"
    "bng_val m2 a alen * 2 ^ s + k = bng_val m a alen * 2 ^ s" unfolding p(2) by blast
  have "k = (bng_val m2 a alen * 2 ^ s + k) mod 2 ^ s" using q(2) by simp
  then have k: "k = 0" unfolding q(4) by simp
  have "bng_frame m m2 a alen" by (rule bng_frame_trans [OF p(1) q(1)]) auto
  then have "m2 = m" by (rule bng_mem_eqI) (use q(4) k in simp)
  then show ?thesis using q(3) k by (simp add: unat_eq_0)
qed

theorem bng_shift_roundtrip_witness:
  "shift_right bng_ops ((\<lambda>x. 3)(0 := 12)) 0 1 2 = ((\<lambda>x. 3), 0)"
proof -
  have *: "shift_left bng_ops (\<lambda>x. 3) 0 1 2 = ((\<lambda>x. 3)(0 := 12), 0)"
    by (simp add: bng_ops_sel bng_generic_shift_left_def BNG_BITS_PER_DIGIT_def push_bit_eq_mult drop_bit_eq_div)
  show ?thesis using bng_shift_roundtrip [OF _ * prod.collapse [symmetric]] by (simp add: prod_eq_iff)
qed

text \<open>\<open>bng_compare\<close> returns the sign of the difference of the two numbers, whatever
  leading zero digits either operand carries.\<close>
theorem bng_compare_sign:
  "bng_compare m a alen b blen = sgn (int (bng_val m a alen) - int (bng_val m b blen))"
  by (rule bng_compare_correct)

text \<open>The macro \<open>bng_is_zero\<close> is false on every number, zero included, because
  \<open>bng_num_digits\<close> never returns 0.\<close>
theorem bng_is_zero_never: "\<not> bng_is_zero m a alen"
  using bng_num_digits_correct [of m a alen] by (simp add: bng_is_zero_def)

end
