(* ===== verification/Mlvalues.thy ===== *)
theory Mlvalues
  imports Prelude
begin

text \<open>
  The uniform value representation of \<open>byterun/mlvalues.h\<close> and \<open>byterun/gc.h\<close> on a
  64-bit little-endian machine.  A \<open>value\<close> is a 64-bit word; the memory the runtime
  reads and writes is a function from 8-byte aligned byte addresses to words, and bytes
  are read out of its words.  Macros that are l-values in C get an update function with
  the suffix \<open>_set\<close>.
\<close>

section \<open>Values, headers, fields\<close>

type_synonym intnat = "64 word"
type_synonym uintnat = "64 word"
type_synonym cint = "32 word"
type_synonym value_t = "64 word"
type_synonym header_t = "64 word"
type_synonym mlsize_t = "64 word"
type_synonym heap = "64 word \<Rightarrow> 64 word"

definition Is_long :: "value_t \<Rightarrow> bool" where "Is_long x \<longleftrightarrow> x AND 1 \<noteq> 0"
definition Is_block :: "value_t \<Rightarrow> bool" where "Is_block x \<longleftrightarrow> x AND 1 = 0"

definition Val_long :: "intnat \<Rightarrow> value_t" where "Val_long x = push_bit 1 x + 1"
definition Long_val :: "value_t \<Rightarrow> intnat" where "Long_val x = signed_drop_bit 1 x"
definition Max_long :: intnat where "Max_long = push_bit 62 1 - 1"
definition Min_long :: intnat where "Min_long = - push_bit 62 1"
definition Val_int :: "cint \<Rightarrow> value_t" where "Val_int x = Val_long (scast x)"
definition Int_val :: "value_t \<Rightarrow> cint" where "Int_val x = ucast (Long_val x)"
definition Unsigned_long_val :: "value_t \<Rightarrow> uintnat" where "Unsigned_long_val x = drop_bit 1 x"
definition Val_bool :: "bool \<Rightarrow> value_t" where "Val_bool b = Val_int (if b then 1 else 0)"
definition Val_false :: value_t where "Val_false = Val_int 0"
definition Val_true :: value_t where "Val_true = Val_int 1"
definition Val_not :: "value_t \<Rightarrow> value_t" where "Val_not x = Val_false + Val_true - x"
definition Val_unit :: value_t where "Val_unit = Val_int 0"
definition Val_emptylist :: value_t where "Val_emptylist = Val_int 0"

definition Tag_hd :: "header_t \<Rightarrow> u32" where "Tag_hd hdr = ucast (hdr AND 0xFF)"
definition Wosize_hd :: "header_t \<Rightarrow> mlsize_t" where "Wosize_hd hdr = drop_bit 10 hdr"
definition Caml_white :: uintnat where "Caml_white = 0"
definition Caml_gray :: uintnat where "Caml_gray = push_bit 8 1"
definition Caml_blue :: uintnat where "Caml_blue = push_bit 8 2"
definition Caml_black :: uintnat where "Caml_black = push_bit 8 3"
definition Color_hd :: "header_t \<Rightarrow> uintnat" where "Color_hd hdr = hdr AND Caml_black"
definition Whitehd_hd :: "header_t \<Rightarrow> header_t" where "Whitehd_hd hdr = hdr AND NOT Caml_black"
definition Grayhd_hd :: "header_t \<Rightarrow> header_t" where "Grayhd_hd hdr = (hdr AND NOT Caml_black) OR Caml_gray"
definition Blackhd_hd :: "header_t \<Rightarrow> header_t" where "Blackhd_hd hdr = hdr OR Caml_black"
definition Bluehd_hd :: "header_t \<Rightarrow> header_t" where "Bluehd_hd hdr = (hdr AND NOT Caml_black) OR Caml_blue"
definition Make_header :: "mlsize_t \<Rightarrow> u32 \<Rightarrow> uintnat \<Rightarrow> header_t" where
  "Make_header wosize tag color = push_bit 10 wosize + color + ucast tag"

definition Hd_val :: "heap \<Rightarrow> value_t \<Rightarrow> header_t" where "Hd_val h v = h (v - 8)"
definition Hd_val_set :: "heap \<Rightarrow> value_t \<Rightarrow> header_t \<Rightarrow> heap" where "Hd_val_set h v hdr = h(v - 8 := hdr)"
definition Field :: "heap \<Rightarrow> value_t \<Rightarrow> uintnat \<Rightarrow> value_t" where "Field h x i = h (x + 8 * i)"
definition Field_set :: "heap \<Rightarrow> value_t \<Rightarrow> uintnat \<Rightarrow> value_t \<Rightarrow> heap" where "Field_set h x i v = h(x + 8 * i := v)"

definition Wosize_val :: "heap \<Rightarrow> value_t \<Rightarrow> mlsize_t" where "Wosize_val h v = Wosize_hd (Hd_val h v)"
definition Tag_val :: "heap \<Rightarrow> value_t \<Rightarrow> u32" where "Tag_val h v = Tag_hd (Hd_val h v)"
definition Bosize_val :: "heap \<Rightarrow> value_t \<Rightarrow> mlsize_t" where "Bosize_val h v = 8 * Wosize_val h v"
definition Infix_offset_val :: "heap \<Rightarrow> value_t \<Rightarrow> mlsize_t" where "Infix_offset_val h v = Bosize_val h v"

definition Byte_u :: "heap \<Rightarrow> value_t \<Rightarrow> uintnat \<Rightarrow> u8" where
  "Byte_u h x i = (let p = x + i in ucast (drop_bit (8 * unat (p AND 7)) (h (p AND NOT 7))))"
definition Byte_u_set :: "heap \<Rightarrow> value_t \<Rightarrow> uintnat \<Rightarrow> u8 \<Rightarrow> heap" where
  "Byte_u_set h x i c =
     (let p = x + i; k = 8 * unat (p AND 7); q = p AND NOT 7
      in h(q := (h q AND NOT (push_bit k 0xFF)) OR push_bit k (ucast c)))"

definition No_scan_tag :: u32 where "No_scan_tag = 251"
definition Forward_tag :: u32 where "Forward_tag = 250"
definition Infix_tag :: u32 where "Infix_tag = 249"
definition Object_tag :: u32 where "Object_tag = 248"
definition Closure_tag :: u32 where "Closure_tag = 247"
definition Lazy_tag :: u32 where "Lazy_tag = 246"
definition Abstract_tag :: u32 where "Abstract_tag = 251"
definition String_tag :: u32 where "String_tag = 252"
definition Double_tag :: u32 where "Double_tag = 253"
definition Double_array_tag :: u32 where "Double_array_tag = 254"
definition Custom_tag :: u32 where "Custom_tag = 255"
definition Max_wosize :: uintnat where "Max_wosize = push_bit 54 1 - 1"

section \<open>Representation lemmas\<close>

lemma Is_block_iff: "Is_block x \<longleftrightarrow> \<not> Is_long x"
  by (simp add: Is_long_def Is_block_def)

lemma Is_long_bit: "Is_long x \<longleftrightarrow> odd x"
  by (simp add: Is_long_def and_one_eq odd_iff_mod_2_eq_one)

lemma Is_long_Val_long [simp]: "Is_long (Val_long x)"
  by (simp add: Is_long_bit Val_long_def push_bit_eq_mult)

lemma Long_limits: "sint Min_long = - (2 ^ 62)" "sint Max_long = 2 ^ 62 - 1"
  by (simp_all add: Min_long_def Max_long_def)

lemma Val_long_of_int: "Val_long x = word_of_int (2 * sint x + 1)"
  by (simp add: Val_long_def push_bit_eq_mult)

lemma sint_Val_long:
  assumes "sint Min_long \<le> sint x" "sint x \<le> sint Max_long"
  shows "sint (Val_long x) = 2 * sint x + 1"
  unfolding Val_long_of_int using assms by (intro sint_word_of_int_64) (simp_all add: Long_limits)

lemma sint_Long_val: "sint (Long_val v) = sint v div 2"
  by (simp add: Long_val_def sint_signed_drop_bit_eq drop_bit_eq_div)

lemma Long_val_Val_long [simp]:
  assumes "sint Min_long \<le> sint x" "sint x \<le> sint Max_long"
  shows "Long_val (Val_long x) = x"
proof -
  have "sint (Long_val (Val_long x)) = (2 * sint x + 1) div 2"
    unfolding sint_Long_val sint_Val_long [OF assms] ..
  also have "\<dots> = sint x" by simp
  finally show ?thesis by (simp add: signed_word_eqI)
qed

lemma Val_long_Long_val: "Is_long v \<Longrightarrow> Val_long (Long_val v) = v"
  unfolding Val_long_of_int sint_Long_val by (simp add: Is_long_bit flip: odd_sint)

lemma Long_val_range: "sint Min_long \<le> sint (Long_val v)" "sint (Long_val v) \<le> sint Max_long"
  using sint_greater_eq [of v] sint_less [of v] by (simp_all add: Long_limits sint_Long_val)

lemma Color_hd_unat: "unat (Color_hd h) = unat h div 256 mod 4 * 256"
proof -
  have b: "Caml_black = push_bit 8 (mask 2)" by (simp add: Caml_black_def mask_eq_exp_minus_1 push_bit_eq_mult)
  have c: "Color_hd h = push_bit 8 (take_bit 2 (drop_bit 8 h))"
    unfolding Color_hd_def b by (rule bit_eqI) (auto simp: bit_simps)
  show ?thesis
    unfolding c by (simp add: unat_push_bit unsigned_take_bit_eq unat_drop_bit take_bit_eq_mod unat_word_ariths)
qed

lemma Tag_hd_unat: "unat (Tag_hd h) = unat h mod 256"
proof -
  have "h AND 0xFF = h AND mask 8" by (simp add: mask_eq_exp_minus_1)
  then show ?thesis by (simp only: Tag_hd_def unat_ucast unat_and_mask) simp
qed

lemma Make_header_unat:
  assumes "unat wosize < 2 ^ 54" "unat tag < 256" "unat color = 256 * c" "c < 4"
  shows "unat (Make_header wosize tag color) = 1024 * unat wosize + 256 * c + unat tag"
proof -
  have p: "unat (push_bit 10 wosize) = unat wosize * 2 ^ 10"
    by (rule unat_push_bit_exact) (use assms(1) in simp)
  have t: "unat (ucast tag :: 64 word) = unat tag" using assms(2) by (simp add: unat_ucast)
  have 1: "unat (push_bit 10 wosize + color) = unat wosize * 2 ^ 10 + 256 * c"
    unfolding assms(3)[symmetric] p [symmetric] by (rule unat_add_exact) (use assms p in simp)
  show ?thesis unfolding Make_header_def
    by (subst unat_add_exact) (use assms 1 t in simp_all)
qed

lemma header_fields:
  assumes "wosize \<le> Max_wosize" "tag < 256" "color \<in> {Caml_white, Caml_gray, Caml_blue, Caml_black}"
  shows "Wosize_hd (Make_header wosize tag color) = wosize"
    and "Tag_hd (Make_header wosize tag color) = tag"
    and "Color_hd (Make_header wosize tag color) = color"
proof -
  have w: "unat wosize < 2 ^ 54" using assms(1) by (simp add: Max_wosize_def word_le_nat_alt)
  have t: "unat tag < 256" using assms(2) by (simp add: word_less_nat_alt)
  obtain c where c: "unat color = 256 * c" "c < 4"
    using assms(3) by (auto simp: Caml_white_def Caml_gray_def Caml_blue_def Caml_black_def)
  note u = Make_header_unat [OF w t c]
  show "Wosize_hd (Make_header wosize tag color) = wosize"
    using t c(2) by (simp add: word_unat_eq_iff Wosize_hd_def unat_drop_bit u)
  have sp: "1024 * unat wosize + 256 * c + unat tag = unat tag + 256 * (4 * unat wosize + c)" by simp
  have "(unat tag + 256 * (4 * unat wosize + c)) mod 256 = unat tag" using t by (simp only: mod_mult_self2) simp
  then show "Tag_hd (Make_header wosize tag color) = tag"
    by (simp add: word_unat_eq_iff Tag_hd_unat u sp del: distrib_left_numeral)
  have "(unat tag + 256 * (4 * unat wosize + c)) div 256 = 4 * unat wosize + c"
    using t by simp
  then have "(unat tag + 256 * (4 * unat wosize + c)) div 256 mod 4 = c" using c(2) by simp
  then show "Color_hd (Make_header wosize tag color) = color"
    using c(1) by (simp add: word_unat_eq_iff Color_hd_unat u sp del: distrib_left_numeral)
qed

section \<open>Bytes inside words\<close>

lemma and7_lt: "unat (p AND 7 :: 64 word) < 8"
proof -
  have "7 = (mask 3 :: 64 word)" by (simp add: mask_eq_exp_minus_1)
  then show ?thesis by (simp only: unat_and_mask) simp
qed

lemma split_addr: "p = (p AND NOT 7) + (p AND 7)" for p :: "64 word"
proof -
  have "(p AND NOT 7) + (p AND 7) = (p AND NOT 7) OR (p AND 7)"
    by (rule disjunctive_add_eq_or) (rule bit_eqI, auto simp: bit_simps)
  also have "\<dots> = p" by (rule bit_eqI) (auto simp: bit_simps)
  finally show ?thesis by simp
qed

lemma ff_mask: "(0xFF :: 64 word) = mask 8"
  by (simp add: mask_eq_exp_minus_1)

lemma byte_insert_same:
  fixes w :: "64 word"
  assumes "a < 8"
  shows "ucast (drop_bit (8 * a) ((w AND NOT (push_bit (8 * a) 0xFF)) OR push_bit (8 * a) (ucast c))) = (c :: u8)"
  unfolding ff_mask by (rule bit_eqI) (use assms in \<open>auto simp: bit_simps\<close>)

lemma byte_insert_other:
  assumes "a < 8" "b < 8" "a \<noteq> b"
  shows "(ucast (drop_bit (8 * b) ((w AND NOT (push_bit (8 * a) 0xFF)) OR push_bit (8 * a) (ucast (c :: u8)) :: 64 word)) :: u8)
       = ucast (drop_bit (8 * b) w)"
proof (unfold ff_mask, rule bit_eqI)
  fix n assume "possible_bit TYPE(8 word) n"
  then have n: "n < 8" by simp
  have "\<not> (8 * a \<le> 8 * b + n \<and> 8 * b + n - 8 * a < 8)" using assms n by linarith
  then show "bit (ucast (drop_bit (8 * b) ((w AND NOT (push_bit (8 * a) (mask 8))) OR push_bit (8 * a) (ucast c))) :: u8) n
      \<longleftrightarrow> bit (ucast (drop_bit (8 * b) w) :: u8) n"
    using n assms by (auto simp: bit_simps dest: bit_imp_le_length)
qed

lemma Byte_u_set_same: "Byte_u (Byte_u_set h x i c) x i = c"
  using byte_insert_same [OF and7_lt [of "x + i"]] by (simp add: Byte_u_def Byte_u_set_def Let_def)

lemma Byte_u_set_other:
  assumes "x + i \<noteq> y + j"
  shows "Byte_u (Byte_u_set h x i c) y j = Byte_u h y j"
proof (cases "(x + i) AND NOT 7 = (y + j) AND NOT 7")
  case True
  then have "(x + i) AND 7 \<noteq> (y + j) AND 7" using assms split_addr by metis
  then have "unat ((x + i) AND 7) \<noteq> unat ((y + j) AND 7)" by (simp add: word_unat_eq_iff)
  with byte_insert_other [OF and7_lt and7_lt this] True show ?thesis
    by (simp add: Byte_u_def Byte_u_set_def Let_def)
next
  case False
  then show ?thesis by (simp add: Byte_u_def Byte_u_set_def Let_def)
qed

lemma aligned_byte:
  assumes "p AND 7 = 0" "r < 8"
  shows "(p + of_nat r) AND 7 = (of_nat r :: 64 word)" "(p + of_nat r) AND NOT 7 = (p :: 64 word)"
proof -
  have m: "7 = (mask 3 :: 64 word)" by (simp add: mask_eq_exp_minus_1)
  have r: "(of_nat r :: 64 word) AND 7 = of_nat r"
    using assms(2) by (simp only: m word_unat_eq_iff unat_and_mask) (simp add: unat_of_nat)
  have b: "\<not> (bit p n \<and> bit (7 :: 64 word) n)" "bit (of_nat r :: 64 word) n \<longrightarrow> bit (7 :: 64 word) n" for n
    using arg_cong [OF assms(1), of "\<lambda>w. bit w n"] arg_cong [OF r, of "\<lambda>w. bit w n"] by (auto simp: bit_and_iff)
  have "p AND of_nat r = 0"
  proof (rule bit_eqI)
    fix n show "bit (p AND of_nat r) n \<longleftrightarrow> bit (0 :: 64 word) n" using b [of n] by (auto simp: bit_and_iff)
  qed
  then have o: "p + of_nat r = p OR of_nat r" by (rule disjunctive_add_eq_or)
  show "(p + of_nat r) AND 7 = (of_nat r :: 64 word)" unfolding o
  proof (rule bit_eqI)
    fix n show "bit ((p OR of_nat r) AND 7) n \<longleftrightarrow> bit (of_nat r :: 64 word) n"
      using b [of n] by (auto simp: bit_and_iff bit_or_iff)
  qed
  show "(p + of_nat r) AND NOT 7 = p" unfolding o
  proof (rule bit_eqI)
    fix n assume "possible_bit TYPE(64 word) n"
    then show "bit ((p OR of_nat r) AND NOT 7) n \<longleftrightarrow> bit p n"
      unfolding bit_and_iff bit_or_iff bit_not_iff using b [of n] by blast
  qed
qed

lemma Byte_u_aligned:
  assumes "(x + 8 * j) AND 7 = 0" "r < 8"
  shows "Byte_u h x (8 * j + of_nat r) = ucast (drop_bit (8 * r) (h (x + 8 * j)))"
proof -
  have e: "x + (8 * j + of_nat r) = (x + 8 * j) + of_nat r" by simp
  show ?thesis unfolding Byte_u_def Let_def e aligned_byte [OF assms]
    using assms(2) by (simp add: unat_of_nat)
qed

lemma word_eq_bytes:
  fixes v w :: "64 word"
  assumes "\<And>r. r < 8 \<Longrightarrow> (ucast (drop_bit (8 * r) v) :: u8) = ucast (drop_bit (8 * r) w)"
  shows "v = w"
proof (rule bit_eqI)
  fix n assume "possible_bit TYPE(64 word) n"
  then have n: "n div 8 < 8" "8 * (n div 8) + n mod 8 = n" by (simp_all add: less_mult_imp_div_less)
  from arg_cong [OF assms [OF n(1)], of "\<lambda>b. bit b (n mod 8)"] show "bit v n \<longleftrightarrow> bit w n"
    by (simp add: bit_simps n(2))
qed

section \<open>Properties\<close>

lemma scast_int: "sint (scast (n :: cint) :: intnat) = sint n"
  using sint_ge [of n] sint_lt [of n]
  by (simp add: signed_scast_eq signed_take_bit_int_eq_self)

lemma sint_Val_int: "sint (Val_int x) = 2 * sint x + 1"
  unfolding Val_int_def using sint_Val_long [of "scast x"] sint_less [of x] sint_greater_eq [of x]
  by (simp add: Long_limits scast_int)

lemma ucast_scast_32: "ucast (scast (i :: 32 word) :: intnat) = i"
  by (rule bit_eqI) (auto simp: bit_simps)

lemma Int_val_Val_int [simp]: "Int_val (Val_int x) = x"
proof -
  have "Long_val (Val_int x) = scast x"
    unfolding Val_int_def using sint_less [of x] sint_greater_eq [of x]
    by (intro Long_val_Val_long) (simp_all add: Long_limits scast_int)
  then show ?thesis by (simp add: Int_val_def ucast_scast_32)
qed

lemma Val_int_inj: "Val_int a = Val_int b \<longleftrightarrow> a = b"
  by (metis Int_val_Val_int)

lemma Val_bool_inj [simp]: "Val_bool a = Val_bool b \<longleftrightarrow> a = b"
  by (auto simp: Val_bool_def Val_int_inj)

text \<open>C28: A block header packs size, tag and colour without interference: each of the
  three accessors recovers the component \<open>Make_header\<close> was given.\<close>
theorem Make_header_roundtrip:
  assumes "wosize \<le> Max_wosize" and "tag < 256" and "color \<in> {Caml_white, Caml_gray, Caml_blue, Caml_black}"
  shows "Wosize_hd (Make_header wosize tag color) = wosize \<and> Tag_hd (Make_header wosize tag color) = tag
    \<and> Color_hd (Make_header wosize tag color) = color"
  using header_fields [OF assms] by blast

theorem Make_header_roundtrip_witness:
  "Wosize_hd (Make_header 5 String_tag Caml_blue) = 5 \<and> Tag_hd (Make_header 5 String_tag Caml_blue) = String_tag
    \<and> Color_hd (Make_header 5 String_tag Caml_blue) = Caml_blue"
  by (rule Make_header_roundtrip) (simp_all add: Max_wosize_def String_tag_def)

text \<open>C29: Tagging and untagging integers are inverse: an integer between \<open>Min_long\<close> and
  \<open>Max_long\<close> survives \<open>Val_long\<close> and \<open>Long_val\<close>, the result is never taken for a
  block, and every value with the tag bit is the image of an integer in that range.\<close>
theorem Val_long_bijection:
  "bij_betw Val_long {x. sint Min_long \<le> sint x \<and> sint x \<le> sint Max_long} {v. \<not> Is_block v}"
proof (rule bij_betw_byWitness [where f' = Long_val])
  show "Long_val ` {v. \<not> Is_block v} \<subseteq> {x. sint Min_long \<le> sint x \<and> sint x \<le> sint Max_long}"
    using Long_val_range by blast
qed (auto simp: Is_block_iff Val_long_Long_val)

end
