(* ===== verification/Serial.thy ===== *)
theory Serial
  imports Mlvalues
begin

text \<open>
  The byte-level layer of marshalling: the output buffer and the integer writers of
  \<open>byterun/extern.c\<close>, the integer readers of \<open>byterun/intern.c\<close>, and the encoding of
  immediate integers.  The output buffer is a chain of blocks of which only the last one
  has room; a buffer supplied by the user does not grow.  A reader takes the bytes that
  remain from \<open>intern_src\<close> on; it has the value \<^const>\<open>None\<close> where the C code would read
  past the end of the input.
\<close>

section \<open>Output buffer\<close>

definition SIZE_EXTERN_OUTPUT_BLOCK :: nat where "SIZE_EXTERN_OUTPUT_BLOCK = 8100"

record extern_output =
  out_closed :: "u8 list"
  out_data :: "u8 list"
  out_room :: nat
  out_userprovided :: bool

definition init_extern_output :: extern_output where
  "init_extern_output =
     \<lparr> out_closed = [], out_data = [], out_room = SIZE_EXTERN_OUTPUT_BLOCK, out_userprovided = False \<rparr>"

definition grow_extern_output :: "nat \<Rightarrow> extern_output \<Rightarrow> exn + extern_output" where
  "grow_extern_output required b =
     (if out_userprovided b then Inl (Failure ''Marshal.to_buffer: buffer overflow'')
      else let extra = (if required \<le> SIZE_EXTERN_OUTPUT_BLOCK div 2 then 0 else required)
           in Inr (b\<lparr> out_closed := out_closed b @ out_data b, out_data := [],
                      out_room := SIZE_EXTERN_OUTPUT_BLOCK + extra \<rparr>))"

definition writeblock :: "u8 list \<Rightarrow> extern_output \<Rightarrow> exn + extern_output" where
  "writeblock bs b =
     (case (if out_room b < length bs then grow_extern_output (length bs) b else Inr b) of
        Inl e \<Rightarrow> Inl e
      | Inr b \<Rightarrow> Inr (b\<lparr> out_data := out_data b @ bs, out_room := out_room b - length bs \<rparr>))"

definition extern_bytes :: "extern_output \<Rightarrow> u8 list" where
  "extern_bytes b = out_closed b @ out_data b"

definition extern_output_length :: "extern_output \<Rightarrow> nat" where
  "extern_output_length b = length (out_closed b) + length (out_data b)"

section \<open>Writing integers\<close>

definition byte_of :: "nat \<Rightarrow> 'a::len word \<Rightarrow> u8" where
  "byte_of k v = ucast (signed_drop_bit k v)"

definition Write :: "u32 \<Rightarrow> extern_output \<Rightarrow> exn + extern_output" where
  "Write c = writeblock [ucast c]"

definition writecode8 :: "u32 \<Rightarrow> intnat \<Rightarrow> extern_output \<Rightarrow> exn + extern_output" where
  "writecode8 code v = writeblock [ucast code, byte_of 0 v]"

definition writecode16 :: "u32 \<Rightarrow> intnat \<Rightarrow> extern_output \<Rightarrow> exn + extern_output" where
  "writecode16 code v = writeblock [ucast code, byte_of 8 v, byte_of 0 v]"

definition write32 :: "intnat \<Rightarrow> extern_output \<Rightarrow> exn + extern_output" where
  "write32 v = writeblock [byte_of 24 v, byte_of 16 v, byte_of 8 v, byte_of 0 v]"

definition writecode32 :: "u32 \<Rightarrow> intnat \<Rightarrow> extern_output \<Rightarrow> exn + extern_output" where
  "writecode32 code v = writeblock [ucast code, byte_of 24 v, byte_of 16 v, byte_of 8 v, byte_of 0 v]"

definition writecode64 :: "u32 \<Rightarrow> intnat \<Rightarrow> extern_output \<Rightarrow> exn + extern_output" where
  "writecode64 code v = writeblock (ucast code # map (\<lambda>i. byte_of i v) [56, 48, 40, 32, 24, 16, 8, 0])"

definition caml_serialize_int_1 :: "cint \<Rightarrow> extern_output \<Rightarrow> exn + extern_output" where
  "caml_serialize_int_1 i = writeblock [ucast i]"

definition caml_serialize_int_2 :: "cint \<Rightarrow> extern_output \<Rightarrow> exn + extern_output" where
  "caml_serialize_int_2 i = writeblock [byte_of 8 i, byte_of 0 i]"

definition caml_serialize_int_4 :: "32 word \<Rightarrow> extern_output \<Rightarrow> exn + extern_output" where
  "caml_serialize_int_4 i = writeblock [byte_of 24 i, byte_of 16 i, byte_of 8 i, byte_of 0 i]"

definition le_bytes :: "nat \<Rightarrow> 'a::len word \<Rightarrow> u8 list" where
  "le_bytes n w = map (\<lambda>k. ucast (drop_bit (8 * k) w)) [0..<n]"

fun Reverse_16 :: "u8 list \<Rightarrow> u8 list" where
  "Reverse_16 [p0, p1] = [p1, p0]"
| "Reverse_16 p = p"

fun Reverse_32 :: "u8 list \<Rightarrow> u8 list" where
  "Reverse_32 [p0, p1, p2, p3] = [p3, p2, p1, p0]"
| "Reverse_32 p = p"

fun Reverse_64 :: "u8 list \<Rightarrow> u8 list" where
  "Reverse_64 [p0, p1, p2, p3, p4, p5, p6, p7] = [p7, p6, p5, p4, p3, p2, p1, p0]"
| "Reverse_64 p = p"

definition caml_serialize_block_1 :: "u8 list \<Rightarrow> extern_output \<Rightarrow> exn + extern_output" where
  "caml_serialize_block_1 data = writeblock data"

definition caml_serialize_block_2 :: "16 word list \<Rightarrow> extern_output \<Rightarrow> exn + extern_output" where
  "caml_serialize_block_2 data = writeblock (concat (map (\<lambda>w. Reverse_16 (le_bytes 2 w)) data))"

definition caml_serialize_block_4 :: "32 word list \<Rightarrow> extern_output \<Rightarrow> exn + extern_output" where
  "caml_serialize_block_4 data = writeblock (concat (map (\<lambda>w. Reverse_32 (le_bytes 4 w)) data))"

definition caml_serialize_block_8 :: "64 word list \<Rightarrow> extern_output \<Rightarrow> exn + extern_output" where
  "caml_serialize_block_8 data = writeblock (concat (map (\<lambda>w. Reverse_64 (le_bytes 8 w)) data))"

definition caml_serialize_int_8 :: "64 word \<Rightarrow> extern_output \<Rightarrow> exn + extern_output" where
  "caml_serialize_int_8 i = caml_serialize_block_8 [i]"

section \<open>Reading integers\<close>

definition Sign_extend :: "u8 \<Rightarrow> intnat" where
  "Sign_extend x = signed_drop_bit 56 (push_bit 56 (ucast x))"

fun read8u :: "u8 list \<Rightarrow> (intnat \<times> u8 list) option" where
  "read8u (b # src) = Some (ucast b, src)"
| "read8u [] = None"

fun read8s :: "u8 list \<Rightarrow> (intnat \<times> u8 list) option" where
  "read8s (b # src) = Some (Sign_extend b, src)"
| "read8s [] = None"

fun read16u :: "u8 list \<Rightarrow> (intnat \<times> u8 list) option" where
  "read16u (b0 # b1 # src) = Some (push_bit 8 (ucast b0) + ucast b1, src)"
| "read16u _ = None"

fun read16s :: "u8 list \<Rightarrow> (intnat \<times> u8 list) option" where
  "read16s (b0 # b1 # src) = Some (push_bit 8 (Sign_extend b0) + ucast b1, src)"
| "read16s _ = None"

fun read32u :: "u8 list \<Rightarrow> (intnat \<times> u8 list) option" where
  "read32u (b0 # b1 # b2 # b3 # src) =
     Some (push_bit 24 (ucast b0) + push_bit 16 (ucast b1) + push_bit 8 (ucast b2) + ucast b3, src)"
| "read32u _ = None"

fun read32s :: "u8 list \<Rightarrow> (intnat \<times> u8 list) option" where
  "read32s (b0 # b1 # b2 # b3 # src) =
     Some (push_bit 24 (Sign_extend b0) + push_bit 16 (ucast b1) + push_bit 8 (ucast b2) + ucast b3, src)"
| "read32s _ = None"

definition read64s :: "u8 list \<Rightarrow> (intnat \<times> u8 list) option" where
  "read64s src =
     (if length src < 8 then None
      else Some (foldl (\<lambda>res b. push_bit 8 res + ucast b) 0 (take 8 src), drop 8 src))"

definition of_le_bytes :: "u8 list \<Rightarrow> 'a::len word" where
  "of_le_bytes bs = foldr (\<lambda>b w. ucast b + push_bit 8 w) bs 0"

fun caml_deserialize_block_2 :: "nat \<Rightarrow> u8 list \<Rightarrow> (16 word list \<times> u8 list) option" where
  "caml_deserialize_block_2 0 src = Some ([], src)"
| "caml_deserialize_block_2 (Suc len) src =
     (if length src < 2 then None
      else case caml_deserialize_block_2 len (drop 2 src) of
             None \<Rightarrow> None
           | Some (ws, src') \<Rightarrow> Some (of_le_bytes (Reverse_16 (take 2 src)) # ws, src'))"

fun caml_deserialize_block_4 :: "nat \<Rightarrow> u8 list \<Rightarrow> (32 word list \<times> u8 list) option" where
  "caml_deserialize_block_4 0 src = Some ([], src)"
| "caml_deserialize_block_4 (Suc len) src =
     (if length src < 4 then None
      else case caml_deserialize_block_4 len (drop 4 src) of
             None \<Rightarrow> None
           | Some (ws, src') \<Rightarrow> Some (of_le_bytes (Reverse_32 (take 4 src)) # ws, src'))"

fun caml_deserialize_block_8 :: "nat \<Rightarrow> u8 list \<Rightarrow> (64 word list \<times> u8 list) option" where
  "caml_deserialize_block_8 0 src = Some ([], src)"
| "caml_deserialize_block_8 (Suc len) src =
     (if length src < 8 then None
      else case caml_deserialize_block_8 len (drop 8 src) of
             None \<Rightarrow> None
           | Some (ws, src') \<Rightarrow> Some (of_le_bytes (Reverse_64 (take 8 src)) # ws, src'))"

definition caml_deserialize_uint_1 :: "u8 list \<Rightarrow> (cint \<times> u8 list) option" where
  "caml_deserialize_uint_1 src = map_option (\<lambda>(v, src). (ucast v, src)) (read8u src)"

definition caml_deserialize_sint_1 :: "u8 list \<Rightarrow> (cint \<times> u8 list) option" where
  "caml_deserialize_sint_1 src = map_option (\<lambda>(v, src). (ucast v, src)) (read8s src)"

definition caml_deserialize_uint_2 :: "u8 list \<Rightarrow> (cint \<times> u8 list) option" where
  "caml_deserialize_uint_2 src = map_option (\<lambda>(v, src). (ucast v, src)) (read16u src)"

definition caml_deserialize_sint_2 :: "u8 list \<Rightarrow> (cint \<times> u8 list) option" where
  "caml_deserialize_sint_2 src = map_option (\<lambda>(v, src). (ucast v, src)) (read16s src)"

definition caml_deserialize_uint_4 :: "u8 list \<Rightarrow> (32 word \<times> u8 list) option" where
  "caml_deserialize_uint_4 src = map_option (\<lambda>(v, src). (ucast v, src)) (read32u src)"

definition caml_deserialize_sint_4 :: "u8 list \<Rightarrow> (32 word \<times> u8 list) option" where
  "caml_deserialize_sint_4 src = map_option (\<lambda>(v, src). (ucast v, src)) (read32s src)"

definition caml_deserialize_sint_8 :: "u8 list \<Rightarrow> (64 word \<times> u8 list) option" where
  "caml_deserialize_sint_8 src = map_option (\<lambda>(ws, src). (ws ! 0, src)) (caml_deserialize_block_8 1 src)"

section \<open>Immediate integers\<close>

definition PREFIX_SMALL_BLOCK :: u32 where "PREFIX_SMALL_BLOCK = 0x80"
definition PREFIX_SMALL_INT :: u32 where "PREFIX_SMALL_INT = 0x40"
definition PREFIX_SMALL_STRING :: u32 where "PREFIX_SMALL_STRING = 0x20"
definition CODE_INT8 :: u32 where "CODE_INT8 = 0"
definition CODE_INT16 :: u32 where "CODE_INT16 = 1"
definition CODE_INT32 :: u32 where "CODE_INT32 = 2"
definition CODE_INT64 :: u32 where "CODE_INT64 = 3"

definition extern_long :: "value_t \<Rightarrow> extern_output \<Rightarrow> exn + extern_output" where
  "extern_long v =
     (let n = Long_val v
      in if 0 \<le> sint n \<and> sint n < 0x40 then Write (PREFIX_SMALL_INT + ucast n)
         else if - (2 ^ 7) \<le> sint n \<and> sint n < 2 ^ 7 then writecode8 CODE_INT8 n
         else if - (2 ^ 15) \<le> sint n \<and> sint n < 2 ^ 15 then writecode16 CODE_INT16 n
         else if sint n < - (2 ^ 31) \<or> 2 ^ 31 \<le> sint n then writecode64 CODE_INT64 n
         else writecode32 CODE_INT32 n)"

definition intern_long :: "u8 list \<Rightarrow> (value_t \<times> u8 list) option" where
  "intern_long src =
     (case read8u src of
        None \<Rightarrow> None
      | Some (c, src) \<Rightarrow>
          (let code = ucast c :: u32
           in if code \<ge> PREFIX_SMALL_INT then
                if code \<ge> PREFIX_SMALL_BLOCK then None
                else Some (Val_int (code AND 0x3F), src)
              else if code = CODE_INT8 then map_option (\<lambda>(x, src). (Val_long x, src)) (read8s src)
              else if code = CODE_INT16 then map_option (\<lambda>(x, src). (Val_long x, src)) (read16s src)
              else if code = CODE_INT32 then map_option (\<lambda>(x, src). (Val_long x, src)) (read32s src)
              else if code = CODE_INT64 then map_option (\<lambda>(x, src). (Val_long x, src)) (read64s src)
              else None))"

section \<open>Round trips\<close>

lemma writeblock_append:
  "writeblock bs b = Inr b' \<Longrightarrow> extern_bytes b' = extern_bytes b @ bs \<and> out_userprovided b' = out_userprovided b"
  by (auto simp: writeblock_def grow_extern_output_def extern_bytes_def Let_def split: if_splits)

lemma writeblock_fails:
  "writeblock bs b = Inl e \<Longrightarrow>
     out_userprovided b \<and> out_room b < length bs \<and> e = Failure ''Marshal.to_buffer: buffer overflow''"
  by (auto simp: writeblock_def grow_extern_output_def Let_def split: if_splits)

lemma extern_output_length_bytes: "extern_output_length b = length (extern_bytes b)"
  by (simp add: extern_output_length_def extern_bytes_def)

lemma join_byte:
  fixes v :: "64 word"
  assumes "k + 8 \<le> 63"
  shows "push_bit 8 (signed_drop_bit (k + 8) v) + ucast (byte_of k v) = signed_drop_bit k v"
proof -
  have "push_bit 8 (signed_drop_bit (k + 8) v) + ucast (byte_of k v)
      = push_bit 8 (signed_drop_bit (k + 8) v) OR ucast (byte_of k v)"
    by (rule disjunctive_add_eq_or) (rule bit_eqI, auto simp: byte_of_def bit_simps)
  also have "\<dots> = signed_drop_bit k v"
    using assms by (intro bit_eqI) (auto simp: byte_of_def bit_simps not_less not_le)
  finally show ?thesis .
qed

lemma join_byte_unsigned:
  fixes v :: "64 word"
  assumes "k + 8 \<le> 64"
  shows "push_bit 8 (drop_bit (k + 8) v) + ucast (byte_of k v) = drop_bit k v"
proof -
  have "push_bit 8 (drop_bit (k + 8) v) + ucast (byte_of k v)
      = push_bit 8 (drop_bit (k + 8) v) OR ucast (byte_of k v)"
    by (rule disjunctive_add_eq_or) (rule bit_eqI, auto simp: byte_of_def bit_simps)
  also have "\<dots> = drop_bit k v"
    using assms by (intro bit_eqI) (auto simp: byte_of_def bit_simps not_less not_le dest: bit_imp_le_length)
  finally show ?thesis .
qed

lemma Sign_extend_scast: "Sign_extend b = scast b"
proof (rule bit_eqI)
  fix n
  show "bit (Sign_extend b) n = bit (scast b :: intnat) n"
    by (cases "n = 7") (auto simp: Sign_extend_def bit_simps min_def)
qed

lemma small_signed_bits:
  fixes w :: "64 word"
  assumes "- (2 ^ k) \<le> sint w" "sint w < 2 ^ k" "k \<le> n" "n < 64"
  shows "bit w n \<longleftrightarrow> bit w k"
proof -
  have eq: "signed_take_bit k (sint w) = sint w"
    using assms(1,2) by (rule signed_take_bit_int_eq_self)
  have "bit (signed_take_bit k (sint w)) n \<longleftrightarrow> bit (sint w) k"
    using assms(3) by (simp add: bit_signed_take_bit_iff min_def)
  then have "bit (sint w) n \<longleftrightarrow> bit (sint w) k" unfolding eq .
  then show ?thesis using assms(3,4) by (auto simp: bit_sint_iff)
qed

lemma Sign_extend_byte:
  fixes v :: intnat
  assumes "- 128 \<le> sint (signed_drop_bit k v)" "sint (signed_drop_bit k v) < 128"
  shows "Sign_extend (byte_of k v) = signed_drop_bit k v"
proof (rule bit_eqI)
  fix n
  let ?w = "signed_drop_bit k v"
  assume "possible_bit TYPE(64 word) n"
  then have n: "n < 64" by simp
  have "bit (Sign_extend (byte_of k v)) n \<longleftrightarrow> bit ?w (if n < 8 then n else 7)"
    using n unfolding Sign_extend_scast byte_of_def bit_word_scast_iff bit_unsigned_iff by auto
  then show "bit (Sign_extend (byte_of k v)) n \<longleftrightarrow> bit ?w n"
    using small_signed_bits [of 7 ?w n] assms n by auto
qed

lemma sint_signed_drop: "sint (signed_drop_bit k (v :: intnat)) = sint v div 2 ^ k"
  by (simp add: sint_signed_drop_bit_eq drop_bit_eq_div)

lemma Sign_extend_top:
  fixes v :: intnat
  assumes "- (2 ^ (k + 7)) \<le> sint v" "sint v < 2 ^ (k + 7)"
  shows "Sign_extend (byte_of k v) = signed_drop_bit k v"
proof (rule Sign_extend_byte; unfold sint_signed_drop)
  have "- 128 * 2 ^ k \<le> sint v" using assms(1) by (simp add: power_add ac_simps)
  then have le: "- 128 * 2 ^ k div 2 ^ k \<le> sint v div 2 ^ k" by (intro zdiv_mono1) simp_all
  have "- 128 * 2 ^ k div 2 ^ k = (- 128 :: int)" by (rule nonzero_mult_div_cancel_right) simp
  with le show "- 128 \<le> sint v div 2 ^ k" by (simp only:)
  have "sint v < 128 * 2 ^ k" using assms(2) by (simp add: power_add ac_simps)
  moreover have "sint v div 2 ^ k * 2 ^ k \<le> sint v"
    using div_mult_mod_eq [of "sint v" "2 ^ k"] pos_mod_sign [OF zero_less_power [of 2 k], of "sint v"] by linarith
  ultimately have "sint v div 2 ^ k * 2 ^ k < 128 * 2 ^ k" by linarith
  then show "sint v div 2 ^ k < 128" by (rule mult_right_less_imp_less) simp
qed

lemma read8s_byte: "- (2 ^ 7) \<le> sint v \<Longrightarrow> sint v < 2 ^ 7 \<Longrightarrow> read8s (byte_of 0 v # src) = Some (v, src)"
  using Sign_extend_top [of 0 v] by simp

lemma read16s_bytes:
  "- (2 ^ 15) \<le> sint v \<Longrightarrow> sint v < 2 ^ 15 \<Longrightarrow> read16s (byte_of 8 v # byte_of 0 v # src) = Some (v, src)"
  using Sign_extend_top [of 8 v] join_byte [of 0 v] by simp

lemma read32s_bytes:
  assumes "- (2 ^ 31) \<le> sint v" "sint v < 2 ^ 31"
  shows "read32s (byte_of 24 v # byte_of 16 v # byte_of 8 v # byte_of 0 v # src) = Some (v, src)"
proof -
  have "push_bit 24 (Sign_extend (byte_of 24 v)) + push_bit 16 (ucast (byte_of 16 v))
      + push_bit 8 (ucast (byte_of 8 v)) + ucast (byte_of 0 v)
    = push_bit 8 (push_bit 8 (push_bit 8 (signed_drop_bit 24 v) + ucast (byte_of 16 v)) + ucast (byte_of 8 v))
      + ucast (byte_of 0 v)"
    using Sign_extend_top [of 24 v] assms by (simp add: push_bit_add)
  also have "\<dots> = v" using join_byte [of 16 v] join_byte [of 8 v] join_byte [of 0 v] by simp
  finally show ?thesis by simp
qed


lemma read64s_bytes:
  "read64s (map (\<lambda>i. byte_of i v) [56, 48, 40, 32, 24, 16, 8, 0] @ src) = Some (v, src)"
proof -
  have top: "drop_bit 64 v = 0" by (rule bit_eqI) (auto simp: bit_simps dest: bit_imp_le_length)
  note step = join_byte_unsigned [of 56 v] join_byte_unsigned [of 48 v] join_byte_unsigned [of 40 v]
    join_byte_unsigned [of 32 v] join_byte_unsigned [of 24 v] join_byte_unsigned [of 16 v]
    join_byte_unsigned [of 8 v] join_byte_unsigned [of 0 v]
  have "foldl (\<lambda>res b. push_bit 8 res + ucast b) (drop_bit 64 v) (map (\<lambda>i. byte_of i v) [56, 48, 40, 32, 24, 16, 8, 0]) = v"
    using step by simp
  then show ?thesis unfolding top by (simp add: read64s_def)
qed


lemma read32u_bytes:
  assumes "unat v < 2 ^ 32"
  shows "read32u (byte_of 24 v # byte_of 16 v # byte_of 8 v # byte_of 0 v # src) = Some (v, src)"
proof -
  have top: "drop_bit 32 v = 0" using assms by (simp add: word_unat_eq_iff unat_drop_bit)
  have "push_bit 24 (ucast (byte_of 24 v)) + push_bit 16 (ucast (byte_of 16 v))
      + push_bit 8 (ucast (byte_of 8 v)) + ucast (byte_of 0 v)
    = push_bit 8 (push_bit 8 (push_bit 8 (push_bit 8 (drop_bit 32 v) + ucast (byte_of 24 v)) + ucast (byte_of 16 v))
        + ucast (byte_of 8 v)) + ucast (byte_of 0 v)"
    unfolding top by (simp add: push_bit_add)
  also have "\<dots> = v"
    using join_byte_unsigned [of 24 v] join_byte_unsigned [of 16 v] join_byte_unsigned [of 8 v] join_byte_unsigned [of 0 v]
    by simp
  finally show ?thesis by simp
qed

lemma Write_small: "0 \<le> sint n \<Longrightarrow> sint n < 0x40 \<Longrightarrow>
   intern_long (ucast (PREFIX_SMALL_INT + ucast (n :: intnat)) # src) = Some (Val_long n, src)"
proof -
  assume r: "0 \<le> sint n" "sint n < 0x40"
  define k where "k = nat (sint n)"
  define code :: u32 where "code = PREFIX_SMALL_INT + ucast n"
  have n: "n = of_nat k" "k < 64" using r unfolding k_def by simp_all
  have c: "unat code = 64 + k"
    using n(2) by (simp add: n(1) code_def PREFIX_SMALL_INT_def unat_word_ariths unat_ucast unat_of_nat)
  have c8: "ucast (ucast (ucast code :: u8) :: intnat) = code"
    using c n(2) by (simp add: word_unat_eq_iff unat_ucast)
  have "0x3F = (mask 6 :: u32)" by (simp add: mask_eq_exp_minus_1)
  then have low: "unat (code AND 0x3F) = k" using n(2) by (simp only: unat_and_mask c) simp
  have "scast (code AND 0x3F) = n"
  proof -
    have "sint (code AND 0x3F) = int k" using low n(2) by (simp add: sint_uint uint_nat signed_take_bit_int_eq_self)
    then show ?thesis using n(2) by (simp add: n(1) scast_eq)
  qed
  moreover have "PREFIX_SMALL_INT \<le> code" "\<not> PREFIX_SMALL_BLOCK \<le> code"
    using c n(2) by (simp_all add: word_le_nat_alt PREFIX_SMALL_INT_def PREFIX_SMALL_BLOCK_def)
  ultimately show ?thesis unfolding code_def [symmetric] by (simp add: intern_long_def c8 Val_int_def)
qed

lemma extern_long_cases:
  assumes "Is_long v"
  shows "\<exists>bs. extern_long v = writeblock bs \<and> (\<forall>src. intern_long (bs @ src) = Some (v, src))"
proof -
  let ?n = "Long_val v"
  have v: "Val_long ?n = v" by (rule Val_long_Long_val [OF assms])
  consider "0 \<le> sint ?n" "sint ?n < 0x40"
    | "\<not> (0 \<le> sint ?n \<and> sint ?n < 0x40)" "- (2 ^ 7) \<le> sint ?n" "sint ?n < 2 ^ 7"
    | "\<not> (- (2 ^ 7) \<le> sint ?n \<and> sint ?n < 2 ^ 7)" "- (2 ^ 15) \<le> sint ?n" "sint ?n < 2 ^ 15"
    | "\<not> (- (2 ^ 15) \<le> sint ?n \<and> sint ?n < 2 ^ 15)" "sint ?n < - (2 ^ 31) \<or> 2 ^ 31 \<le> sint ?n"
    | "\<not> (- (2 ^ 15) \<le> sint ?n \<and> sint ?n < 2 ^ 15)" "- (2 ^ 31) \<le> sint ?n" "sint ?n < 2 ^ 31"
    by linarith
  then show ?thesis
  proof cases
    case 1
    then have "extern_long v = writeblock [ucast (PREFIX_SMALL_INT + ucast ?n)]" (is "_ = writeblock ?bs")
      by (auto simp: extern_long_def Write_def Let_def)
    then show ?thesis using Write_small [OF 1] v by (intro exI [of _ ?bs]) simp
  next
    case 2
    then have "extern_long v = writeblock [ucast CODE_INT8, byte_of 0 ?n]" (is "_ = writeblock ?bs")
      by (auto simp: extern_long_def writecode8_def Let_def)
    then show ?thesis using read8s_byte [OF 2(2,3)] v
      by (intro exI [of _ ?bs]) (simp add: intern_long_def CODE_INT8_def PREFIX_SMALL_INT_def word_le_nat_alt)
  next
    case 3
    then have "extern_long v = writeblock [ucast CODE_INT16, byte_of 8 ?n, byte_of 0 ?n]" (is "_ = writeblock ?bs")
      by (auto simp: extern_long_def writecode16_def Let_def)
    then show ?thesis using read16s_bytes [OF 3(2,3)] v
      by (intro exI [of _ ?bs]) (simp add: intern_long_def CODE_INT16_def CODE_INT8_def PREFIX_SMALL_INT_def word_le_nat_alt)
  next
    case 4
    then have "extern_long v = writeblock (ucast CODE_INT64 # map (\<lambda>i. byte_of i ?n) [56, 48, 40, 32, 24, 16, 8, 0])" (is "_ = writeblock ?bs")
      by (auto simp: extern_long_def writecode64_def Let_def)
    then show ?thesis using read64s_bytes [of ?n] v
      by (intro exI [of _ ?bs]) (simp add: intern_long_def CODE_INT64_def CODE_INT32_def CODE_INT16_def CODE_INT8_def PREFIX_SMALL_INT_def word_le_nat_alt)
  next
    case 5
    then have "extern_long v = writeblock [ucast CODE_INT32, byte_of 24 ?n, byte_of 16 ?n, byte_of 8 ?n, byte_of 0 ?n]" (is "_ = writeblock ?bs")
      by (auto simp: extern_long_def writecode32_def Let_def)
    then show ?thesis using read32s_bytes [OF 5(2,3)] v
      by (intro exI [of _ ?bs]) (simp add: intern_long_def CODE_INT32_def CODE_INT16_def CODE_INT8_def PREFIX_SMALL_INT_def word_le_nat_alt)
  qed
qed

lemma le_bytes_Suc: "le_bytes (Suc n) w = ucast w # le_bytes n (drop_bit 8 w)"
  unfolding le_bytes_def upt_conv_Cons [OF zero_less_Suc] map_Suc_upt [symmetric]
  by (simp add: ac_simps)

lemma of_le_bytes_le_bytes: "of_le_bytes (le_bytes n w) = take_bit (8 * n) (w :: 'a::len word)"
proof (induction n arbitrary: w)
  case 0
  then show ?case by (simp add: le_bytes_def of_le_bytes_def)
next
  case (Suc n)
  have "of_le_bytes (le_bytes (Suc n) w) = ucast (ucast w :: u8) + push_bit 8 (take_bit (8 * n) (drop_bit 8 w))"
    using Suc.IH [of "drop_bit 8 w"] by (simp add: le_bytes_Suc of_le_bytes_def)
  also have "\<dots> = ucast (ucast w :: u8) OR push_bit 8 (take_bit (8 * n) (drop_bit 8 w))"
    by (rule disjunctive_add_eq_or) (rule bit_eqI, auto simp: bit_simps)
  also have "\<dots> = take_bit (8 * Suc n) w"
    by (rule bit_eqI) (auto simp: bit_simps)
  finally show ?case .
qed

lemma Reverse_inverse:
  "length p = 2 \<Longrightarrow> Reverse_16 (Reverse_16 p) = p" "length q = 4 \<Longrightarrow> Reverse_32 (Reverse_32 q) = q"
  "length r = 8 \<Longrightarrow> Reverse_64 (Reverse_64 r) = r"
  by (auto simp: numeral_eq_Suc length_Suc_conv)

lemma Reverse_16_length: "length (Reverse_16 p) = length p"
  by (induction p rule: Reverse_16.induct) simp_all

lemma Reverse_32_length: "length (Reverse_32 p) = length p"
  by (induction p rule: Reverse_32.induct) simp_all

lemma Reverse_64_length: "length (Reverse_64 p) = length p"
  by (induction p rule: Reverse_64.induct) simp_all

lemmas Reverse_length = Reverse_16_length Reverse_32_length Reverse_64_length

lemma length_le_bytes [simp]: "length (le_bytes n w) = n"
  by (simp add: le_bytes_def)

lemma deserialize_block_8_bytes:
  "caml_deserialize_block_8 (length ws) (concat (map (\<lambda>w. Reverse_64 (le_bytes 8 w)) ws) @ src) = Some (ws, src)"
  by (induction ws) (simp_all add: Reverse_length Reverse_inverse of_le_bytes_le_bytes take_bit_word_eq_self)

lemma deserialize_block_4_bytes:
  "caml_deserialize_block_4 (length ws) (concat (map (\<lambda>w. Reverse_32 (le_bytes 4 w)) ws) @ src) = Some (ws, src)"
  by (induction ws) (simp_all add: Reverse_length Reverse_inverse of_le_bytes_le_bytes take_bit_word_eq_self)

lemma deserialize_block_2_bytes:
  "caml_deserialize_block_2 (length ws) (concat (map (\<lambda>w. Reverse_16 (le_bytes 2 w)) ws) @ src) = Some (ws, src)"
  by (induction ws) (simp_all add: Reverse_length Reverse_inverse of_le_bytes_le_bytes take_bit_word_eq_self)

text \<open>C30: Marshalling an immediate integer appends an encoding that unmarshalling reads back
  to the same value, whichever of the five encodings its magnitude selects, and reads
  no byte beyond it.\<close>
theorem marshal_long_roundtrip:
  assumes "Is_long v" and "extern_long v b = Inr b'"
  shows "\<exists>bs. extern_bytes b' = extern_bytes b @ bs \<and> intern_long (bs @ src) = Some (v, src)"
proof -
  from extern_long_cases [OF assms(1)] obtain bs where
    bs: "extern_long v = writeblock bs" "\<forall>src. intern_long (bs @ src) = Some (v, src)" by blast
  with assms(2) writeblock_append [of bs b b'] show ?thesis by auto
qed

theorem marshal_long_roundtrip_witness:
  "\<exists>bs. extern_bytes \<lparr> out_closed = [], out_data = [0x45], out_room = 8099, out_userprovided = False \<rparr> = [] @ bs
     \<and> intern_long (bs @ [7]) = Some (11, [7])"
proof -
  have l: "Is_long 11" by (simp add: Is_long_def)
  have "Long_val 11 = 5" using Long_val_Val_long [of 5] by (simp add: Val_long_def Long_limits)
  then have e: "extern_long 11 init_extern_output =
      Inr \<lparr> out_closed = [], out_data = [0x45], out_room = 8099, out_userprovided = False \<rparr>"
    by (simp add: extern_long_def Write_def writeblock_def init_extern_output_def SIZE_EXTERN_OUTPUT_BLOCK_def
        PREFIX_SMALL_INT_def Let_def)
  show ?thesis using marshal_long_roundtrip [OF l e] by (simp add: extern_bytes_def init_extern_output_def)
qed

text \<open>C31: Blocks of 16-, 32- and 64-bit integers written by the byte-swapping serialisers are
  read back unchanged by the matching deserialisers, for any number of elements and any
  state of the output buffer.\<close>
theorem serialize_blocks_roundtrip:
  "(caml_serialize_block_8 w8 b = Inr b' \<longrightarrow>
      caml_deserialize_block_8 (length w8) (drop (extern_output_length b) (extern_bytes b') @ src) = Some (w8, src))
   \<and> (caml_serialize_block_4 w4 b = Inr b' \<longrightarrow>
      caml_deserialize_block_4 (length w4) (drop (extern_output_length b) (extern_bytes b') @ src) = Some (w4, src))
   \<and> (caml_serialize_block_2 w2 b = Inr b' \<longrightarrow>
      caml_deserialize_block_2 (length w2) (drop (extern_output_length b) (extern_bytes b') @ src) = Some (w2, src))"
  by (auto simp: caml_serialize_block_8_def caml_serialize_block_4_def caml_serialize_block_2_def
      extern_output_length_bytes dest!: writeblock_append
      intro: deserialize_block_8_bytes deserialize_block_4_bytes deserialize_block_2_bytes)

theorem serialize_blocks_roundtrip_witness:
  "caml_serialize_block_2 [0x102] init_extern_output
     = Inr \<lparr> out_closed = [], out_data = [1, 2], out_room = 8098, out_userprovided = False \<rparr>
   \<and> caml_deserialize_block_2 1 ([1, 2] @ [9]) = Some ([0x102], [9])"
proof -
  have e: "caml_serialize_block_2 [0x102] init_extern_output
     = Inr \<lparr> out_closed = [], out_data = [1, 2], out_room = 8098, out_userprovided = False \<rparr>"
    by (simp add: caml_serialize_block_2_def writeblock_def init_extern_output_def SIZE_EXTERN_OUTPUT_BLOCK_def
        le_bytes_def upt_rec drop_bit_eq_div)
  have "caml_deserialize_block_2 (length [0x102 :: 16 word]) (drop (extern_output_length init_extern_output) (extern_bytes
      \<lparr> out_closed = [], out_data = [1, 2], out_room = 8098, out_userprovided = False \<rparr>) @ [9]) = Some ([0x102], [9])"
    using e serialize_blocks_roundtrip [of "[]" init_extern_output _ "[9]" "[]" "[0x102]"] by blast
  then show ?thesis
    using e by (simp add: extern_bytes_def extern_output_length_def init_extern_output_def
        del: caml_deserialize_block_2.simps)
qed

end
