(* ===== verification/Ints.thy ===== *)
theory Ints
  imports Serial "HOL-Library.Signed_Division"
begin

text \<open>
  The integer primitives of \<open>byterun/ints.c\<close>: reading integers from strings, choosing a
  format buffer, and the arithmetic of \<open>int\<close>, \<open>Int32\<close>, \<open>Int64\<close> and \<open>Nativeint\<close> on a
  64-bit machine with a native 64-bit integer type (\<open>byterun/int64_native.h\<close>).  A boxed
  integer is modelled by its contents; allocation of the box is left out.  A Caml string
  is a list of characters, and the byte after its last character is the terminating
  null character the C code relies on.
\<close>

section \<open>Reading integers\<close>

type_synonym int32_t = "32 word"
type_synonym int64_t = "64 word"

fun peek :: "string \<Rightarrow> char" where
  "peek [] = CHR 0x00"
| "peek (c # _) = c"

definition parse_sign_and_base :: "string \<Rightarrow> int \<times> int \<times> string" where
  "parse_sign_and_base p =
     (let (sign, p) = (if peek p = CHR ''-'' then (-1, tl p) else (1, p));
          c = peek (tl p);
          (base, p) = (if peek p \<noteq> CHR ''0'' then (10, p)
                       else if c = CHR ''x'' \<or> c = CHR ''X'' then (16, drop 2 p)
                       else if c = CHR ''o'' \<or> c = CHR ''O'' then (8, drop 2 p)
                       else if c = CHR ''b'' \<or> c = CHR ''B'' then (2, drop 2 p)
                       else (10, p))
      in (base, sign, p))"

definition parse_digit :: "char \<Rightarrow> int" where
  "parse_digit ch =
     (let c = of_char ch :: int
      in if of_char (CHR ''0'') \<le> c \<and> c \<le> of_char (CHR ''9'') then c - of_char (CHR ''0'')
         else if of_char (CHR ''A'') \<le> c \<and> c \<le> of_char (CHR ''F'') then c - of_char (CHR ''A'') + 10
         else if of_char (CHR ''a'') \<le> c \<and> c \<le> of_char (CHR ''f'') then c - of_char (CHR ''a'') + 10
         else -1)"

fun parse_intnat_loop :: "int \<Rightarrow> uintnat \<Rightarrow> string \<Rightarrow> uintnat \<Rightarrow> exn + (uintnat \<times> string)" where
  "parse_intnat_loop base threshold [] res = Inr (res, [])"
| "parse_intnat_loop base threshold (c # p) res =
     (if c = CHR ''_'' then parse_intnat_loop base threshold p res
      else let d = parse_digit c
           in if d < 0 \<or> d \<ge> base then Inr (res, c # p)
              else if res > threshold then Inl (Failure ''int_of_string'')
              else let res = of_int base * res + of_int d
                   in if res < of_int d then Inl (Failure ''int_of_string'')
                      else parse_intnat_loop base threshold p res)"

definition parse_intnat :: "string \<Rightarrow> nat \<Rightarrow> exn + intnat" where
  "parse_intnat s nbits =
     (let (base, sign, p) = parse_sign_and_base s;
          threshold = (- 1) div of_int base;
          d = parse_digit (peek p)
      in if d < 0 \<or> d \<ge> base then Inl (Failure ''int_of_string'')
         else case parse_intnat_loop base threshold (tl p) (of_int d) of
                Inl e \<Rightarrow> Inl e
              | Inr (res, p) \<Rightarrow>
                  if p \<noteq> [] then Inl (Failure ''int_of_string'')
                  else if (if base = 10
                           then (if sign \<ge> 0 then res \<ge> push_bit (nbits - 1) 1
                                 else res > push_bit (nbits - 1) 1)
                           else nbits < 64 \<and> res \<ge> push_bit nbits 1)
                       then Inl (Failure ''int_of_string'')
                       else Inr (if sign < 0 then - res else res))"

definition caml_int_of_string :: "string \<Rightarrow> exn + value_t" where
  "caml_int_of_string s = map_sum id Val_long (parse_intnat s 63)"

definition caml_int32_of_string :: "string \<Rightarrow> exn + int32_t" where
  "caml_int32_of_string s = map_sum id ucast (parse_intnat s 32)"

definition caml_nativeint_of_string :: "string \<Rightarrow> exn + intnat" where
  "caml_nativeint_of_string s = parse_intnat s 64"

definition caml_int64_of_string :: "string \<Rightarrow> exn + int64_t" where
  "caml_int64_of_string s =
     (let max_uint64 = 0xFFFFFFFFFFFFFFFF;
          max_int64_pos = 0x7FFFFFFFFFFFFFFF;
          max_int64_neg = 0x8000000000000000;
          (base, sign, p) = parse_sign_and_base s;
          threshold = max_uint64 div of_int base;
          d = parse_digit (peek p)
      in if d < 0 \<or> d \<ge> base then Inl (Failure ''int_of_string'')
         else case parse_intnat_loop base threshold (tl p) (of_int d) of
                Inl e \<Rightarrow> Inl e
              | Inr (res, p) \<Rightarrow>
                  if p \<noteq> [] then Inl (Failure ''int_of_string'')
                  else if base = 10 \<and> (if sign \<ge> 0 then max_int64_pos else max_int64_neg) < res
                       then Inl (Failure ''int_of_string'')
                       else Inr (if sign < 0 then - res else res))"

section \<open>Format buffers\<close>

definition FORMAT_BUFFER_SIZE :: nat where "FORMAT_BUFFER_SIZE = 32"

definition is_digit :: "char \<Rightarrow> bool" where
  "is_digit c \<longleftrightarrow> of_char (CHR ''0'') \<le> (of_char c :: int) \<and> (of_char c :: int) \<le> of_char (CHR ''9'')"

definition atoi :: "string \<Rightarrow> nat" where
  "atoi p = foldl (\<lambda>n c. 10 * n + (of_char c - 48)) 0 (takeWhile is_digit p)"

fun parse_format_prec :: "string \<Rightarrow> nat" where
  "parse_format_prec [] = 22 + 5"
| "parse_format_prec (c # p) =
     (if c = CHR 0x00 then 22 + 5
      else if is_digit c then atoi (c # p) + 5 else parse_format_prec p)"

text \<open>The result is the format passed to \<open>sprintf\<close>, the size in bytes of the buffer it is
  to print into, and the conversion letter; \<^const>\<open>None\<close> where the C code reads before the
  start of its local array.\<close>

definition parse_format :: "string \<Rightarrow> string \<Rightarrow> (exn + string \<times> nat \<times> char) option" where
  "parse_format fmt suffix =
     (let len = length fmt
      in if len + length suffix + 1 \<ge> FORMAT_BUFFER_SIZE
         then Some (Inl (Invalid_argument ''format_int: format too long''))
         else if len < 2 then None
         else let lastletter = fmt ! (len - 1);
                  prev = fmt ! (len - 2);
                  p = (if prev = CHR ''l'' \<or> prev = CHR ''n'' \<or> prev = CHR ''L'' then len - 2 else len - 1);
                  prec = parse_format_prec fmt
              in Some (Inr (take p fmt @ suffix @ [lastletter],
                            if prec < FORMAT_BUFFER_SIZE then FORMAT_BUFFER_SIZE else prec + 1,
                            lastletter)))"

section \<open>Tagged integers\<close>

definition int_of_bool :: "bool \<Rightarrow> cint" where "int_of_bool b = (if b then 1 else 0)"

definition caml_int_compare :: "value_t \<Rightarrow> value_t \<Rightarrow> value_t" where
  "caml_int_compare v1 v2 = Val_int (int_of_bool (sint v1 > sint v2) - int_of_bool (sint v1 < sint v2))"

section \<open>32-bit integers\<close>

definition int32_cmp :: "int32_t \<Rightarrow> int32_t \<Rightarrow> cint" where
  "int32_cmp i1 i2 = int_of_bool (sint i1 > sint i2) - int_of_bool (sint i1 < sint i2)"

definition int32_hash :: "int32_t \<Rightarrow> intnat" where "int32_hash v = scast v"

definition int32_serialize :: "int32_t \<Rightarrow> extern_output \<Rightarrow> exn + (extern_output \<times> uintnat \<times> uintnat)" where
  "int32_serialize v b = map_sum id (\<lambda>b. (b, 4, 4)) (caml_serialize_int_4 v b)"

definition int32_deserialize :: "u8 list \<Rightarrow> (int32_t \<times> uintnat \<times> u8 list) option" where
  "int32_deserialize src = map_option (\<lambda>(i, src). (i, 4, src)) (caml_deserialize_sint_4 src)"

definition caml_int32_neg :: "int32_t \<Rightarrow> int32_t" where "caml_int32_neg v = - v"
definition caml_int32_add :: "int32_t \<Rightarrow> int32_t \<Rightarrow> int32_t" where "caml_int32_add v1 v2 = v1 + v2"
definition caml_int32_sub :: "int32_t \<Rightarrow> int32_t \<Rightarrow> int32_t" where "caml_int32_sub v1 v2 = v1 - v2"
definition caml_int32_mul :: "int32_t \<Rightarrow> int32_t \<Rightarrow> int32_t" where "caml_int32_mul v1 v2 = v1 * v2"

definition caml_int32_div :: "int32_t \<Rightarrow> int32_t \<Rightarrow> exn + int32_t" where
  "caml_int32_div dividend divisor =
     (if divisor = 0 then Inl Zero_divide
      else if dividend = push_bit 31 1 \<and> divisor = - 1 then Inr dividend
      else Inr (word_of_int (sint dividend sdiv sint divisor)))"

definition caml_int32_mod :: "int32_t \<Rightarrow> int32_t \<Rightarrow> exn + int32_t" where
  "caml_int32_mod dividend divisor =
     (if divisor = 0 then Inl Zero_divide
      else if dividend = push_bit 31 1 \<and> divisor = - 1 then Inr 0
      else Inr (word_of_int (sint dividend smod sint divisor)))"

definition caml_int32_and :: "int32_t \<Rightarrow> int32_t \<Rightarrow> int32_t" where "caml_int32_and v1 v2 = v1 AND v2"
definition caml_int32_or :: "int32_t \<Rightarrow> int32_t \<Rightarrow> int32_t" where "caml_int32_or v1 v2 = v1 OR v2"
definition caml_int32_xor :: "int32_t \<Rightarrow> int32_t \<Rightarrow> int32_t" where "caml_int32_xor v1 v2 = v1 XOR v2"
definition caml_int32_shift_left :: "int32_t \<Rightarrow> value_t \<Rightarrow> int32_t" where
  "caml_int32_shift_left v1 v2 = push_bit (unat (Int_val v2)) v1"
definition caml_int32_shift_right :: "int32_t \<Rightarrow> value_t \<Rightarrow> int32_t" where
  "caml_int32_shift_right v1 v2 = signed_drop_bit (unat (Int_val v2)) v1"
definition caml_int32_shift_right_unsigned :: "int32_t \<Rightarrow> value_t \<Rightarrow> int32_t" where
  "caml_int32_shift_right_unsigned v1 v2 = drop_bit (unat (Int_val v2)) v1"
definition caml_int32_of_int :: "value_t \<Rightarrow> int32_t" where "caml_int32_of_int v = ucast (Long_val v)"
definition caml_int32_to_int :: "int32_t \<Rightarrow> value_t" where "caml_int32_to_int v = Val_long (scast v)"
definition caml_int32_compare :: "int32_t \<Rightarrow> int32_t \<Rightarrow> value_t" where
  "caml_int32_compare i1 i2 = Val_int (int_of_bool (sint i1 > sint i2) - int_of_bool (sint i1 < sint i2))"

section \<open>64-bit integers\<close>

definition int64_cmp :: "int64_t \<Rightarrow> int64_t \<Rightarrow> cint" where
  "int64_cmp i1 i2 = int_of_bool (sint i1 > sint i2) - int_of_bool (sint i1 < sint i2)"

definition int64_hash :: "int64_t \<Rightarrow> intnat" where "int64_hash v = v"

definition int64_serialize :: "int64_t \<Rightarrow> extern_output \<Rightarrow> exn + (extern_output \<times> uintnat \<times> uintnat)" where
  "int64_serialize v b = map_sum id (\<lambda>b. (b, 8, 8)) (caml_serialize_int_8 v b)"

definition int64_deserialize :: "u8 list \<Rightarrow> (int64_t \<times> uintnat \<times> u8 list) option" where
  "int64_deserialize src = map_option (\<lambda>(i, src). (i, 8, src)) (caml_deserialize_sint_8 src)"

definition caml_int64_neg :: "int64_t \<Rightarrow> int64_t" where "caml_int64_neg v = - v"
definition caml_int64_add :: "int64_t \<Rightarrow> int64_t \<Rightarrow> int64_t" where "caml_int64_add v1 v2 = v1 + v2"
definition caml_int64_sub :: "int64_t \<Rightarrow> int64_t \<Rightarrow> int64_t" where "caml_int64_sub v1 v2 = v1 - v2"
definition caml_int64_mul :: "int64_t \<Rightarrow> int64_t \<Rightarrow> int64_t" where "caml_int64_mul v1 v2 = v1 * v2"

definition caml_int64_div :: "int64_t \<Rightarrow> int64_t \<Rightarrow> exn + int64_t" where
  "caml_int64_div dividend divisor =
     (if divisor = 0 then Inl Zero_divide
      else if dividend = push_bit 63 1 \<and> divisor = - 1 then Inr dividend
      else Inr (word_of_int (sint dividend sdiv sint divisor)))"

definition caml_int64_mod :: "int64_t \<Rightarrow> int64_t \<Rightarrow> exn + int64_t" where
  "caml_int64_mod dividend divisor =
     (if divisor = 0 then Inl Zero_divide
      else if dividend = push_bit 63 1 \<and> divisor = - 1 then Inr 0
      else Inr (word_of_int (sint dividend smod sint divisor)))"

definition caml_int64_and :: "int64_t \<Rightarrow> int64_t \<Rightarrow> int64_t" where "caml_int64_and v1 v2 = v1 AND v2"
definition caml_int64_or :: "int64_t \<Rightarrow> int64_t \<Rightarrow> int64_t" where "caml_int64_or v1 v2 = v1 OR v2"
definition caml_int64_xor :: "int64_t \<Rightarrow> int64_t \<Rightarrow> int64_t" where "caml_int64_xor v1 v2 = v1 XOR v2"
definition caml_int64_shift_left :: "int64_t \<Rightarrow> value_t \<Rightarrow> int64_t" where
  "caml_int64_shift_left v1 v2 = push_bit (unat (Int_val v2)) v1"
definition caml_int64_shift_right :: "int64_t \<Rightarrow> value_t \<Rightarrow> int64_t" where
  "caml_int64_shift_right v1 v2 = signed_drop_bit (unat (Int_val v2)) v1"
definition caml_int64_shift_right_unsigned :: "int64_t \<Rightarrow> value_t \<Rightarrow> int64_t" where
  "caml_int64_shift_right_unsigned v1 v2 = drop_bit (unat (Int_val v2)) v1"
definition caml_int64_of_int :: "value_t \<Rightarrow> int64_t" where "caml_int64_of_int v = Long_val v"
definition caml_int64_to_int :: "int64_t \<Rightarrow> value_t" where "caml_int64_to_int v = Val_long v"
definition caml_int64_of_int32 :: "int32_t \<Rightarrow> int64_t" where "caml_int64_of_int32 v = scast v"
definition caml_int64_to_int32 :: "int64_t \<Rightarrow> int32_t" where "caml_int64_to_int32 v = ucast v"
definition caml_int64_of_nativeint :: "intnat \<Rightarrow> int64_t" where "caml_int64_of_nativeint v = v"
definition caml_int64_to_nativeint :: "int64_t \<Rightarrow> intnat" where "caml_int64_to_nativeint v = v"
definition caml_int64_compare :: "int64_t \<Rightarrow> int64_t \<Rightarrow> value_t" where
  "caml_int64_compare i1 i2 = Val_int (int_of_bool (sint i1 > sint i2) - int_of_bool (sint i1 < sint i2))"

section \<open>Native integers\<close>

definition nativeint_cmp :: "intnat \<Rightarrow> intnat \<Rightarrow> cint" where
  "nativeint_cmp i1 i2 = int_of_bool (sint i1 > sint i2) - int_of_bool (sint i1 < sint i2)"

definition nativeint_hash :: "intnat \<Rightarrow> intnat" where "nativeint_hash v = v"

definition nativeint_serialize :: "intnat \<Rightarrow> extern_output \<Rightarrow> exn + (extern_output \<times> uintnat \<times> uintnat)" where
  "nativeint_serialize l b =
     map_sum id (\<lambda>b. (b, 4, 8))
       (if sint l \<le> 0x7FFFFFFF \<and> sint l \<ge> - 0x80000000
        then case caml_serialize_int_1 1 b of
               Inl e \<Rightarrow> Inl e
             | Inr b \<Rightarrow> caml_serialize_int_4 (ucast l) b
        else case caml_serialize_int_1 2 b of
               Inl e \<Rightarrow> Inl e
             | Inr b \<Rightarrow> caml_serialize_int_8 l b)"

definition nativeint_deserialize :: "u8 list \<Rightarrow> (exn + intnat \<times> uintnat \<times> u8 list) option" where
  "nativeint_deserialize src =
     (case caml_deserialize_uint_1 src of
        None \<Rightarrow> None
      | Some (c, src) \<Rightarrow>
          if c = 1 then map_option (\<lambda>(i, src). Inr (scast i, 8, src)) (caml_deserialize_sint_4 src)
          else if c = 2 then map_option (\<lambda>(i, src). Inr (i, 8, src)) (caml_deserialize_sint_8 src)
          else Some (Inl (Failure ''input_value: ill-formed native integer'')))"

definition caml_nativeint_neg :: "intnat \<Rightarrow> intnat" where "caml_nativeint_neg v = - v"
definition caml_nativeint_add :: "intnat \<Rightarrow> intnat \<Rightarrow> intnat" where "caml_nativeint_add v1 v2 = v1 + v2"
definition caml_nativeint_sub :: "intnat \<Rightarrow> intnat \<Rightarrow> intnat" where "caml_nativeint_sub v1 v2 = v1 - v2"
definition caml_nativeint_mul :: "intnat \<Rightarrow> intnat \<Rightarrow> intnat" where "caml_nativeint_mul v1 v2 = v1 * v2"
definition Nativeint_min_int :: intnat where "Nativeint_min_int = push_bit 63 1"

definition caml_nativeint_div :: "intnat \<Rightarrow> intnat \<Rightarrow> exn + intnat" where
  "caml_nativeint_div dividend divisor =
     (if divisor = 0 then Inl Zero_divide
      else if dividend = Nativeint_min_int \<and> divisor = - 1 then Inr dividend
      else Inr (word_of_int (sint dividend sdiv sint divisor)))"

definition caml_nativeint_mod :: "intnat \<Rightarrow> intnat \<Rightarrow> exn + intnat" where
  "caml_nativeint_mod dividend divisor =
     (if divisor = 0 then Inl Zero_divide
      else if dividend = Nativeint_min_int \<and> divisor = - 1 then Inr 0
      else Inr (word_of_int (sint dividend smod sint divisor)))"

definition caml_nativeint_and :: "intnat \<Rightarrow> intnat \<Rightarrow> intnat" where "caml_nativeint_and v1 v2 = v1 AND v2"
definition caml_nativeint_or :: "intnat \<Rightarrow> intnat \<Rightarrow> intnat" where "caml_nativeint_or v1 v2 = v1 OR v2"
definition caml_nativeint_xor :: "intnat \<Rightarrow> intnat \<Rightarrow> intnat" where "caml_nativeint_xor v1 v2 = v1 XOR v2"
definition caml_nativeint_shift_left :: "intnat \<Rightarrow> value_t \<Rightarrow> intnat" where
  "caml_nativeint_shift_left v1 v2 = push_bit (unat (Int_val v2)) v1"
definition caml_nativeint_shift_right :: "intnat \<Rightarrow> value_t \<Rightarrow> intnat" where
  "caml_nativeint_shift_right v1 v2 = signed_drop_bit (unat (Int_val v2)) v1"
definition caml_nativeint_shift_right_unsigned :: "intnat \<Rightarrow> value_t \<Rightarrow> intnat" where
  "caml_nativeint_shift_right_unsigned v1 v2 = drop_bit (unat (Int_val v2)) v1"
definition caml_nativeint_of_int :: "value_t \<Rightarrow> intnat" where "caml_nativeint_of_int v = Long_val v"
definition caml_nativeint_to_int :: "intnat \<Rightarrow> value_t" where "caml_nativeint_to_int v = Val_long v"
definition caml_nativeint_of_int32 :: "int32_t \<Rightarrow> intnat" where "caml_nativeint_of_int32 v = scast v"
definition caml_nativeint_to_int32 :: "intnat \<Rightarrow> int32_t" where "caml_nativeint_to_int32 v = ucast v"
definition caml_nativeint_compare :: "intnat \<Rightarrow> intnat \<Rightarrow> value_t" where
  "caml_nativeint_compare i1 i2 = Val_int (int_of_bool (sint i1 > sint i2) - int_of_bool (sint i1 < sint i2))"

section \<open>Reference definitions\<close>

text \<open>Reading over unbounded integers, and decimal printing.\<close>

fun ref_digits :: "int \<Rightarrow> string \<Rightarrow> int \<Rightarrow> int \<times> string" where
  "ref_digits base [] n = (n, [])"
| "ref_digits base (c # p) n =
     (if c = CHR ''_'' then ref_digits base p n
      else if parse_digit c < 0 \<or> parse_digit c \<ge> base then (n, c # p)
      else ref_digits base p (base * n + parse_digit c))"

definition ref_parse :: "string \<Rightarrow> nat \<Rightarrow> exn + int" where
  "ref_parse s nbits =
     (let (base, sign, p) = parse_sign_and_base s;
          d = parse_digit (peek p);
          (m, q) = ref_digits base (tl p) d
      in if 0 \<le> d \<and> d < base \<and> q = []
            \<and> (if base = 10 then - (2 ^ (nbits - 1)) \<le> sign * m \<and> sign * m < 2 ^ (nbits - 1) else m < 2 ^ nbits)
         then Inr (sign * m) else Inl (Failure ''int_of_string''))"

definition digit_char :: "nat \<Rightarrow> char" where "digit_char d = ''0123456789'' ! d"

fun dec :: "nat \<Rightarrow> string" where
  "dec n = (if n < 10 then [digit_char n] else dec (n div 10) @ [digit_char (n mod 10)])"

declare dec.simps [simp del]

definition string_of_int :: "int \<Rightarrow> string" where
  "string_of_int i = (if i < 0 then CHR ''-'' # dec (nat (- i)) else dec (nat i))"

section \<open>Reading is exact\<close>

lemma ref_digits_mono: "2 \<le> base \<Longrightarrow> 0 \<le> n \<Longrightarrow> n \<le> fst (ref_digits base p n)"
proof (induction base p n rule: ref_digits.induct)
  case (2 base c p n)
  have step: "n \<le> base * n + parse_digit c" if "0 \<le> parse_digit c"
    using mult_right_mono [of 1 base n] 2(3,4) that by simp
  show ?case using 2 step by (auto simp: not_less intro: order_trans)
qed simp

lemma int_div_less_iff:
  fixes a b c :: int
  assumes "0 < b"
  shows "a div b < c \<longleftrightarrow> a < c * b"
proof -
  have "c \<le> a div b \<longleftrightarrow> c * b \<le> a"
  proof
    assume "c \<le> a div b"
    then have "c * b \<le> a div b * b" using assms by (intro mult_right_mono) simp_all
    also have "\<dots> \<le> a" using div_mult_mod_eq [of a b] pos_mod_sign [OF assms, of a] by linarith
    finally show "c * b \<le> a" .
  next
    assume "c * b \<le> a"
    then have "c * b div b \<le> a div b" using assms by (rule zdiv_mono1)
    then show "c \<le> a div b" using assms by simp
  qed
  then show ?thesis by linarith
qed

lemma uint_of_int_64: "0 \<le> n \<Longrightarrow> n < 2 ^ 64 \<Longrightarrow> uint (of_int n :: u64) = n"
  by (simp add: uint_word_of_int)

lemma uint_threshold:
  assumes "2 \<le> base" "base \<le> 16"
  shows "uint ((- 1 :: u64) div of_int base) = (2 ^ 64 - 1) div base"
  using assms
  by (simp add: uint_div_distrib uint_word_of_int unsigned_minus_1_eq_mask mask_eq_exp_minus_1)

lemma mult_overflow_check:
  fixes n base :: int
  assumes "2 \<le> base" "base \<le> 16" "0 \<le> n" "n < 2 ^ 64"
  shows "(of_int n :: u64) > (- 1) div of_int base \<longleftrightarrow> 2 ^ 64 \<le> base * n"
proof -
  have b: "0 < base" using assms(1) by simp
  have "(2 ^ 64 - 1) div base < n \<longleftrightarrow> 2 ^ 64 - 1 < n * base"
    by (rule int_div_less_iff [OF b])
  also have "\<dots> \<longleftrightarrow> 2 ^ 64 \<le> base * n" by (auto simp: mult.commute)
  finally show ?thesis
    using assms by (simp add: word_less_def uint_threshold uint_of_int_64 mult.commute)
qed


lemma add_overflow_check:
  fixes n base d :: int
  assumes "0 \<le> n" "base * n < 2 ^ 64" "0 \<le> base * n" "0 \<le> d" "d < 16"
  shows "of_int base * of_int n + of_int d = (of_int (base * n + d) :: u64)"
    and "(of_int (base * n + d) :: u64) < of_int d \<longleftrightarrow> 2 ^ 64 \<le> base * n + d"
proof -
  show "of_int base * of_int n + of_int d = (of_int (base * n + d) :: u64)" by simp
  have d: "uint (of_int d :: u64) = d" using assms by (intro uint_of_int_64) auto
  show "(of_int (base * n + d) :: u64) < of_int d \<longleftrightarrow> 2 ^ 64 \<le> base * n + d"
  proof (cases "base * n + d < 2 ^ 64")
    case True
    then have "uint (of_int (base * n + d) :: u64) = base * n + d" using assms by (intro uint_of_int_64) auto
    then show ?thesis using True d assms by (simp only: word_less_def) simp
  next
    case False
    have "(base * n + d) mod 2 ^ 64 = (base * n + d - 2 ^ 64) mod 2 ^ 64" by simp
    also have "\<dots> = base * n + d - 2 ^ 64" using False assms by (intro mod_pos_pos_trivial) auto
    finally have "uint (of_int (base * n + d) :: u64) = base * n + d - 2 ^ 64"
      by (simp add: uint_word_of_int del: of_int_add of_int_mult)
    then show ?thesis using False d assms by (simp only: word_less_def) simp
  qed
qed

lemma parse_intnat_loop_exact:
  assumes "2 \<le> base" "base \<le> 16"
  shows "0 \<le> n \<Longrightarrow> n < 2 ^ 64 \<Longrightarrow> parse_intnat_loop base ((- 1) div of_int base) p (of_int n) =
    (let (m, q) = ref_digits base p n
     in if m < 2 ^ 64 then Inr (of_int m, q) else Inl (Failure ''int_of_string''))"
proof (induction p arbitrary: n)
  case (Cons c p)
  let ?d = "parse_digit c" and ?fail = "Inl (Failure ''int_of_string'') :: exn + uintnat \<times> string"
  let ?m = "fst (ref_digits base p (base * n + ?d))"
  consider "c = CHR ''_'' \<or> ?d < 0 \<or> ?d \<ge> base"
    | "c \<noteq> CHR ''_''" "0 \<le> ?d" "?d < base" "2 ^ 64 \<le> base * n + ?d"
    | "c \<noteq> CHR ''_''" "0 \<le> ?d" "?d < base" "base * n + ?d < 2 ^ 64" by linarith
  then show ?case
  proof cases
    case 1
    then show ?thesis using Cons by (auto simp: Let_def)
  next
    case 2
    have nn: "0 \<le> base * n" using assms Cons.prems by simp
    have "2 ^ 64 \<le> ?m" using ref_digits_mono [OF assms(1), of "base * n + ?d" p] 2 nn by simp
    moreover have "parse_intnat_loop base ((- 1) div of_int base) (c # p) (of_int n) = ?fail"
    proof (cases "2 ^ 64 \<le> base * n")
      case True
      then show ?thesis using 2 mult_overflow_check [OF assms Cons.prems] by (simp add: Let_def)
    next
      case False
      then show ?thesis
        using 2 mult_overflow_check [OF assms Cons.prems] add_overflow_check [of n base ?d] Cons.prems nn assms
        by (simp add: Let_def)
    qed
    ultimately show ?thesis using 2 by (simp add: case_prod_beta Let_def)
  next
    case 3
    have nn: "0 \<le> base * n" using assms Cons.prems by simp
    then have "parse_intnat_loop base ((- 1) div of_int base) (c # p) (of_int n)
      = parse_intnat_loop base ((- 1) div of_int base) p (of_int (base * n + ?d))"
      using 3 mult_overflow_check [OF assms Cons.prems] add_overflow_check [of n base ?d] Cons.prems assms
      by (simp add: Let_def)
    then show ?thesis using Cons.IH [of "base * n + ?d"] 3 nn by simp
  qed
qed (simp add: Let_def)
lemma parse_sign_and_base_range:
  "parse_sign_and_base s = (base, sign, p) \<Longrightarrow> base \<in> {2, 8, 10, 16} \<and> sign \<in> {- 1, 1}"
  by (auto simp: parse_sign_and_base_def Let_def split: if_splits)

lemma push_one_cmp:
  assumes "k < 64" "0 \<le> m" "m < 2 ^ 64"
  shows "push_bit k 1 \<le> (of_int m :: u64) \<longleftrightarrow> 2 ^ k \<le> m" "push_bit k 1 < (of_int m :: u64) \<longleftrightarrow> 2 ^ k < m"
proof -
  have "(2::int) ^ k < 2 ^ 64" using assms(1) by (intro power_strict_increasing) auto
  then have "uint (push_bit k 1 :: u64) = 2 ^ k" using uint_of_int_64 [of "2 ^ k"] by simp
  then show "push_bit k 1 \<le> (of_int m :: u64) \<longleftrightarrow> 2 ^ k \<le> m" "push_bit k 1 < (of_int m :: u64) \<longleftrightarrow> 2 ^ k < m"
    using uint_of_int_64 [OF assms(2,3)] by (simp_all only: word_le_def word_less_def)
qed

lemma ref_digits_nonneg: "2 \<le> base \<Longrightarrow> 0 \<le> n \<Longrightarrow> ref_digits base p n = (m, q) \<Longrightarrow> 0 \<le> m"
  using ref_digits_mono [of base n p] by simp

lemma parse_range_check:
  assumes "1 \<le> nbits" "nbits \<le> 64" "0 \<le> m" "sign = 1 \<or> sign = - 1"
  shows "m < 2 ^ 64 \<and> \<not> (if base = 10
            then (if sign \<ge> 0 then push_bit (nbits - 1) 1 \<le> (of_int m :: u64) else push_bit (nbits - 1) 1 < (of_int m :: u64))
            else nbits < 64 \<and> push_bit nbits 1 \<le> (of_int m :: u64))
     \<longleftrightarrow> (if base = (10::int) then - (2 ^ (nbits - 1)) \<le> sign * m \<and> sign * m < 2 ^ (nbits - 1) else m < 2 ^ nbits)"
proof (cases "m < 2 ^ 64")
  case True
  have k: "nbits - 1 < 64" using assms by simp
  have neg: "- (2 ^ (nbits - 1)) \<le> m" using assms(3) order_trans [of "- (2 ^ (nbits - 1))" 0 m] by simp
  have pos: "- m < 2 ^ (nbits - 1)" using assms(3) le_less_trans [of "- m" 0 "2 ^ (nbits - 1)"] by simp
  have 10: "base = 10 \<Longrightarrow> ?thesis" using True assms(4) push_one_cmp [OF k assms(3) True] neg pos by auto
  have "base \<noteq> 10 \<Longrightarrow> ?thesis"
  proof (cases "nbits = 64")
    case False
    then have "nbits < 64" using assms(2) by simp
    then show "base \<noteq> 10 \<Longrightarrow> ?thesis" using True push_one_cmp [OF _ assms(3) True, of nbits] by auto
  qed (use True in simp)
  with 10 show ?thesis by blast
next
  case False
  have "(2::int) ^ nbits \<le> 2 ^ 64" "(2::int) ^ (nbits - 1) < 2 ^ 64"
    using assms(1,2) power_increasing [of nbits 64 "2 :: int"] power_strict_increasing [of "nbits - 1" 64 "2 :: int"]
    by simp_all
  then show ?thesis using False assms(4) by auto
qed

lemma parse_intnat_exact:
  assumes "1 \<le> nbits" "nbits \<le> 64"
  shows "parse_intnat s nbits = map_sum id of_int (ref_parse s nbits)"
proof -
  obtain base sign p where b: "parse_sign_and_base s = (base, sign, p)" by (metis prod_cases3)
  let ?d = "parse_digit (peek p)"
  obtain m q where m: "ref_digits base (tl p) ?d = (m, q)" by fastforce
  from parse_sign_and_base_range [OF b] have base: "2 \<le> base" "base \<le> 16" and sign: "sign = 1 \<or> sign = - 1" by auto
  show ?thesis
  proof (cases "0 \<le> ?d \<and> ?d < base")
    case False
    then show ?thesis using b m by (auto simp: parse_intnat_def ref_parse_def)
  next
    case True
    have loop: "parse_intnat_loop base ((- 1) div of_int base) (tl p) (of_int ?d)
        = (if m < 2 ^ 64 then Inr (of_int m, q) else Inl (Failure ''int_of_string''))"
      using parse_intnat_loop_exact [OF base, of ?d "tl p"] True base m by simp
    have m0: "0 \<le> m" using ref_digits_nonneg [OF base(1) _ m] True by simp
    note range = parse_range_check [OF assms m0 sign, of base]
    let ?ok = "if base = 10 then - (2 ^ (nbits - 1)) \<le> sign * m \<and> sign * m < 2 ^ (nbits - 1) else m < 2 ^ nbits"
    have "parse_intnat s nbits = (if q = [] \<and> ?ok then Inr (if sign < 0 then - of_int m else of_int m)
        else Inl (Failure ''int_of_string''))"
      unfolding range [symmetric] using b True loop by (simp add: parse_intnat_def Let_def)
    moreover have "ref_parse s nbits = (if q = [] \<and> ?ok then Inr (sign * m) else Inl (Failure ''int_of_string''))"
      using b m True by (simp add: ref_parse_def)
    ultimately show ?thesis using sign by auto
  qed
qed

lemma caml_int64_of_string_eq: "caml_int64_of_string s = parse_intnat s 64"
proof -
  have max: "(0xFFFFFFFFFFFFFFFF :: u64) = - 1" by simp
  have neg: "(0x8000000000000000 :: u64) = push_bit (64 - 1) 1" by simp
  have pos: "0x7FFFFFFFFFFFFFFF < r \<longleftrightarrow> push_bit (64 - 1) 1 \<le> r" for r :: u64
  proof -
    have "unat (push_bit (64 - 1) 1 :: u64) = Suc 0x7FFFFFFFFFFFFFFF" by simp
    moreover have "unat (0x7FFFFFFFFFFFFFFF :: u64) = 0x7FFFFFFFFFFFFFFF" by simp
    ultimately show ?thesis by (simp only: word_less_nat_alt word_le_nat_alt Suc_le_eq)
  qed
  have if1: "(if x then 0x7FFFFFFFFFFFFFFF else 0x8000000000000000) < r
      \<longleftrightarrow> (if x then push_bit (64 - 1) 1 \<le> r else push_bit (64 - 1) 1 < r)" for x and r :: u64
    by (cases x) (simp_all only: pos neg if_True if_False)
  have conj: "((P \<longrightarrow> Q) \<and> P) = (P \<and> Q)" for P Q by blast
  show ?thesis
    unfolding caml_int64_of_string_def parse_intnat_def Let_def max if1
    by (simp only: less_irrefl simp_thms if_bool_eq_conj conj)
qed

lemma digit_char_props:
  assumes "d < 10"
  shows "parse_digit (digit_char d) = int d" "digit_char d \<noteq> CHR ''_''" "digit_char d \<noteq> CHR ''-''"
    "digit_char d = CHR ''0'' \<longleftrightarrow> d = 0"
    "digit_char d \<notin> {CHR ''x'', CHR ''X'', CHR ''o'', CHR ''O'', CHR ''b'', CHR ''B''}"
proof -
  have "d \<in> {0, 1, 2, 3, 4, 5, 6, 7, 8, 9}" using assms by auto
  then show "parse_digit (digit_char d) = int d" "digit_char d \<noteq> CHR ''_''" "digit_char d \<noteq> CHR ''-''"
    "digit_char d = CHR ''0'' \<longleftrightarrow> d = 0"
    "digit_char d \<notin> {CHR ''x'', CHR ''X'', CHR ''o'', CHR ''O'', CHR ''b'', CHR ''B''}"
    by (auto simp: digit_char_def parse_digit_def Let_def)
qed

lemma ref_digits_snoc:
  "d < 10 \<Longrightarrow> ref_digits 10 p n = (m, []) \<Longrightarrow> ref_digits 10 (p @ [digit_char d]) n = (10 * m + int d, [])"
  by (induction p arbitrary: n) (auto simp: digit_char_props split: if_splits)

lemma ref_digits_dec: "ref_digits 10 (dec n) 0 = (int n, [])"
proof (induction n rule: dec.induct)
  case (1 n)
  show ?case
  proof (cases "n < 10")
    case True
    then show ?thesis by (simp add: dec.simps [of n] digit_char_props)
  next
    case False
    have "ref_digits 10 (dec (n div 10) @ [digit_char (n mod 10)]) 0 = (10 * int (n div 10) + int (n mod 10), [])"
      using 1 False by (intro ref_digits_snoc) auto
    moreover have "10 * int (n div 10) + int (n mod 10) = int n" by presburger
    ultimately show ?thesis using False by (simp add: dec.simps [of n])
  qed
qed

lemma dec_head: "\<exists>d p. dec n = digit_char d # p \<and> d < 10 \<and> (d = 0 \<longrightarrow> p = [])"
proof (induction n rule: dec.induct)
  case (1 n)
  show ?case
  proof (cases "n < 10")
    case False
    then obtain d p where "dec (n div 10) = digit_char d # p" "d < 10" "d = 0 \<longrightarrow> p = []" using 1 by blast
    moreover have "d \<noteq> 0"
    proof
      assume "d = 0"
      then have "dec (n div 10) = [digit_char 0]" using calculation by simp
      then have "int (n div 10) = 0" using ref_digits_dec [of "n div 10"] by (simp add: digit_char_props)
      then show False using False by simp
    qed
    ultimately show ?thesis using False
      by (intro exI [of _ d] exI [of _ "p @ [digit_char (n mod 10)]"]) (simp add: dec.simps [of n])
  qed (auto simp: dec.simps [of n])
qed

lemma ref_parse_dec:
  "parse_sign_and_base (dec n) = (10, 1, dec n)" "parse_sign_and_base (CHR ''-'' # dec n) = (10, - 1, dec n)"
  "ref_digits 10 (tl (dec n)) (parse_digit (peek (dec n))) = (int n, [])"
  "0 \<le> parse_digit (peek (dec n)) \<and> parse_digit (peek (dec n)) < 10"
proof -
  obtain d p where p: "dec n = digit_char d # p" "d < 10" "d = 0 \<longrightarrow> p = []" using dec_head by blast
  show "parse_sign_and_base (dec n) = (10, 1, dec n)" "parse_sign_and_base (CHR ''-'' # dec n) = (10, - 1, dec n)"
    using p by (cases "d = 0"; simp add: parse_sign_and_base_def digit_char_props Let_def)+
  show "ref_digits 10 (tl (dec n)) (parse_digit (peek (dec n))) = (int n, [])"
    using ref_digits_dec [of n] p by (simp add: digit_char_props)
  show "0 \<le> parse_digit (peek (dec n)) \<and> parse_digit (peek (dec n)) < 10" using p by (simp add: digit_char_props)
qed

lemma ref_parse_string_of_int:
  assumes "- (2 ^ (nbits - 1)) \<le> i" "i < 2 ^ (nbits - 1)"
  shows "ref_parse (string_of_int i) nbits = Inr i"
proof (cases "i < 0")
  case True
  then have "int (nat (- i)) = - i" by simp
  then show ?thesis using True assms by (simp add: ref_parse_def string_of_int_def ref_parse_dec)
next
  case False
  then have "int (nat i) = i" by simp
  then show ?thesis using False assms by (simp add: ref_parse_def string_of_int_def ref_parse_dec)
qed

section \<open>Division and serialisation\<close>

lemma sdiv_word_identity:
  fixes a b :: "'a::len word"
  shows "b * word_of_int (sint a sdiv sint b) + word_of_int (sint a smod sint b) = a"
proof -
  have "sint b * (sint a sdiv sint b) + sint a smod sint b = sint a"
    using minus_smod_eq_mult_sdiv [of "sint a" "sint b"] by simp
  then have "word_of_int (sint b * (sint a sdiv sint b) + sint a smod sint b) = (word_of_int (sint a) :: 'a word)"
    by (rule arg_cong)
  then show ?thesis by simp
qed

lemma sint_word_of_int_exact:
  "- (2 ^ (LENGTH('a) - 1)) \<le> y \<Longrightarrow> y < 2 ^ (LENGTH('a) - 1) \<Longrightarrow> sint (word_of_int y :: 'a::len word) = y"
  by (simp add: sint_sbintrunc' signed_take_bit_int_eq_self)

lemma sdiv_word_exact:
  fixes a b :: "'a::len word"
  assumes "b \<noteq> 0" "\<not> (a = word_of_int (- (2 ^ (LENGTH('a) - 1))) \<and> b = - 1)"
  shows "sint (word_of_int (sint a sdiv sint b) :: 'a word) = sint a sdiv sint b"
    and "sint (word_of_int (sint a smod sint b) :: 'a word) = sint a smod sint b"
proof -
  let ?M = "2 ^ (LENGTH('a) - 1) :: int"
  note a = sint_greater_eq [of a] sint_less [of a] and b = sint_greater_eq [of b] sint_less [of b]
  have r: "sint a sdiv sint b \<in> {- \<bar>sint a\<bar>..\<bar>sint a\<bar>}" by (rule sdiv_int_range)
  have "sint a sdiv sint b \<noteq> ?M"
  proof
    assume eq: "sint a sdiv sint b = ?M"
    with r a have am: "sint a = - ?M" by auto
    then have "sint b = - 1" using eq int_sdiv_negated_is_minus1 [of "sint a" "sint b"] by simp
    then have "word_of_int (sint b) = (- 1 :: 'a word)" by simp
    then have "b = - 1" by simp
    moreover have "word_of_int (sint a) = (word_of_int (- ?M) :: 'a word)" using am by simp
    then have "a = word_of_int (- ?M)" by simp
    ultimately show False using assms(2) by blast
  qed
  then show "sint (word_of_int (sint a sdiv sint b) :: 'a word) = sint a sdiv sint b"
    using r a by (intro sint_word_of_int_exact) auto
  have "sint b \<noteq> 0"
  proof
    assume "sint b = 0"
    then have "word_of_int (sint b) = (0 :: 'a word)" by simp
    then show False using assms(1) by simp
  qed
  then have "sint a smod sint b \<in> {- \<bar>sint b\<bar> + 1..\<bar>sint b\<bar> - 1}" by (rule smod_int_range)
  then show "sint (word_of_int (sint a smod sint b) :: 'a word) = sint a smod sint b"
    using b by (intro sint_word_of_int_exact) auto
qed

lemma byte_of_scast: "k \<le> 24 \<Longrightarrow> byte_of k (i :: 32 word) = byte_of k (scast i :: intnat)"
proof (rule bit_eqI)
  fix n
  assume k: "k \<le> 24"
  show "bit (byte_of k i) n \<longleftrightarrow> bit (byte_of k (scast i :: intnat)) n"
    using k by (cases "k + n = 31") (auto simp: byte_of_def bit_simps min_def)
qed

lemma scast_range_32: "- (2 ^ 31) \<le> sint (scast (i :: 32 word) :: intnat)" "sint (scast (i :: 32 word) :: intnat) < 2 ^ 31"
proof -
  have "sint (scast i :: intnat) = sint i" by (rule sint_up_scast) (simp add: is_up)
  then show "- (2 ^ 31) \<le> sint (scast i :: intnat)" "sint (scast i :: intnat) < 2 ^ 31"
    using sint_greater_eq [of i] sint_less [of i] by simp_all
qed

lemma serialize_int_4_bytes:
  "caml_serialize_int_4 i b = Inr b' \<Longrightarrow>
   \<exists>bs. extern_bytes b' = extern_bytes b @ bs \<and> (\<forall>src. caml_deserialize_sint_4 (bs @ src) = Some (i, src))"
  using writeblock_append [of _ b b'] read32s_bytes [OF scast_range_32 [of i]]
  by (fastforce simp: caml_serialize_int_4_def caml_deserialize_sint_4_def byte_of_scast ucast_scast_32)

lemma serialize_int_8_bytes:
  "caml_serialize_int_8 i b = Inr b' \<Longrightarrow>
   \<exists>bs. extern_bytes b' = extern_bytes b @ bs \<and> (\<forall>src. caml_deserialize_sint_8 (bs @ src) = Some (i, src))"
  using writeblock_append [of "Reverse_64 (le_bytes 8 i)" b b'] deserialize_block_8_bytes [of "[i]"]
  by (auto simp: caml_serialize_int_8_def caml_serialize_block_8_def caml_deserialize_sint_8_def
      simp del: caml_deserialize_block_8.simps)

lemma serialize_int_1_bytes:
  "caml_serialize_int_1 i b = Inr b' \<Longrightarrow> i < 256 \<Longrightarrow>
   \<exists>bs. extern_bytes b' = extern_bytes b @ bs \<and> (\<forall>src. caml_deserialize_uint_1 (bs @ src) = Some (i, src))"
proof -
  assume w: "caml_serialize_int_1 i b = Inr b'" and i: "i < 256"
  have "ucast (ucast (ucast i :: u8) :: intnat) = i"
    using i by (simp add: word_unat_eq_iff unat_ucast word_less_nat_alt)
  then show ?thesis using w writeblock_append [of "[ucast i]" b b']
    by (intro exI [of _ "[ucast i]"]) (simp add: caml_serialize_int_1_def caml_deserialize_uint_1_def)
qed

lemma scast_ucast_32:
  fixes l :: intnat
  assumes "- (2 ^ 31) \<le> sint l" "sint l < 2 ^ 31"
  shows "scast (ucast l :: 32 word) = l"
proof (rule bit_eqI)
  fix n
  assume "possible_bit TYPE(64 word) n"
  then have n: "n < 64" by simp
  have "bit (scast (ucast l :: 32 word) :: intnat) n \<longleftrightarrow> bit l (if n < 32 then n else 31)"
    using n by (auto simp: bit_word_scast_iff bit_unsigned_iff)
  then show "bit (scast (ucast l :: 32 word) :: intnat) n \<longleftrightarrow> bit l n"
    using small_signed_bits [of 31 l n] assms n by auto
qed

lemma nativeint_roundtrip:
  assumes "nativeint_serialize l b = Inr (b', s32, s64)"
  shows "\<exists>bs. extern_bytes b' = extern_bytes b @ bs
    \<and> (\<forall>src. nativeint_deserialize (bs @ src) = Some (Inr (l, 8, src)))"
proof (cases "sint l \<le> 0x7FFFFFFF \<and> sint l \<ge> - 0x80000000")
  case True
  then have l: "scast (ucast l :: 32 word) = l" by (intro scast_ucast_32) simp_all
  from True assms obtain b1 where b1: "caml_serialize_int_1 1 b = Inr b1" "caml_serialize_int_4 (ucast l) b1 = Inr b'"
    by (cases "caml_serialize_int_1 1 b"; cases "caml_serialize_int_4 (ucast l) (projr (caml_serialize_int_1 1 b))")
      (auto simp: nativeint_serialize_def)
  from serialize_int_1_bytes [OF b1(1)] serialize_int_4_bytes [OF b1(2)] show ?thesis
    by (auto simp: nativeint_deserialize_def l)
next
  case False
  with assms obtain b1 where b1: "caml_serialize_int_1 2 b = Inr b1" "caml_serialize_int_8 l b1 = Inr b'"
    by (cases "caml_serialize_int_1 2 b"; cases "caml_serialize_int_8 l (projr (caml_serialize_int_1 2 b))")
      (auto simp: nativeint_serialize_def)
  from serialize_int_1_bytes [OF b1(1)] serialize_int_8_bytes [OF b1(2)] show ?thesis
    by (auto simp: nativeint_deserialize_def)
qed

section \<open>Properties\<close>

text \<open>C32: Reading an integer from a string computes exactly what reading over unbounded integers
  followed by a range check computes: the two overflow tests of the loop neither miss an
  overflow nor reject a number that fits, in every base and for every width up to 64.\<close>
theorem parse_intnat_unbounded:
  assumes "1 \<le> nbits" and "nbits \<le> 64"
  shows "parse_intnat s nbits = map_sum id of_int (ref_parse s nbits)"
  using assms by (rule parse_intnat_exact)

theorem parse_intnat_unbounded_witness: "parse_intnat ''-0x1_0'' 63 = Inr (- 16)"
  using parse_intnat_unbounded [of 63 "''-0x1_0''"]
  by (simp add: ref_parse_def parse_sign_and_base_def parse_digit_def Let_def)

text \<open>The decimal representation of every integer that fits in \<open>nbits\<close> bits is read back as
  that integer, the most negative one included.\<close>
theorem parse_intnat_decimal:
  assumes "1 \<le> nbits" and "nbits \<le> 64" and "- (2 ^ (nbits - 1)) \<le> i" and "i < 2 ^ (nbits - 1)"
  shows "parse_intnat (string_of_int i) nbits = Inr (of_int i)"
  using assms by (simp add: parse_intnat_exact ref_parse_string_of_int)

theorem parse_intnat_decimal_witness: "parse_intnat (string_of_int (- 128)) 8 = Inr (- 128)"
  using parse_intnat_decimal [of 8 "- 128"] by simp

text \<open>The separate 64-bit reader \<open>caml_int64_of_string\<close> agrees with \<open>parse_intnat\<close> at 64 bits
  on every string, errors included.\<close>
theorem int64_of_string_agrees: "caml_int64_of_string s = caml_nativeint_of_string s"
  unfolding caml_nativeint_of_string_def by (rule caml_int64_of_string_eq)

text \<open>Division and modulus on 64- and 32-bit integers raise exactly on a zero divisor, always
  satisfy \<open>b * q + r = a\<close> with wrap-around, and are the exact truncated quotient and
  remainder except for the one overflowing pair, which the code handles apart.\<close>
theorem int_division:
  fixes a b :: int64_t and a' b' :: int32_t
  assumes "b \<noteq> 0" and "b' \<noteq> 0"
  shows "(\<exists>q r. caml_int64_div a b = Inr q \<and> caml_int64_mod a b = Inr r \<and> b * q + r = a
      \<and> (\<not> (a = 0x8000000000000000 \<and> b = - 1) \<longrightarrow> sint q = sint a sdiv sint b \<and> sint r = sint a smod sint b))
    \<and> (\<exists>q r. caml_int32_div a' b' = Inr q \<and> caml_int32_mod a' b' = Inr r \<and> b' * q + r = a'
      \<and> (\<not> (a' = 0x80000000 \<and> b' = - 1) \<longrightarrow> sint q = sint a' sdiv sint b' \<and> sint r = sint a' smod sint b'))
    \<and> caml_int64_div a 0 = Inl Zero_divide \<and> caml_int32_div a' 0 = Inl Zero_divide"
  using assms sdiv_word_exact [of b a] sdiv_word_exact [of b' a'] sdiv_word_identity [of b a] sdiv_word_identity [of b' a']
  by (auto simp: caml_int64_div_def caml_int64_mod_def caml_int32_div_def caml_int32_mod_def)

theorem int_division_witness:
  "\<exists>q r. caml_int64_div 0x8000000000000000 (- 1) = Inr q \<and> caml_int64_mod 0x8000000000000000 (- 1) = Inr r
     \<and> - 1 * q + r = 0x8000000000000000"
  using int_division [of "- 1" 1 "0x8000000000000000"] by auto

text \<open>Serialising a native integer and deserialising the bytes gives the integer back and
  consumes exactly the bytes written, in both the 32-bit and the 64-bit encoding.\<close>
theorem nativeint_serialize_roundtrip:
  assumes "nativeint_serialize l b = Inr (b', s32, s64)"
  shows "\<exists>bs. extern_bytes b' = extern_bytes b @ bs \<and> nativeint_deserialize (bs @ src) = Some (Inr (l, 8, src))"
  using nativeint_roundtrip [OF assms] by blast

theorem nativeint_serialize_roundtrip_witness:
  "\<exists>b'. nativeint_serialize 7 init_extern_output = Inr (b', 4, 8)
     \<and> (\<exists>bs. extern_bytes b' = bs \<and> nativeint_deserialize (bs @ [1]) = Some (Inr (7, 8, [1])))"
proof -
  obtain b' where b: "nativeint_serialize 7 init_extern_output = Inr (b', 4, 8)"
    by (simp add: nativeint_serialize_def caml_serialize_int_1_def caml_serialize_int_4_def writeblock_def
        init_extern_output_def SIZE_EXTERN_OUTPUT_BLOCK_def)
  show ?thesis using b nativeint_serialize_roundtrip [OF b, of "[1]"]
    by (auto simp: extern_bytes_def init_extern_output_def)
qed

text \<open>The buffer \<open>parse_format\<close> picks for a format with a width and a precision is sized by
  the first number alone: for a width of 1 and a precision of 50 digits it is the 32-byte
  array on the stack, although printing that format needs more than 50 bytes.\<close>
theorem parse_format_ignores_precision:
  "parse_format ''%1.50d'' ''l'' = Some (Inr (''%1.50ld'', 32, CHR ''d''))"
  by (simp add: parse_format_def FORMAT_BUFFER_SIZE_def atoi_def is_digit_def Let_def)

end
