(* ===== verification/Page_Table.thy ===== *)
theory Page_Table
  imports Mlvalues
begin

text \<open>
  The sparse page table of \<open>byterun/memory.c\<close> (64-bit version): a hash table with linear
  probing that maps the page of an address to the kind of memory it holds.  A loop that
  need not end is a partial function into \<open>option\<close>, where \<^const>\<open>None\<close> is divergence;
  the argument \<open>calloc\<close> says for which sizes the C allocator succeeds.  The lemmas show that
  the table refines a finite map from pages to kinds.
\<close>

section \<open>Operations\<close>

record page_table =
  pt_size :: mlsize_t
  pt_shift :: cint
  pt_mask :: mlsize_t
  occupancy :: mlsize_t
  entries :: "uintnat list"

definition Page_log :: nat where "Page_log = 12"
definition Page_size :: uintnat where "Page_size = push_bit Page_log 1"
definition Page :: "uintnat \<Rightarrow> uintnat" where "Page p = drop_bit Page_log p"
definition Page_mask :: uintnat where "Page_mask = push_bit Page_log (- 1)"

definition In_heap :: cint where "In_heap = 1"
definition In_young :: cint where "In_young = 2"
definition In_static_data :: cint where "In_static_data = 4"
definition In_code_area :: cint where "In_code_area = 8"

definition Page_entry_matches :: "uintnat \<Rightarrow> uintnat \<Rightarrow> bool" where
  "Page_entry_matches entry addr \<longleftrightarrow> (entry XOR addr) AND Page_mask = 0"

definition HASH_FACTOR :: uintnat where "HASH_FACTOR = 11400714819323198486"

definition Hash :: "page_table \<Rightarrow> uintnat \<Rightarrow> uintnat" where
  "Hash t v = drop_bit (unat (pt_shift t)) (v * HASH_FACTOR)"

partial_function (option) page_lookup_loop ::
  "page_table \<Rightarrow> uintnat \<Rightarrow> uintnat \<Rightarrow> uintnat \<Rightarrow> cint option" where
  "page_lookup_loop t addr h e =
     (if e = 0 then Some 0
      else let h = (h + 1) AND pt_mask t;
               e = entries t ! unat h
           in if Page_entry_matches e addr then Some (ucast (e AND 0xFF))
              else page_lookup_loop t addr h e)"

declare page_lookup_loop.simps [code]

definition caml_page_table_lookup :: "page_table \<Rightarrow> uintnat \<Rightarrow> cint option" where
  "caml_page_table_lookup t addr =
     (let h = Hash t (Page addr);
          e = entries t ! unat h
      in if Page_entry_matches e addr then Some (ucast (e AND 0xFF))
         else page_lookup_loop t addr h e)"

partial_function (option) page_initial_size :: "uintnat \<Rightarrow> mlsize_t \<Rightarrow> cint \<Rightarrow> (mlsize_t \<times> cint) option" where
  "page_initial_size pagesize sz sh =
     (if sz < 2 * pagesize then page_initial_size pagesize (push_bit 1 sz) (sh - 1) else Some (sz, sh))"

declare page_initial_size.simps [code]

definition caml_page_table_initialize ::
  "(mlsize_t \<Rightarrow> bool) \<Rightarrow> mlsize_t \<Rightarrow> (page_table \<times> cint) option" where
  "caml_page_table_initialize calloc bytesize =
     (case page_initial_size (Page bytesize) 1 64 of
        None \<Rightarrow> None
      | Some (sz, sh) \<Rightarrow>
          (let t = \<lparr> pt_size = sz, pt_shift = sh, pt_mask = sz - 1, occupancy = 0, entries = [] \<rparr>
           in if calloc sz then Some (t\<lparr> entries := replicate (unat sz) 0 \<rparr>, 0)
              else Some (t, - 1)))"

partial_function (option) page_free_slot :: "uintnat list \<Rightarrow> mlsize_t \<Rightarrow> uintnat \<Rightarrow> uintnat option" where
  "page_free_slot es msk h =
     (if es ! unat h \<noteq> 0 then page_free_slot es msk ((h + 1) AND msk) else Some h)"

declare page_free_slot.simps [code]

fun page_rehash :: "uintnat list \<Rightarrow> page_table \<Rightarrow> page_table option" where
  "page_rehash [] t = Some t"
| "page_rehash (e # old) t =
     (if e = 0 then page_rehash old t
      else case page_free_slot (entries t) (pt_mask t) (Hash t (Page e)) of
             None \<Rightarrow> None
           | Some h \<Rightarrow> page_rehash old (t\<lparr> entries := (entries t)[unat h := e] \<rparr>))"

definition caml_page_table_resize ::
  "(mlsize_t \<Rightarrow> bool) \<Rightarrow> page_table \<Rightarrow> (page_table \<times> cint) option" where
  "caml_page_table_resize calloc old =
     (if \<not> calloc (2 * pt_size old) then Some (old, - 1)
      else let t = \<lparr> pt_size = 2 * pt_size old, pt_shift = pt_shift old - 1, pt_mask = 2 * pt_size old - 1,
                     occupancy = occupancy old, entries = replicate (unat (2 * pt_size old)) 0 \<rparr>
           in case page_rehash (entries old) t of None \<Rightarrow> None | Some t \<Rightarrow> Some (t, 0))"

partial_function (option) page_modify_loop ::
  "page_table \<Rightarrow> uintnat \<Rightarrow> cint \<Rightarrow> cint \<Rightarrow> uintnat \<Rightarrow> page_table option" where
  "page_modify_loop t page toclear toset h =
     (let e = entries t ! unat h
      in if e = 0 then
           Some (t\<lparr> entries := (entries t)[unat h := page OR scast toset], occupancy := occupancy t + 1 \<rparr>)
         else if Page_entry_matches e page then
           Some (t\<lparr> entries := (entries t)[unat h := (e AND scast (NOT toclear)) OR scast toset] \<rparr>)
         else page_modify_loop t page toclear toset ((h + 1) AND pt_mask t))"

declare page_modify_loop.simps [code]

definition caml_page_table_modify ::
  "(mlsize_t \<Rightarrow> bool) \<Rightarrow> uintnat \<Rightarrow> cint \<Rightarrow> cint \<Rightarrow> page_table \<Rightarrow> (page_table \<times> cint) option" where
  "caml_page_table_modify calloc page toclear toset t =
     (case (if occupancy t * 2 \<ge> pt_size t then caml_page_table_resize calloc t else Some (t, 0)) of
        None \<Rightarrow> None
      | Some (t, r) \<Rightarrow>
          if r \<noteq> 0 then Some (t, - 1)
          else (case page_modify_loop t page toclear toset (Hash t (Page page)) of
                  None \<Rightarrow> None
                | Some t \<Rightarrow> Some (t, 0)))"

partial_function (option) page_range_loop ::
  "(mlsize_t \<Rightarrow> bool) \<Rightarrow> cint \<Rightarrow> cint \<Rightarrow> uintnat \<Rightarrow> uintnat \<Rightarrow> page_table \<Rightarrow> (page_table \<times> cint) option" where
  "page_range_loop calloc toclear toset p pend t =
     (if p \<le> pend then
        case caml_page_table_modify calloc p toclear toset t of
          None \<Rightarrow> None
        | Some (t, r) \<Rightarrow>
            if r \<noteq> 0 then Some (t, - 1)
            else page_range_loop calloc toclear toset (p + Page_size) pend t
      else Some (t, 0))"

declare page_range_loop.simps [code]

definition caml_page_table_add ::
  "(mlsize_t \<Rightarrow> bool) \<Rightarrow> cint \<Rightarrow> uintnat \<Rightarrow> uintnat \<Rightarrow> page_table \<Rightarrow> (page_table \<times> cint) option" where
  "caml_page_table_add calloc kind start fin =
     page_range_loop calloc 0 kind (start AND Page_mask) ((fin - 1) AND Page_mask)"

definition caml_page_table_remove ::
  "(mlsize_t \<Rightarrow> bool) \<Rightarrow> cint \<Rightarrow> uintnat \<Rightarrow> uintnat \<Rightarrow> page_table \<Rightarrow> (page_table \<times> cint) option" where
  "caml_page_table_remove calloc kind start fin =
     page_range_loop calloc kind 0 (start AND Page_mask) ((fin - 1) AND Page_mask)"

definition Is_in_heap :: "page_table \<Rightarrow> uintnat \<Rightarrow> bool option" where
  "Is_in_heap t a = map_option (\<lambda>k. k AND In_heap \<noteq> 0) (caml_page_table_lookup t a)"

section \<open>Probe sequences\<close>

text \<open>\<open>finds N stop h i\<close>: probing the slots \<open>h, h + 1, \<dots>\<close> modulo \<open>N\<close> stops first at \<open>i\<close>.\<close>

inductive finds :: "nat \<Rightarrow> (nat \<Rightarrow> bool) \<Rightarrow> nat \<Rightarrow> nat \<Rightarrow> bool" for N stop where
  here: "stop h \<Longrightarrow> finds N stop h h"
| further: "\<not> stop h \<Longrightarrow> finds N stop (Suc h mod N) i \<Longrightarrow> finds N stop h i"

inductive_cases finds_elim: "finds N stop h i"

lemma finds_stop: "finds N stop h i \<Longrightarrow> stop i"
  by (induction rule: finds.induct)

lemma finds_bound: "finds N stop h i \<Longrightarrow> h < N \<Longrightarrow> i < N"
  by (induction rule: finds.induct) auto

lemma finds_unique: "finds N stop h i \<Longrightarrow> finds N stop h j \<Longrightarrow> i = j"
proof (induction arbitrary: j rule: finds.induct)
  case (here h)
  from here.prems here.hyps show ?case by (cases rule: finds.cases) auto
next
  case (further h i)
  from further.prems further.hyps(1) further.IH show ?case by (cases rule: finds.cases) auto
qed

lemma finds_exists:
  assumes "z < N" "stop z" "h < N"
  shows "\<exists>i. finds N stop h i"
  using assms(3)
proof (induction "(z + N - h) mod N" arbitrary: h rule: less_induct)
  case less
  show ?case
  proof (cases "stop h")
    case True
    then show ?thesis by (blast intro: finds.here)
  next
    case False
    then have "h \<noteq> z" using assms(2) by auto
    then have "(z + N - Suc h mod N) mod N < (z + N - h) mod N"
      using less.prems assms(1) by (auto simp: mod_if Suc_lessI split: if_splits)
    then obtain i where "finds N stop (Suc h mod N) i"
      using less.hyps [of "Suc h mod N"] less.prems by auto
    with False show ?thesis by (blast intro: finds.further)
  qed
qed

lemma finds_mono:
  assumes "finds N stop h i" "stop' i" "\<And>x. \<not> stop x \<Longrightarrow> \<not> stop' x"
  shows "finds N stop' h i"
  using assms by (induction rule: finds.induct) (auto intro: finds.intros)

section \<open>Well-formed tables\<close>

lemma bit_high: "bit (w :: u64) n \<Longrightarrow> n < 64"
  using bit_imp_le_length [of w n] by simp

lemma matches_Page: "Page_entry_matches e a \<longleftrightarrow> Page e = Page a"
proof -
  have "Page_entry_matches e a \<longleftrightarrow> (\<forall>n. n < 64 \<longrightarrow> 12 \<le> n \<longrightarrow> bit e n = bit a n)"
    unfolding Page_entry_matches_def Page_mask_def Page_log_def by (auto simp: bit_eq_iff bit_simps)
  also have "\<dots> \<longleftrightarrow> (\<forall>n. bit e (12 + n) = bit a (12 + n))"
    using bit_high [of e] bit_high [of a] by (auto simp: le_iff_add)
  also have "\<dots> \<longleftrightarrow> Page e = Page a"
  proof -
    have h: "bit w (12 + n) \<Longrightarrow> n < 64" for w :: u64 and n using bit_high [of w "12 + n"] by simp
    show ?thesis unfolding Page_def Page_log_def by (auto simp: bit_eq_iff bit_drop_bit_eq dest: h)
  qed
  finally show ?thesis .
qed

lemma unat_two_power: "k < 64 \<Longrightarrow> unat (2 ^ k :: u64) = 2 ^ k"
proof -
  assume "k < 64"
  then have "(2 :: nat) ^ k < 2 ^ 64" by (intro power_strict_increasing) auto
  then show ?thesis using unat_push_bit_exact [of "1 :: u64" k] by (simp add: push_bit_eq_mult)
qed

definition pt_bits :: "page_table \<Rightarrow> nat" where
  "pt_bits t = 64 - unat (pt_shift t)"

definition pt_shape :: "page_table \<Rightarrow> bool" where
  "pt_shape t \<longleftrightarrow> 1 \<le> pt_bits t \<and> pt_bits t \<le> 60 \<and> unat (pt_shift t) = 64 - pt_bits t \<and>
     unat (pt_size t) = 2 ^ pt_bits t \<and> pt_mask t = pt_size t - 1 \<and> length (entries t) = 2 ^ pt_bits t"

definition page_home :: "page_table \<Rightarrow> uintnat \<Rightarrow> nat" where
  "page_home t a = unat (Hash t (Page a))"

definition page_stop :: "uintnat list \<Rightarrow> uintnat \<Rightarrow> nat \<Rightarrow> bool" where
  "page_stop es a i \<longleftrightarrow> es ! i = 0 \<or> Page (es ! i) = Page a"

definition probing :: "(uintnat \<Rightarrow> nat) \<Rightarrow> uintnat list \<Rightarrow> bool" where
  "probing home es \<longleftrightarrow>
     (\<forall>i < length es. es ! i \<noteq> 0 \<longrightarrow> finds (length es) (page_stop es (es ! i)) (home (es ! i)) i)"

definition page_count :: "uintnat list \<Rightarrow> nat" where
  "page_count es = length (filter (\<lambda>e. e \<noteq> 0) es)"

definition pt_wf :: "page_table \<Rightarrow> bool" where
  "pt_wf t \<longleftrightarrow> pt_shape t \<and> probing (page_home t) (entries t) \<and>
     occupancy t = of_nat (page_count (entries t)) \<and> 2 * page_count (entries t) \<le> length (entries t)"

definition page_kind :: "uintnat list \<Rightarrow> uintnat \<Rightarrow> cint" where
  "page_kind es a =
     (case find (\<lambda>e. e \<noteq> 0 \<and> Page e = Page a) es of None \<Rightarrow> 0 | Some e \<Rightarrow> ucast (e AND 0xFF))"

lemma page_home_bound: "pt_shape t \<Longrightarrow> page_home t a < length (entries t)"
proof -
  assume s: "pt_shape t"
  have "unat (drop_bit (64 - pt_bits t) x) < 2 ^ pt_bits t" for x :: u64
  proof -
    have "unat x < 2 ^ pt_bits t * 2 ^ (64 - pt_bits t)"
      using unsigned_less [of x, where 'a = nat] s by (simp add: pt_shape_def flip: power_add)
    then show ?thesis unfolding unat_drop_bit by (rule less_mult_imp_div_less)
  qed
  then show ?thesis using s by (simp add: page_home_def Hash_def pt_shape_def)
qed

lemma page_next:
  assumes "pt_shape t" "unat h < length (entries t)"
  shows "unat ((h + 1) AND pt_mask t) = Suc (unat h) mod length (entries t)"
proof -
  let ?k = "pt_bits t"
  have "unat (2 ^ ?k :: u64) = 2 ^ ?k"
    using assms(1) by (intro unat_two_power) (simp add: pt_shape_def)
  then have "pt_size t = 2 ^ ?k" using assms(1) by (simp add: pt_shape_def word_unat_eq_iff)
  then have m: "pt_mask t = mask ?k" using assms(1) by (simp add: pt_shape_def mask_eq_exp_minus_1)
  have "unat h < 2 ^ 60" using assms power_increasing [of ?k 60 "2 :: nat"] by (simp add: pt_shape_def)
  then have "unat (h + 1) = Suc (unat h)" by (simp add: unat_word_ariths)
  then show ?thesis using assms(1) unfolding m unat_and_mask by (simp add: pt_shape_def)
qed

lemma page_stop_cong: "Page a = Page b \<Longrightarrow> page_stop es a = page_stop es b"
  by (auto simp: page_stop_def)

lemma page_home_cong: "Page a = Page b \<Longrightarrow> page_home t a = page_home t b"
  by (simp add: page_home_def)

lemma page_zero_exists:
  assumes "page_count es < length es"
  shows "\<exists>z < length es. es ! z = 0"
proof (rule ccontr)
  assume "\<not> ?thesis"
  then have "filter (\<lambda>e. e \<noteq> 0) es = es" by (auto simp: filter_id_conv in_set_conv_nth)
  then show False using assms by (simp add: page_count_def)
qed

lemma page_slot_exists:
  assumes "pt_wf t"
  shows "\<exists>i. finds (length (entries t)) (page_stop (entries t) a) (page_home t a) i"
proof -
  have "2 * page_count (entries t) \<le> length (entries t)" "0 < length (entries t)"
    using assms by (auto simp: pt_wf_def pt_shape_def)
  then have "page_count (entries t) < length (entries t)" by linarith
  then obtain z where "z < length (entries t)" "entries t ! z = 0" using page_zero_exists by blast
  then show ?thesis
    using page_home_bound [of t a] assms by (intro finds_exists) (auto simp: page_stop_def pt_wf_def)
qed

lemma probing_unique:
  assumes "probing (page_home t) es" "i < length es" "j < length es" "es ! i \<noteq> 0" "es ! j \<noteq> 0"
    "Page (es ! i) = Page (es ! j)"
  shows "i = j"
proof -
  have "finds (length es) (page_stop es (es ! i)) (page_home t (es ! i)) i"
    "finds (length es) (page_stop es (es ! j)) (page_home t (es ! j)) j"
    using assms by (auto simp: probing_def)
  then show ?thesis
    using finds_unique page_stop_cong [OF assms(6)] page_home_cong [OF assms(6)] by metis
qed

lemma page_kind_nth:
  assumes "probing (page_home t) es" "i < length es" "es ! i \<noteq> 0" "Page (es ! i) = Page a"
  shows "page_kind es a = ucast (es ! i AND 0xFF)"
proof (cases "find (\<lambda>e. e \<noteq> 0 \<and> Page e = Page a) es")
  case None
  then show ?thesis using assms(2-4) nth_mem [OF assms(2)] unfolding find_None_iff by blast
next
  case (Some e)
  then obtain j where "j < length es" "es ! j = e" "e \<noteq> 0" "Page e = Page a" by (auto simp: find_Some_iff)
  then have "j = i" using assms probing_unique [of t es j i] by simp
  with \<open>es ! j = e\<close> Some show ?thesis by (simp add: page_kind_def)
qed

lemma page_kind_none:
  "(\<And>i. i < length es \<Longrightarrow> es ! i \<noteq> 0 \<Longrightarrow> Page (es ! i) \<noteq> Page a) \<Longrightarrow> page_kind es a = 0"
  by (auto simp: page_kind_def in_set_conv_nth find_Some_iff split: option.split)

lemma page_kind_slot:
  assumes "probing (page_home t) es" "page_home t a < length es"
    "finds (length es) (page_stop es a) (page_home t a) i"
  shows "page_kind es a = (if es ! i = 0 then 0 else ucast (es ! i AND 0xFF))"
proof (cases "es ! i = 0")
  case True
  have "Page (es ! j) \<noteq> Page a" if "j < length es" "es ! j \<noteq> 0" for j
  proof
    assume p: "Page (es ! j) = Page a"
    have "finds (length es) (page_stop es (es ! j)) (page_home t (es ! j)) j"
      using assms(1) that by (simp add: probing_def)
    then have "finds (length es) (page_stop es a) (page_home t a) j"
      unfolding page_stop_cong [OF p] page_home_cong [OF p] .
    from finds_unique [OF this assms(3)] True that show False by simp
  qed
  then show ?thesis using True page_kind_none [of es a] by simp
next
  case False
  then have "Page (es ! i) = Page a" using finds_stop [OF assms(3)] by (auto simp: page_stop_def)
  then show ?thesis
    using False page_kind_nth [OF assms(1) finds_bound [OF assms(3,2)] False] by simp
qed

lemma page_lookup_probe:
  assumes "pt_shape t" "finds (length (entries t)) (page_stop (entries t) a) (unat h) i" "unat h < length (entries t)"
  shows "(if Page_entry_matches (entries t ! unat h) a then Some (ucast (entries t ! unat h AND 0xFF))
      else page_lookup_loop t a h (entries t ! unat h)) =
    Some (if entries t ! i = 0 then 0 else ucast (entries t ! i AND 0xFF))"
  using assms(2,3)
proof (induction "unat h" i arbitrary: h rule: finds.induct)
  case here
  then show ?case
    by (auto simp: page_stop_def matches_Page page_lookup_loop.simps [of t a h 0])
next
  case (further i)
  have n: "unat ((h + 1) AND pt_mask t) = Suc (unat h) mod length (entries t)"
    by (rule page_next [OF assms(1) further.prems])
  have "Suc (unat h) mod length (entries t) < length (entries t)"
    using further.prems by (intro mod_less_divisor) linarith
  note IH = further.hyps(3) [OF n [symmetric], unfolded n, OF this]
  show ?case
    using IH further.hyps(1) n
    by (auto simp: page_stop_def matches_Page page_lookup_loop.simps [of t a h] Let_def split: if_splits)
qed

lemma lookup_refines: "pt_wf t \<Longrightarrow> caml_page_table_lookup t a = Some (page_kind (entries t) a)"
proof -
  assume wf: "pt_wf t"
  then have s: "pt_shape t" and p: "probing (page_home t) (entries t)" by (auto simp: pt_wf_def)
  obtain i where i: "finds (length (entries t)) (page_stop (entries t) a) (page_home t a) i"
    using page_slot_exists [OF wf] by blast
  show ?thesis
    using page_lookup_probe [OF s i [unfolded page_home_def]] page_home_bound [OF s, of a]
      page_kind_slot [OF p page_home_bound [OF s] i]
    by (simp add: caml_page_table_lookup_def Let_def page_home_def)
qed
lemma page_modify_probe:
  assumes "pt_shape t" "finds (length (entries t)) (page_stop (entries t) a) (unat h) i" "unat h < length (entries t)"
  shows "page_modify_loop t a c s h =
    Some (if entries t ! i = 0
          then t\<lparr> entries := (entries t)[i := a OR scast s], occupancy := occupancy t + 1 \<rparr>
          else t\<lparr> entries := (entries t)[i := (entries t ! i AND scast (NOT c)) OR scast s] \<rparr>)"
  using assms(2,3)
proof (induction "unat h" i arbitrary: h rule: finds.induct)
  case here
  then show ?case
    by (subst page_modify_loop.simps) (auto simp: page_stop_def matches_Page Let_def)
next
  case (further i)
  have n: "unat ((h + 1) AND pt_mask t) = Suc (unat h) mod length (entries t)"
    by (rule page_next [OF assms(1) further.prems])
  have "Suc (unat h) mod length (entries t) < length (entries t)"
    using further.prems by (intro mod_less_divisor) linarith
  note IH = further.hyps(3) [OF n [symmetric], unfolded n, OF this]
  show ?case
    using IH further.hyps(1)
    by (subst page_modify_loop.simps) (simp add: page_stop_def matches_Page Let_def)
qed

lemma page_free_slot_probe:
  assumes "pt_shape t" "finds (length (entries t)) (\<lambda>i. entries t ! i = 0) (unat h) i" "unat h < length (entries t)"
  shows "\<exists>h'. page_free_slot (entries t) (pt_mask t) h = Some h' \<and> unat h' = i"
  using assms(2,3)
proof (induction "unat h" i arbitrary: h rule: finds.induct)
  case here
  then show ?case by (subst page_free_slot.simps) auto
next
  case (further i)
  have n: "unat ((h + 1) AND pt_mask t) = Suc (unat h) mod length (entries t)"
    by (rule page_next [OF assms(1) further.prems])
  have "Suc (unat h) mod length (entries t) < length (entries t)"
    using further.prems by (intro mod_less_divisor) linarith
  note IH = further.hyps(3) [OF n [symmetric], unfolded n, OF this]
  show ?case
    using IH further.hyps(1) by (subst page_free_slot.simps) simp
qed
lemma probing_insert:
  assumes "probing (page_home t) es" "es ! s = 0" "s < length es" "e \<noteq> 0"
    "finds (length es) (page_stop es e) (page_home t e) s"
  shows "probing (page_home t) (es[s := e])"
  unfolding probing_def
proof (intro allI impI)
  fix i assume i: "i < length (es[s := e])" "es[s := e] ! i \<noteq> 0"
  have st: "\<not> page_stop es q x \<Longrightarrow> \<not> page_stop (es[s := e]) q x" for q x
    using assms(2,3) by (cases "x = s") (auto simp: page_stop_def)
  show "finds (length (es[s := e])) (page_stop (es[s := e]) (es[s := e] ! i)) (page_home t (es[s := e] ! i)) i"
  proof (cases "i = s")
    case True
    have "page_stop (es[s := e]) e s" using assms(3) by (simp add: page_stop_def)
    with assms(5) have "finds (length es) (page_stop (es[s := e]) e) (page_home t e) s"
      by (rule finds_mono) (rule st)
    then show ?thesis using True assms(3) by simp
  next
    case False
    then have f: "finds (length es) (page_stop es (es ! i)) (page_home t (es ! i)) i"
      using assms(1) i by (simp add: probing_def)
    have "page_stop (es[s := e]) (es ! i) i" using False by (simp add: page_stop_def)
    with f have "finds (length es) (page_stop (es[s := e]) (es ! i)) (page_home t (es ! i)) i"
      by (rule finds_mono) (rule st)
    then show ?thesis using False by simp
  qed
qed

lemma probing_update:
  assumes "probing (page_home t) es" "es ! s \<noteq> 0" "s < length es" "e \<noteq> 0" "Page e = Page (es ! s)"
  shows "probing (page_home t) (es[s := e])"
proof -
  have st: "page_stop (es[s := e]) q = page_stop es q" for q
  proof
    fix x show "page_stop (es[s := e]) q x = page_stop es q x"
      using assms(2-5) by (cases "x = s") (auto simp: page_stop_def)
  qed
  show ?thesis unfolding probing_def
  proof (intro allI impI)
    fix i assume i: "i < length (es[s := e])" "es[s := e] ! i \<noteq> 0"
    have ne: "es ! i \<noteq> 0" using i(2) assms(2) by (cases "i = s") auto
    have pg: "Page (es[s := e] ! i) = Page (es ! i)" using assms(3,5) by (cases "i = s") auto
    have "finds (length es) (page_stop es (es ! i)) (page_home t (es ! i)) i"
      using assms(1) i(1) ne by (simp add: probing_def)
    then show "finds (length (es[s := e])) (page_stop (es[s := e]) (es[s := e] ! i)) (page_home t (es[s := e] ! i)) i"
      unfolding st page_stop_cong [OF pg] page_home_cong [OF pg] by simp
  qed
qed

lemma page_count_update:
  assumes "s < length es"
  shows "page_count (es[s := e]) + of_bool (es ! s \<noteq> 0) = page_count es + of_bool (e \<noteq> 0)"
proof -
  have u: "es[s := e] = take s es @ e # drop (Suc s) es" using assms by (rule upd_conv_take_nth_drop)
  have "page_count es = page_count (take s es @ es ! s # drop (Suc s) es)"
    using id_take_nth_drop [OF assms] by (rule arg_cong)
  then show ?thesis unfolding u page_count_def by simp
qed
lemma finds_cong:
  assumes "finds N stop h i" "h < N" "\<And>x. x < N \<Longrightarrow> stop x = stop' x"
  shows "finds N stop' h i"
  using assms
proof (induction rule: finds.induct)
  case (further h i)
  then have "Suc h mod N < N" by (intro mod_less_divisor) linarith
  with further show ?case by (auto intro: finds.further)
qed (auto intro: finds.here)

lemma set_update_zero:
  assumes "s < length es" "es ! s = 0"
  shows "set (es[s := e]) - {0} = insert e (set es) - {0 :: u64}"
proof -
  have "y \<in> set (es[s := e])" if y: "y \<in> set es" "y \<noteq> 0" for y
  proof -
    obtain i where "i < length es" "es ! i = y" using y(1) unfolding in_set_conv_nth by blast
    then show ?thesis using y assms by (metis length_list_update nth_list_update_neq nth_mem)
  qed
  then show ?thesis using set_update_subset_insert [of es s e] set_update_memI [OF assms(1), of e] by blast
qed

lemma page_free_slot_insert:
  assumes sh: "pt_shape t" and p: "probing (page_home t) (entries t)" and e: "e \<noteq> 0"
    and f: "\<And>e'. e' \<in> set (entries t) \<Longrightarrow> e' \<noteq> 0 \<Longrightarrow> Page e \<noteq> Page e'" and c: "page_count (entries t) < length (entries t)"
  shows "\<exists>h t'. page_free_slot (entries t) (pt_mask t) (Hash t (Page e)) = Some h \<and> t' = t\<lparr> entries := (entries t)[unat h := e] \<rparr> \<and>
    pt_shape t' \<and> probing (page_home t') (entries t') \<and> page_count (entries t') = page_count (entries t) + 1 \<and>
    set (entries t') - {0} = insert e (set (entries t)) - {0}"
proof -
  let ?es = "entries t"
  have st: "page_stop ?es e x \<longleftrightarrow> ?es ! x = 0" if "x < length ?es" for x
    using f [of "?es ! x"] that unfolding page_stop_def by force
  obtain z where z: "z < length ?es" "?es ! z = 0" using page_zero_exists c by blast
  obtain s where s: "finds (length ?es) (\<lambda>i. ?es ! i = 0) (page_home t e) s"
    using finds_exists [of z "length ?es" "\<lambda>i. ?es ! i = 0"] z page_home_bound [OF sh] by blast
  have sb: "s < length ?es" using finds_bound [OF s page_home_bound [OF sh]] .
  have s0: "?es ! s = 0" using finds_stop [OF s] .
  obtain h where h: "page_free_slot ?es (pt_mask t) (Hash t (Page e)) = Some h" "unat h = s"
    using page_free_slot_probe [OF sh s [unfolded page_home_def]] page_home_bound [OF sh, of e] by (auto simp: page_home_def)
  have fs: "finds (length ?es) (page_stop ?es e) (page_home t e) s" using finds_cong [OF s page_home_bound [OF sh]] st by blast
  let ?t = "t\<lparr> entries := ?es[s := e] \<rparr>"
  have home: "page_home ?t = page_home t" by (rule ext) (simp add: page_home_def Hash_def)
  have "probing (page_home ?t) (entries ?t)" unfolding home using probing_insert [OF p s0 sb e fs] by simp
  moreover have "pt_shape ?t" using sh by (simp add: pt_shape_def pt_bits_def)
  moreover have "page_count (?es[s := e]) = page_count ?es + 1" using page_count_update [OF sb, of e] s0 e by simp
  moreover have "set (?es[s := e]) - {0} = insert e (set ?es) - {0}" by (rule set_update_zero [OF sb s0])
  ultimately show ?thesis using h by (intro exI [of _ h] exI [of _ ?t]) simp
qed

lemma page_rehash_ok:
  assumes "pt_shape t" "probing (page_home t) (entries t)"
    "distinct (map Page (filter (\<lambda>e. e \<noteq> 0) old))"
    "\<And>e e'. e \<in> set old \<Longrightarrow> e \<noteq> 0 \<Longrightarrow> e' \<in> set (entries t) \<Longrightarrow> e' \<noteq> 0 \<Longrightarrow> Page e \<noteq> Page e'"
    "page_count (entries t) + page_count old < length (entries t)"
  shows "\<exists>t'. page_rehash old t = Some t' \<and> pt_shape t' \<and> probing (page_home t') (entries t') \<and>
    t' = t\<lparr> entries := entries t' \<rparr> \<and> length (entries t') = length (entries t) \<and>
    page_count (entries t') = page_count (entries t) + page_count old \<and>
    set (entries t') - {0} = (set (entries t) \<union> set old) - {0}"
  using assms
proof (induction old arbitrary: t)
  case Nil
  then show ?case by (auto simp: page_count_def)
next
  case (Cons e old)
  show ?case
  proof (cases "e = 0")
    case True
    then show ?thesis using Cons.IH [of t] Cons.prems by (simp add: page_count_def)
  next
    case False
    let ?es = "entries t"
    obtain h t1 where t1: "page_free_slot ?es (pt_mask t) (Hash t (Page e)) = Some h" "t1 = t\<lparr> entries := ?es[unat h := e] \<rparr>"
      "pt_shape t1" "probing (page_home t1) (entries t1)" "page_count (entries t1) = page_count ?es + 1"
      "set (entries t1) - {0} = insert e (set ?es) - {0}"
      using page_free_slot_insert [OF Cons.prems(1,2) False] Cons.prems(4,5) False by auto
    have di: "distinct (map Page (filter (\<lambda>e. e \<noteq> 0) old))" "Page e \<notin> Page ` (set old - {0})"
      using Cons.prems(3) False by auto
    have dj: "Page x \<noteq> Page y" if "x \<in> set old" "x \<noteq> 0" "y \<in> set (entries t1)" "y \<noteq> 0" for x y
    proof -
      have "y = e \<or> y \<in> set ?es" using t1(6) that(3,4) by auto
      moreover have "Page x \<in> Page ` (set old - {0})" using that(1,2) by blast
      then have "Page x \<noteq> Page e" using di(2) by metis
      ultimately show ?thesis using Cons.prems(4) [of x y] that by auto
    qed
    have n: "page_count (e # old) = 1 + page_count old" using False by (simp add: page_count_def)
    then have "page_count (entries t1) + page_count old < length (entries t1)"
      using Cons.prems(5) t1(2,5) by simp
    from Cons.IH [OF t1(3,4) di(1) dj this]
    obtain t' where t': "page_rehash old t1 = Some t'" "pt_shape t'" "probing (page_home t') (entries t')"
      "t' = t1\<lparr> entries := entries t' \<rparr>" "length (entries t') = length (entries t1)"
      "page_count (entries t') = page_count (entries t1) + page_count old"
      "set (entries t') - {0} = (set (entries t1) \<union> set old) - {0}" by blast
    have "page_rehash (e # old) t = Some t'" using False t1(1,2) t'(1) by simp
    moreover have "set (entries t') - {0} = (set ?es \<union> set (e # old)) - {0}" using t'(7) t1(6) by auto
    moreover have "t' = t\<lparr> entries := entries t' \<rparr>" "length (entries t') = length ?es" using t'(4,5) t1(2) by simp_all
    moreover have "page_count (entries t') = page_count ?es + page_count (e # old)" using t'(6) t1(5) n by simp
    ultimately show ?thesis using t'(2,3) by blast
  qed
qed

lemma distinct_pages:
  assumes "\<And>i j. i < length es \<Longrightarrow> j < length es \<Longrightarrow> es ! i \<noteq> 0 \<Longrightarrow> es ! j \<noteq> 0 \<Longrightarrow> Page (es ! i) = Page (es ! j) \<Longrightarrow> i = j"
  shows "distinct (map Page (filter (\<lambda>e. e \<noteq> 0) es))"
  using assms
proof (induction es)
  case (Cons e es)
  have "distinct (map Page (filter (\<lambda>e. e \<noteq> 0) es))"
    using Cons.prems [of "Suc i" "Suc j" for i j] by (intro Cons.IH) auto
  moreover have "Page e \<noteq> Page x" if x: "e \<noteq> 0" "x \<in> set es" "x \<noteq> 0" for x
  proof -
    obtain j where "j < length es" "es ! j = x" using x(2) unfolding in_set_conv_nth by blast
    then show ?thesis using Cons.prems [of 0 "Suc j"] x by auto
  qed
  ultimately show ?case by auto
qed simp

lemma page_kind_sets:
  assumes "probing (page_home t) es" "probing (page_home t') es'"
    "\<And>e. e \<noteq> 0 \<Longrightarrow> Page e = Page a \<Longrightarrow> e \<in> set es \<longleftrightarrow> e \<in> set es'"
  shows "page_kind es a = page_kind es' a"
proof (cases "\<exists>e \<in> set es. e \<noteq> 0 \<and> Page e = Page a")
  case True
  then obtain e where e: "e \<in> set es" "e \<noteq> 0" "Page e = Page a" by blast
  then have e': "e \<in> set es'" using assms(3) by blast
  obtain i where "i < length es" "es ! i = e" using e(1) unfolding in_set_conv_nth by blast
  moreover obtain j where "j < length es'" "es' ! j = e" using e' unfolding in_set_conv_nth by blast
  ultimately show ?thesis
    using page_kind_nth [OF assms(1), of i a] page_kind_nth [OF assms(2), of j a] e by simp
next
  case False
  then have "\<not> (\<exists>e \<in> set es'. e \<noteq> 0 \<and> Page e = Page a)" using assms(3) by blast
  then have "page_kind es' a = 0" by (intro page_kind_none) auto
  moreover have "page_kind es a = 0" using False by (intro page_kind_none) auto
  ultimately show ?thesis by simp
qed

lemma resize_ok:
  assumes "pt_wf t" "pt_bits t < 60" "calloc (2 * pt_size t)"
  shows "\<exists>t'. caml_page_table_resize calloc t = Some (t', 0) \<and> pt_wf t' \<and> pt_bits t' = pt_bits t + 1 \<and>
    page_count (entries t') = page_count (entries t) \<and> (\<forall>a. page_kind (entries t') a = page_kind (entries t) a)"
proof -
  have s: "pt_shape t" and p: "probing (page_home t) (entries t)"
    and o: "occupancy t = of_nat (page_count (entries t))" "2 * page_count (entries t) \<le> length (entries t)"
    using assms(1) by (auto simp: pt_wf_def)
  define t0 where "t0 = \<lparr> pt_size = 2 * pt_size t, pt_shift = pt_shift t - 1, pt_mask = 2 * pt_size t - 1,
    occupancy = occupancy t, entries = replicate (unat (2 * pt_size t)) 0 \<rparr>"
  have k: "1 \<le> pt_bits t" "unat (pt_shift t) = 64 - pt_bits t" "unat (pt_size t) = 2 ^ pt_bits t"
    using s by (auto simp: pt_shape_def)
  then have "pt_shift t \<noteq> 0" using assms(2) by auto
  then have sh: "unat (pt_shift t - 1) = 63 - pt_bits t" using k(2) by (simp add: unat_minus_one)
  have "(2 :: nat) ^ pt_bits t < 2 ^ 60" using assms(2) by (intro power_strict_increasing) auto
  then have sz: "unat (2 * pt_size t) = 2 ^ (pt_bits t + 1)" using k(3) by (simp add: unat_word_ariths)
  have b: "pt_bits t0 = pt_bits t + 1" using sh assms(2) by (simp add: pt_bits_def t0_def)
  have s0: "pt_shape t0" unfolding pt_shape_def b using assms(2) sh sz by (simp add: t0_def)
  have c0: "page_count (entries t0) = 0" "set (entries t0) - {0} = {}"
    by (auto simp: t0_def page_count_def)
  have p0: "probing (page_home t0) (entries t0)" by (auto simp: probing_def t0_def)
  have d: "distinct (map Page (filter (\<lambda>e. e \<noteq> 0) (entries t)))"
    using probing_unique [OF p] by (rule distinct_pages)
  have len: "length (entries t) = 2 ^ pt_bits t" "length (entries t0) = 2 ^ (pt_bits t + 1)"
    using s sz by (auto simp: pt_shape_def t0_def)
  have "page_count (entries t0) + page_count (entries t) < length (entries t0)"
  proof -
    have "(1 :: nat) \<le> 2 ^ pt_bits t" by simp
    then show ?thesis using o(2) unfolding c0(1) len power_add power_one_right by linarith
  qed
  from page_rehash_ok [OF s0 p0 d _ this] c0(2)
  obtain t' where t': "page_rehash (entries t) t0 = Some t'" "pt_shape t'" "probing (page_home t') (entries t')"
    "t' = t0\<lparr> entries := entries t' \<rparr>" "length (entries t') = length (entries t0)"
    "page_count (entries t') = page_count (entries t0) + page_count (entries t)"
    "set (entries t') - {0} = (set (entries t0) \<union> set (entries t)) - {0}" by blast
  have "pt_shift t' = pt_shift t0" "occupancy t' = occupancy t0" by (subst t'(4), simp)+
  then have b': "pt_bits t' = pt_bits t + 1" and o': "occupancy t' = occupancy t"
    using b by (auto simp: pt_bits_def t0_def)
  have kinds: "page_kind (entries t') a = page_kind (entries t) a" for a
    using page_kind_sets [OF t'(3) p] t'(7) c0(2) by blast
  have "pt_wf t'"
    using t'(2,3,5,6) o o' c0 len by (auto simp: pt_wf_def)
  moreover have "caml_page_table_resize calloc t = Some (t', 0)"
    using assms(3) t'(1) by (simp add: caml_page_table_resize_def t0_def)
  ultimately show ?thesis using b' kinds t'(6) c0(1) by auto
qed

lemma page_entry_bits:
  fixes page e :: u64 and c s :: cint
  assumes "page AND NOT Page_mask = 0" "c < 256" "s < 256"
  shows "Page (page OR scast s) = Page page" "ucast ((page OR scast s) AND 0xFF) = s"
    "Page ((e AND scast (NOT c)) OR scast s) = Page e"
    "ucast (((e AND scast (NOT c)) OR scast s) AND 0xFF) = (ucast (e AND 0xFF) AND NOT c) OR s"
proof -
  have sb: "\<not> bit s n" "\<not> bit c n" if "8 \<le> n" for n
  proof -
    have "x = take_bit 8 x" if "x < 256" for x :: cint
      using that by (simp add: word_unat_eq_iff unsigned_take_bit_eq take_bit_nat_eq_self word_less_nat_alt)
    then show "\<not> bit s n" "\<not> bit c n" using assms(2,3) that by (metis bit_take_bit_iff not_less)+
  qed
  have pb: "\<not> bit page n" if "n < 12" for n
    using arg_cong [OF assms(1), of "\<lambda>w. bit w n"] that
    by (simp add: Page_mask_def Page_log_def bit_simps)
  have sb': "bit s n \<Longrightarrow> n < 8" "bit c n \<Longrightarrow> n < 8" for n using sb [of n] by (auto simp: not_less [symmetric])
  have ff: "(0xFF :: u64) = Bit_Operations.mask 8" by (simp add: mask_eq_exp_minus_1)
  show "Page (page OR scast s) = Page page" unfolding Page_def Page_log_def
    by (rule bit_eqI) (auto simp: bit_simps sb)
  show "ucast ((page OR scast s) AND 0xFF) = s" unfolding ff
    by (rule bit_eqI) (auto simp: bit_simps sb pb dest: sb')
  show "Page ((e AND scast (NOT c)) OR scast s) = Page e" unfolding Page_def Page_log_def
    by (rule bit_eqI) (auto simp: bit_simps sb dest: bit_high)
  show "ucast (((e AND scast (NOT c)) OR scast s) AND 0xFF) = (ucast (e AND 0xFF) AND NOT c) OR s"
    unfolding ff by (rule bit_eqI) (auto simp: bit_simps sb dest: sb')
qed

lemma page_nonzero:
  assumes "page AND NOT Page_mask = 0" "page \<noteq> 0"
  shows "Page page \<noteq> 0"
proof
  assume z: "Page page = 0"
  have "page = 0"
  proof (rule bit_eqI)
    fix n show "bit page n \<longleftrightarrow> bit (0 :: u64) n"
    proof (cases "n < 12")
      case True
      then show ?thesis using arg_cong [OF assms(1), of "\<lambda>w. bit w n"]
        by (simp add: Page_mask_def Page_log_def bit_simps)
    next
      case False
      then show ?thesis using arg_cong [OF z, of "\<lambda>w. bit w (n - 12)"]
        by (simp add: Page_def Page_log_def bit_simps)
    qed
  qed
  with assms(2) show False ..
qed

lemma page_kind_update:
  assumes p: "probing (page_home t) es" "probing (page_home t') (es[i := e])" and i: "i < length es" and e: "e \<noteq> 0" "Page e = Page page"
    and g: "es ! i \<noteq> 0 \<Longrightarrow> Page (es ! i) = Page page"
  shows "page_kind (es[i := e]) a = (if Page a = Page page then ucast (e AND 0xFF) else page_kind es a)"
proof (cases "Page a = Page page")
  case True
  then show ?thesis using page_kind_nth [OF p(2), of i a] i e by simp
next
  case False
  have "x \<in> set (es[i := e]) \<longleftrightarrow> x \<in> set es" if "x \<noteq> 0" "Page x = Page a" for x
  proof -
    have "x \<noteq> e" "x \<noteq> es ! i" using that False e(2) g by auto
    then show ?thesis by (metis in_set_conv_nth length_list_update nth_list_update_eq nth_list_update_neq)
  qed
  then show ?thesis using page_kind_sets [OF p(2,1), of a] False by simp
qed

lemma modify_slot_ok:
  assumes "pt_wf t" "2 * page_count (entries t) < length (entries t)"
    and "page AND NOT Page_mask = 0" "page \<noteq> 0" "c < 256" "s < 256"
  shows "\<exists>t'. page_modify_loop t page c s (Hash t (Page page)) = Some t' \<and> pt_wf t' \<and>
    (\<forall>a. page_kind (entries t') a =
      (if Page a = Page page then (page_kind (entries t) a AND NOT c) OR s else page_kind (entries t) a))"
proof -
  let ?es = "entries t"
  have sh: "pt_shape t" and p: "probing (page_home t) ?es"
    and o: "occupancy t = of_nat (page_count ?es)" using assms(1) by (auto simp: pt_wf_def)
  obtain i where i: "finds (length ?es) (page_stop ?es page) (page_home t page) i"
    using page_slot_exists [OF assms(1)] by blast
  have ib: "i < length ?es" by (rule finds_bound [OF i page_home_bound [OF sh]])
  have ev: "even (length ?es)" using sh by (auto simp: pt_shape_def)
  note pe = page_entry_bits [OF assms(3,5,6)]
  define e where "e = (if ?es ! i = 0 then page OR scast s else (?es ! i AND scast (NOT c)) OR scast s)"
  have pg: "?es ! i \<noteq> 0 \<Longrightarrow> Page (?es ! i) = Page page" using finds_stop [OF i] by (simp add: page_stop_def)
  have pe': "Page e = Page page" using pe(1,3) pg by (simp add: e_def)
  then have e0: "e \<noteq> 0" using page_nonzero [OF assms(3,4)] by (auto simp: Page_def)
  have k: "page_kind ?es page = (if ?es ! i = 0 then 0 else ucast (?es ! i AND 0xFF))"
    by (rule page_kind_slot [OF p page_home_bound [OF sh] i])
  define t' where "t' = (if ?es ! i = 0 then t\<lparr> entries := ?es[i := e], occupancy := occupancy t + 1 \<rparr>
    else t\<lparr> entries := ?es[i := e] \<rparr>)"
  have "page_modify_loop t page c s (Hash t (Page page)) = Some t'"
    using page_modify_probe [OF sh i [unfolded page_home_def]] page_home_bound [OF sh, of page]
    by (simp add: t'_def e_def page_home_def)
  then have l: "page_modify_loop t page c s (Hash t (Page page)) = Some t'" .
  have home: "page_home t' = page_home t" by (rule ext) (simp add: page_home_def Hash_def t'_def)
  have es': "entries t' = ?es[i := e]" by (simp add: t'_def)
  have pr: "probing (page_home t') (entries t')"
    unfolding home es'
  proof (cases "?es ! i = 0")
    case True
    have "finds (length ?es) (page_stop ?es e) (page_home t e) i"
      using i unfolding page_stop_cong [OF pe'] page_home_cong [OF pe'] .
    then show "probing (page_home t) (?es[i := e])" by (rule probing_insert [OF p True ib e0])
  next
    case False
    show "probing (page_home t) (?es[i := e])"
      by (rule probing_update [OF p False ib e0]) (simp add: pe' pg [OF False])
  qed
  have "pt_shape t'" using sh by (simp add: t'_def pt_shape_def pt_bits_def)
  moreover have "occupancy t' = of_nat (page_count (entries t'))" "2 * page_count (entries t') \<le> length (entries t')"
    using page_count_update [OF ib, of e] e0 o assms(2) ev by (auto simp: es' t'_def elim!: evenE)
  ultimately have "pt_wf t'" using pr by (simp add: pt_wf_def)
  moreover have "page_kind (entries t') a = (if Page a = Page page then (page_kind ?es a AND NOT c) OR s else page_kind ?es a)" for a
  proof -
    have "page_kind ?es a = page_kind ?es page" if "Page a = Page page" using that by (simp add: page_kind_def)
    then show ?thesis
      using page_kind_update [OF p pr [unfolded es'] ib e0 pe' pg, of a] k pe(2,4) by (simp add: es' e_def)
  qed
  ultimately show ?thesis using l by blast
qed

lemma modify_refines:
  assumes "pt_wf t" "pt_bits t < 60" "calloc (2 * pt_size t)"
    and "page AND NOT Page_mask = 0" "page \<noteq> 0" "c < 256" "s < 256"
  shows "\<exists>t'. caml_page_table_modify calloc page c s t = Some (t', 0) \<and> pt_wf t' \<and>
    (\<forall>a. page_kind (entries t') a =
      (if Page a = Page page then (page_kind (entries t) a AND NOT c) OR s else page_kind (entries t) a))"
proof -
  have sh: "pt_shape t" and o: "occupancy t = of_nat (page_count (entries t))"
      "2 * page_count (entries t) \<le> length (entries t)"
    using assms(1) by (auto simp: pt_wf_def)
  have l: "length (entries t) = 2 ^ pt_bits t" "unat (pt_size t) = 2 ^ pt_bits t" using sh by (auto simp: pt_shape_def)
  have b: "(2 :: nat) ^ pt_bits t < 2 ^ 60" using assms(2) by (intro power_strict_increasing) auto
  have full: "occupancy t * 2 \<ge> pt_size t \<longleftrightarrow> 2 * page_count (entries t) \<ge> length (entries t)"
  proof -
    have "unat (occupancy t * 2) = 2 * page_count (entries t)"
      using o l b by (simp add: unat_word_ariths unat_of_nat)
    then show ?thesis using l by (simp add: word_le_nat_alt)
  qed
  show ?thesis
  proof (cases "occupancy t * 2 \<ge> pt_size t")
    case True
    from resize_ok [of t calloc, OF assms(1-3)] obtain u where u: "caml_page_table_resize calloc t = Some (u, 0)" "pt_wf u"
      "pt_bits u = pt_bits t + 1" "page_count (entries u) = page_count (entries t)"
      "\<And>a. page_kind (entries u) a = page_kind (entries t) a" by blast
    have "length (entries u) = 2 ^ (pt_bits t + 1)" using u(2,3) by (auto simp: pt_wf_def pt_shape_def)
    moreover have "(0 :: nat) < 2 ^ pt_bits t" by simp
    ultimately have "2 * page_count (entries u) < length (entries u)"
      using o(2) unfolding u(4) l power_add power_one_right by linarith
    from modify_slot_ok [OF u(2) this assms(4-7)] show ?thesis
      using True u(1,5) by (auto simp: caml_page_table_modify_def)
  next
    case False
    then have "2 * page_count (entries t) < length (entries t)" using full by linarith
    from modify_slot_ok [OF assms(1) this assms(4-7)] show ?thesis
      using False by (auto simp: caml_page_table_modify_def)
  qed
qed

section \<open>The contract of the page table\<close>

text \<open>What the memory manager relies on: the table is a total map from addresses to kinds that
  depends on the page only, and \<open>modify\<close> changes the kind of one page.\<close>

locale page_classifier =
  fixes wf :: "'t \<Rightarrow> bool" and room :: "'t \<Rightarrow> bool"
    and lookup :: "'t \<Rightarrow> uintnat \<Rightarrow> cint option"
    and modify :: "uintnat \<Rightarrow> cint \<Rightarrow> cint \<Rightarrow> 't \<Rightarrow> ('t \<times> cint) option"
    and kind :: "'t \<Rightarrow> uintnat \<Rightarrow> cint"
  assumes lookup_kind: "wf t \<Longrightarrow> lookup t a = Some (kind t a)"
    and modify_kind: "wf t \<Longrightarrow> room t \<Longrightarrow> page AND NOT Page_mask = 0 \<Longrightarrow> page \<noteq> 0 \<Longrightarrow> c < 256 \<Longrightarrow> s < 256 \<Longrightarrow>
      \<exists>t'. modify page c s t = Some (t', 0) \<and> wf t' \<and>
        (\<forall>a. kind t' a = (if Page a = Page page then (kind t a AND NOT c) OR s else kind t a))"
begin

lemma lookup_after_modify:
  assumes "wf t" "room t" "page AND NOT Page_mask = 0" "page \<noteq> 0" "c < 256" "s < 256"
  shows "\<exists>t'. modify page c s t = Some (t', 0) \<and> wf t' \<and>
    (\<forall>a. lookup t a = Some (kind t a) \<and>
         lookup t' a = Some (if Page a = Page page then (kind t a AND NOT c) OR s else kind t a))"
  using modify_kind [OF assms] by (auto simp: lookup_kind assms(1))

lemma add_then_remove:
  assumes "wf t" "room t" "page AND NOT Page_mask = 0" "page \<noteq> 0" "k < 256"
    and "\<And>t'. modify page 0 k t = Some (t', 0) \<Longrightarrow> room t'"
  shows "\<exists>t' t''. modify page 0 k t = Some (t', 0) \<and> modify page k 0 t' = Some (t'', 0) \<and>
    (\<forall>a. lookup t'' a = Some (if Page a = Page page then kind t a AND NOT k else kind t a))"
proof -
  have z: "(0 :: cint) < 256" by simp
  obtain t' where t': "modify page 0 k t = Some (t', 0)" "wf t'"
    "\<And>a. kind t' a = (if Page a = Page page then (kind t a AND NOT 0) OR k else kind t a)"
    using modify_kind [OF assms(1-4) z assms(5)] by blast
  obtain t'' where t'': "modify page k 0 t' = Some (t'', 0)" "wf t''"
    "\<And>a. kind t'' a = (if Page a = Page page then (kind t' a AND NOT k) OR 0 else kind t' a)"
    using modify_kind [OF t'(2) assms(6) [OF t'(1)] assms(3,4,5) z] by blast
  have "((w OR k) AND NOT k) = w AND NOT k" for w :: cint
    by (rule bit_eqI) (auto simp: bit_simps)
  then show ?thesis using t'(1,3) t''(1,3) by (auto simp: lookup_kind t''(2))
qed

end

interpretation hashed: page_classifier pt_wf "\<lambda>t. pt_bits t < 60 \<and> calloc (2 * pt_size t)"
  caml_page_table_lookup "caml_page_table_modify calloc" "\<lambda>t. page_kind (entries t)" for calloc
  by unfold_locales (simp add: lookup_refines, rule modify_refines, auto)

text \<open>C2: The hash table refines a map from pages to kinds, \<open>page_kind\<close>: on a well-formed table with room to grow,
  \<open>caml_page_table_modify\<close> terminates, succeeds and keeps the table well formed.  Every lookup terminates, before and
  after: before it returns the kind of the page, and afterwards the same kind, with the bits \<open>toclear\<close> cleared and \<open>toset\<close>
  set for the addresses of the given page and for no others.\<close>

theorem page_table_modify_lookup:
  assumes "pt_wf t" "pt_bits t < 60" "calloc (2 * pt_size t)"
    and "page AND NOT Page_mask = 0" "page \<noteq> 0" "toclear < 256" "toset < 256"
  shows "\<exists>t'. caml_page_table_modify calloc page toclear toset t = Some (t', 0) \<and> pt_wf t' \<and>
    (\<forall>a. caml_page_table_lookup t a = Some (page_kind (entries t) a) \<and>
         caml_page_table_lookup t' a =
           Some (if Page a = Page page then (page_kind (entries t) a AND NOT toclear) OR toset else page_kind (entries t) a))"
  using hashed.lookup_after_modify [of t calloc] assms by blast

lemma empty_table_wf:
  "pt_wf \<lparr> pt_size = 16, pt_shift = 60, pt_mask = 15, occupancy = 0, entries = replicate 16 0 \<rparr>"
  by (auto simp: pt_wf_def pt_shape_def pt_bits_def probing_def page_count_def)

theorem page_table_modify_lookup_witness:
  "\<exists>t'. caml_page_table_modify (\<lambda>_. True) 0x7F000 0 In_heap
      \<lparr> pt_size = 16, pt_shift = 60, pt_mask = 15, occupancy = 0, entries = replicate 16 0 \<rparr> = Some (t', 0) \<and> pt_wf t' \<and>
    caml_page_table_lookup t' 0x7F123 = Some In_heap \<and> caml_page_table_lookup t' 0x80000 = Some 0"
proof -
  let ?t = "\<lparr> pt_size = 16, pt_shift = 60, pt_mask = 15, occupancy = 0, entries = replicate 16 0 \<rparr>"
  have k: "page_kind (entries ?t) a = 0" for a by (simp add: page_kind_def find_None_iff [THEN iffD2])
  have "pt_bits ?t < 60" "(0x7F000 :: uintnat) AND NOT Page_mask = 0" "In_heap < 256" "Page 0x7F123 = Page 0x7F000"
    "Page 0x80000 \<noteq> Page 0x7F000"
    by (simp_all add: pt_bits_def Page_mask_def Page_def Page_log_def In_heap_def mask_eq_exp_minus_1)
  then show ?thesis
    using page_table_modify_lookup [of ?t "\<lambda>_. True" "0x7F000" 0 In_heap, OF empty_table_wf] k by fastforce
qed

end
