(* ===== verification/Freelist.thy ===== *)
theory Freelist
  imports Mlvalues
begin

text \<open>
  The free list of the major heap, \<open>byterun/freelist.c\<close>, with both allocation policies.
  Free blocks are chained through their first field; an address 0 is the null pointer.  Loops
  that follow the chain are partial functions, so that a cyclic chain is \<^const>\<open>None\<close>.
  The array \<open>flp\<close> of the first-fit policy is a list of \<open>FLP_MAX\<close> addresses.
\<close>

section \<open>State and operations\<close>

definition FLP_MAX :: nat where "FLP_MAX = 1000"
definition Policy_next_fit :: uintnat where "Policy_next_fit = 0"
definition Policy_first_fit :: uintnat where "Policy_first_fit = 1"

record freelist =
  mem :: heap
  fl_head :: u64
  fl_prev :: u64
  fl_last :: u64
  fl_merge :: u64
  fl_cur_size :: u64
  flp :: "u64 list"
  flp_size :: nat
  beyond :: u64
  policy :: uintnat
  last_fragment :: u64
  gc_sweep_hp :: u64

definition Whsize_wosize :: "mlsize_t \<Rightarrow> mlsize_t" where "Whsize_wosize sz = sz + 1"
definition Whsize_hd :: "header_t \<Rightarrow> mlsize_t" where "Whsize_hd hdr = Whsize_wosize (Wosize_hd hdr)"
definition Bsize_wsize :: "mlsize_t \<Rightarrow> mlsize_t" where "Bsize_wsize sz = sz * 8"
definition Bosize_hd :: "header_t \<Rightarrow> mlsize_t" where "Bosize_hd hdr = Bsize_wsize (Wosize_hd hdr)"
definition Whsize_bp :: "heap \<Rightarrow> u64 \<Rightarrow> mlsize_t" where "Whsize_bp h bp = Whsize_hd (Hd_val h bp)"

definition Next_bp :: "heap \<Rightarrow> u64 \<Rightarrow> u64" where "Next_bp h b = h b"
definition Next_set :: "u64 \<Rightarrow> u64 \<Rightarrow> ('a) freelist_scheme \<Rightarrow> ('a) freelist_scheme" where
  "Next_set b v st = st\<lparr> mem := (mem st)(b := v) \<rparr>"
definition Hd_bp_set :: "u64 \<Rightarrow> header_t \<Rightarrow> ('a) freelist_scheme \<Rightarrow> ('a) freelist_scheme" where
  "Hd_bp_set b v st = st\<lparr> mem := (mem st)(b - 8 := v) \<rparr>"

definition allocate_block ::
  "mlsize_t \<Rightarrow> nat \<Rightarrow> u64 \<Rightarrow> u64 \<Rightarrow> ('a) freelist_scheme \<Rightarrow> ('a) freelist_scheme \<times> u64" where
  "allocate_block wh_sz flpi prev cur st =
     (let h = Hd_val (mem st) cur;
          st = (if Wosize_hd h < wh_sz + 1 then
                  (let st = st\<lparr> fl_cur_size := fl_cur_size st - Whsize_hd h \<rparr>;
                       st = Next_set prev (Next_bp (mem st) cur) st;
                       st = (if fl_merge st = cur then st\<lparr> fl_merge := prev \<rparr> else st);
                       st = Hd_bp_set cur (Make_header 0 0 Caml_white) st
                   in if policy st = Policy_first_fit then
                        if flpi + 1 < flp_size st \<and> flp st ! (flpi + 1) = cur
                        then st\<lparr> flp := (flp st)[flpi + 1 := prev] \<rparr>
                        else if flpi + 1 = flp_size st
                        then st\<lparr> beyond := (if prev = fl_head st then 0 else prev), flp_size := flp_size st - 1 \<rparr>
                        else st
                      else st)
                else Hd_bp_set cur (Make_header (Wosize_hd h - wh_sz) 0 Caml_blue)
                       (st\<lparr> fl_cur_size := fl_cur_size st - wh_sz \<rparr>));
          st = (if policy st = Policy_next_fit then st\<lparr> fl_prev := prev \<rparr> else st)
      in (st, cur + Bosize_hd h - Bsize_wsize wh_sz))"

text \<open>The two loops of the next-fit search: from \<open>fl_prev\<close> to the end (\<open>Inl\<close> is the last block),
  then from the head to \<open>fl_prev\<close>.\<close>

partial_function (option) next_fit_forward ::
  "mlsize_t \<Rightarrow> u64 \<Rightarrow> u64 \<Rightarrow> ('a) freelist_scheme \<Rightarrow> (u64 + ('a) freelist_scheme \<times> u64) option" where
  "next_fit_forward wo_sz prev cur st =
     (if cur \<noteq> 0 then
        if Wosize_val (mem st) cur \<ge> wo_sz
        then Some (Inr (allocate_block (Whsize_wosize wo_sz) 0 prev cur st))
        else next_fit_forward wo_sz cur (Next_bp (mem st) cur) st
      else Some (Inl prev))"

partial_function (option) next_fit_wrap ::
  "mlsize_t \<Rightarrow> u64 \<Rightarrow> u64 \<Rightarrow> ('a) freelist_scheme \<Rightarrow> (('a) freelist_scheme \<times> u64) option" where
  "next_fit_wrap wo_sz prev cur st =
     (if prev \<noteq> fl_prev st then
        if Wosize_val (mem st) cur \<ge> wo_sz
        then Some (allocate_block (Whsize_wosize wo_sz) 0 prev cur st)
        else next_fit_wrap wo_sz cur (Next_bp (mem st) cur) st
      else Some (st, 0))"

declare next_fit_forward.simps [code] next_fit_wrap.simps [code]

definition fl_allocate_next_fit ::
  "mlsize_t \<Rightarrow> ('a) freelist_scheme \<Rightarrow> (('a) freelist_scheme \<times> u64) option" where
  "fl_allocate_next_fit wo_sz st =
     (case next_fit_forward wo_sz (fl_prev st) (Next_bp (mem st) (fl_prev st)) st of
        None \<Rightarrow> None
      | Some (Inr r) \<Rightarrow> Some r
      | Some (Inl prev) \<Rightarrow>
          (let st = st\<lparr> fl_last := prev \<rparr>
           in next_fit_wrap wo_sz (fl_head st) (Next_bp (mem st) (fl_head st)) st))"

text \<open>First fit: search in \<open>flp\<close>, extend it, and when it is full search the rest of the list.\<close>

fun flp_search :: "heap \<Rightarrow> mlsize_t \<Rightarrow> nat \<Rightarrow> u64 list \<Rightarrow> (nat \<times> mlsize_t) option" where
  "flp_search h wo_sz i [] = None"
| "flp_search h wo_sz i (p # ps) =
     (let sz = Wosize_val h (Next_bp h p)
      in if sz \<ge> wo_sz then Some (i, sz) else flp_search h wo_sz (Suc i) ps)"

datatype 'st flp_extension =
    Flp_found nat mlsize_t 'st u64
  | Flp_exhausted 'st
  | Flp_full 'st u64

partial_function (option) flp_extend ::
  "mlsize_t \<Rightarrow> u64 \<Rightarrow> mlsize_t \<Rightarrow> u64 \<Rightarrow> ('a) freelist_scheme \<Rightarrow> ('a) freelist_scheme flp_extension option" where
  "flp_extend wo_sz prev prevsz cur st =
     (if flp_size st < FLP_MAX then
        (let cur = Next_bp (mem st) prev
         in if cur = 0 then
              Some (Flp_exhausted (st\<lparr> fl_last := prev, beyond := (if prev = fl_head st then 0 else prev) \<rparr>))
            else
              (let sz = Wosize_val (mem st) cur
               in if sz > prevsz then
                    (let st = st\<lparr> flp := (flp st)[flp_size st := prev], flp_size := flp_size st + 1 \<rparr>
                     in if sz \<ge> wo_sz then
                          (let st = st\<lparr> beyond := cur \<rparr>;
                               i = flp_size st - 1;
                               (st, r) = allocate_block (Whsize_wosize wo_sz) (flp_size st - 1) prev cur st
                           in Some (Flp_found i sz st r))
                        else flp_extend wo_sz cur sz cur st)
                  else flp_extend wo_sz cur prevsz cur st))
      else Some (Flp_full st cur))"

declare flp_extend.simps [code]

partial_function (option) flp_slow ::
  "mlsize_t \<Rightarrow> mlsize_t \<Rightarrow> u64 \<Rightarrow> u64 \<Rightarrow> ('a) freelist_scheme \<Rightarrow> (('a) freelist_scheme \<times> u64) option" where
  "flp_slow wo_sz prevsz prev cur st =
     (if cur \<noteq> 0 then
        (let sz = Wosize_val (mem st) cur
         in if sz < prevsz then flp_slow wo_sz prevsz cur (Next_bp (mem st) cur) (st\<lparr> beyond := cur \<rparr>)
            else if sz \<ge> wo_sz then Some (allocate_block (Whsize_wosize wo_sz) (flp_size st) prev cur st)
            else flp_slow wo_sz prevsz cur (Next_bp (mem st) cur) st)
      else Some (st\<lparr> fl_last := prev \<rparr>, 0))"

declare flp_slow.simps [code]

partial_function (option) flp_collect ::
  "heap \<Rightarrow> u64 \<Rightarrow> mlsize_t \<Rightarrow> u64 \<Rightarrow> mlsize_t \<Rightarrow> u64 list \<Rightarrow> u64 list option" where
  "flp_collect h stop oldsz prev prevsz buf =
     (if prev \<noteq> stop then
        (let cur = Next_bp h prev;
             sz = Wosize_val h cur
         in if sz > prevsz then
              if sz \<ge> oldsz then Some (buf @ [prev])
              else flp_collect h stop oldsz cur sz (buf @ [prev])
            else flp_collect h stop oldsz cur prevsz buf)
      else Some buf)"

declare flp_collect.simps [code]

definition array_move :: "'b list \<Rightarrow> nat \<Rightarrow> 'b list \<Rightarrow> 'b list" where
  "array_move xs dst ys = take dst xs @ ys @ drop (dst + length ys) xs"

definition flp_splice :: "nat \<Rightarrow> u64 list \<Rightarrow> ('a) freelist_scheme \<Rightarrow> ('a) freelist_scheme" where
  "flp_splice i buf st =
     (let j = length buf; a = flp st; n = flp_size st
      in if FLP_MAX + 1 \<ge> n + j then
           (let a = (if j \<noteq> 1 then array_move a (i + j) (take (n - i - 1) (drop (i + 1) a)) else a);
                a = (if j > 0 then array_move a i buf else a)
            in st\<lparr> flp := a, flp_size := n + j - 1 \<rparr>)
         else
           (let a = (if FLP_MAX > i + j then
                       (let a = (if j \<noteq> 1 then array_move a (i + j) (take (FLP_MAX - i - j) (drop (i + 1) a)) else a)
                        in if j > 0 then array_move a i buf else a)
                     else if i \<noteq> FLP_MAX then array_move a i (take (FLP_MAX - i) buf) else a);
                st = st\<lparr> flp := a, flp_size := FLP_MAX - 1 \<rparr>
            in st\<lparr> beyond := Next_bp (mem st) (a ! (FLP_MAX - 1)) \<rparr>))"

definition update_flp :: "nat \<Rightarrow> mlsize_t \<Rightarrow> ('a) freelist_scheme \<Rightarrow> ('a) freelist_scheme option" where
  "update_flp i sz st =
     (if i < flp_size st then
        (let prevsz = (if i > 0 then Wosize_val (mem st) (Next_bp (mem st) (flp st ! (i - 1))) else 0)
         in if i + 1 = flp_size st then
              if Wosize_val (mem st) (Next_bp (mem st) (flp st ! i)) \<le> prevsz
              then Some (st\<lparr> beyond := Next_bp (mem st) (flp st ! i), flp_size := flp_size st - 1 \<rparr>)
              else Some (st\<lparr> beyond := 0 \<rparr>)
            else
              (case flp_collect (mem st) (flp st ! (i + 1)) sz (flp st ! i) prevsz [] of
                 None \<Rightarrow> None
               | Some buf \<Rightarrow> Some (flp_splice i buf st)))
      else Some st)"

definition fl_allocate_first_fit ::
  "mlsize_t \<Rightarrow> ('a) freelist_scheme \<Rightarrow> (('a) freelist_scheme \<times> u64) option" where
  "fl_allocate_first_fit wo_sz st =
     (case flp_search (mem st) wo_sz 0 (take (flp_size st) (flp st)) of
        Some (i, sz) \<Rightarrow>
          (let (st, result) = allocate_block (Whsize_wosize wo_sz) i (flp st ! i) (Next_bp (mem st) (flp st ! i)) st
           in map_option (\<lambda>st. (st, result)) (update_flp i sz st))
      | None \<Rightarrow>
          (let (prev, prevsz) =
             (if flp_size st = 0 then (fl_head st, 0)
              else let prev = Next_bp (mem st) (flp st ! (flp_size st - 1))
                   in (if beyond st \<noteq> 0 then beyond st else prev, Wosize_val (mem st) prev))
           in case flp_extend wo_sz prev prevsz 0 st of
                None \<Rightarrow> None
              | Some (Flp_found i sz st result) \<Rightarrow> map_option (\<lambda>st. (st, result)) (update_flp i sz st)
              | Some (Flp_exhausted st) \<Rightarrow> Some (st, 0)
              | Some (Flp_full st cur) \<Rightarrow>
                  (let st = st\<lparr> beyond := cur \<rparr>;
                       prev = (if beyond st \<noteq> 0 then beyond st else flp st ! (flp_size st - 1));
                       prevsz = Wosize_val (mem st) (Next_bp (mem st) (flp st ! (FLP_MAX - 1)))
                   in flp_slow wo_sz prevsz prev (Next_bp (mem st) prev) st)))"

definition caml_fl_allocate ::
  "mlsize_t \<Rightarrow> ('a) freelist_scheme \<Rightarrow> (('a) freelist_scheme \<times> u64) option" where
  "caml_fl_allocate wo_sz st =
     (if policy st = Policy_next_fit then fl_allocate_next_fit wo_sz st
      else if policy st = Policy_first_fit then fl_allocate_first_fit wo_sz st
      else Some (st, 0))"

definition caml_fl_init_merge :: "('a) freelist_scheme \<Rightarrow> ('a) freelist_scheme" where
  "caml_fl_init_merge st = st\<lparr> last_fragment := 0, fl_merge := fl_head st \<rparr>"

fun truncate_flp_size :: "heap \<Rightarrow> u64 list \<Rightarrow> u64 \<Rightarrow> nat \<Rightarrow> nat" where
  "truncate_flp_size h a changed 0 = 0"
| "truncate_flp_size h a changed (Suc n) =
     (if Next_bp h (a ! n) \<ge> changed then truncate_flp_size h a changed n else Suc n)"

definition truncate_flp :: "u64 \<Rightarrow> ('a) freelist_scheme \<Rightarrow> ('a) freelist_scheme" where
  "truncate_flp changed st =
     (if changed = fl_head st then st\<lparr> flp_size := 0, beyond := 0 \<rparr>
      else let st = st\<lparr> flp_size := truncate_flp_size (mem st) (flp st) changed (flp_size st) \<rparr>
           in if beyond st \<ge> changed then st\<lparr> beyond := 0 \<rparr> else st)"

definition caml_fl_reset :: "('a) freelist_scheme \<Rightarrow> ('a) freelist_scheme" where
  "caml_fl_reset st =
     (let st = Next_set (fl_head st) 0 st;
          st = (if policy st = Policy_next_fit then st\<lparr> fl_prev := fl_head st \<rparr>
                else if policy st = Policy_first_fit then truncate_flp (fl_head st) st
                else st)
      in caml_fl_init_merge (st\<lparr> fl_cur_size := 0 \<rparr>))"

definition caml_fl_merge_block :: "u64 \<Rightarrow> ('a) freelist_scheme \<Rightarrow> ('a) freelist_scheme \<times> u64" where
  "caml_fl_merge_block bp st =
     (let hdr = Hd_val (mem st) bp;
          st = st\<lparr> fl_cur_size := fl_cur_size st + Whsize_hd hdr \<rparr>;
          prev = fl_merge st;
          cur = Next_bp (mem st) prev;
          st = (if policy st = Policy_first_fit then truncate_flp prev st else st);
          (bp, hdr, st) =
            (let bp_whsz = Whsize_bp (mem st) bp
             in if last_fragment st = bp - 8 \<and> bp_whsz \<le> Max_wosize then
                  (let hdr = Make_header bp_whsz 0 Caml_white; bp = last_fragment st
                   in (bp, hdr, (Hd_bp_set bp hdr st)\<lparr> fl_cur_size := fl_cur_size st + Whsize_wosize 0 \<rparr>))
                else (bp, hdr, st));
          adj = bp + Bosize_hd hdr;
          (adj, cur, hdr, st) =
            (let next_cur = Next_bp (mem st) cur; cur_whsz = Whsize_bp (mem st) cur
             in if adj = cur - 8 \<and> Wosize_hd hdr + cur_whsz \<le> Max_wosize then
                  (let st = Next_set prev next_cur st;
                       st = (if policy st = Policy_next_fit \<and> fl_prev st = cur then st\<lparr> fl_prev := prev \<rparr> else st);
                       hdr = Make_header (Wosize_hd hdr + cur_whsz) 0 Caml_blue;
                       st = Hd_bp_set bp hdr st
                   in (bp + Bosize_hd hdr, next_cur, hdr, st))
                else (adj, cur, hdr, st));
          prev_wosz = Wosize_val (mem st) prev
      in if prev + Bsize_wsize prev_wosz = bp - 8 \<and> prev_wosz + Whsize_hd hdr < Max_wosize then
           (Hd_bp_set prev (Make_header (prev_wosz + Whsize_hd hdr) 0 Caml_blue) st, adj)
         else if Wosize_hd hdr \<noteq> 0 then
           ((Next_set prev bp (Next_set bp cur (Hd_bp_set bp (Bluehd_hd hdr) st)))\<lparr> fl_merge := bp \<rparr>, adj)
         else
           (st\<lparr> last_fragment := bp, fl_cur_size := fl_cur_size st - Whsize_wosize 0 \<rparr>, adj))"

partial_function (option) fl_insertion_point :: "heap \<Rightarrow> u64 \<Rightarrow> u64 \<Rightarrow> u64 \<Rightarrow> (u64 \<times> u64) option" where
  "fl_insertion_point h bp prev cur =
     (if cur \<noteq> 0 \<and> cur < bp then fl_insertion_point h bp cur (Next_bp h cur) else Some (prev, cur))"

declare fl_insertion_point.simps [code]

definition caml_fl_add_blocks :: "u64 \<Rightarrow> ('a) freelist_scheme \<Rightarrow> ('a) freelist_scheme option" where
  "caml_fl_add_blocks bp st =
     (let st = st\<lparr> fl_cur_size := fl_cur_size st + Whsize_bp (mem st) bp \<rparr>
      in if bp > fl_last st then
           (let st = Next_set (fl_last st) bp st;
                st = (if fl_last st = fl_merge st \<and> bp < gc_sweep_hp st
                      then st\<lparr> fl_merge := Field (mem st) bp 1 \<rparr> else st)
            in Some (if policy st = Policy_first_fit \<and> flp_size st < FLP_MAX
                     then st\<lparr> flp := (flp st)[flp_size st := fl_last st], flp_size := flp_size st + 1 \<rparr> else st))
         else
           (case fl_insertion_point (mem st) bp (fl_head st) (Next_bp (mem st) (fl_head st)) of
              None \<Rightarrow> None
            | Some (prev, cur) \<Rightarrow>
                (let st = Next_set (Field (mem st) bp 1) cur st;
                     st = Next_set prev bp st;
                     st = (if prev = fl_merge st \<and> bp < gc_sweep_hp st
                           then st\<lparr> fl_merge := Field (mem st) bp 1 \<rparr> else st)
                 in Some (if policy st = Policy_first_fit then truncate_flp bp st else st))))"

function caml_make_free_blocks :: "u64 \<Rightarrow> mlsize_t \<Rightarrow> bool \<Rightarrow> ('a) freelist_scheme \<Rightarrow> ('a) freelist_scheme" where
  "caml_make_free_blocks p sz do_merge st =
     (if sz > 0 then
        (let n = (if sz > Whsize_wosize Max_wosize then Whsize_wosize Max_wosize else sz);
             st = st\<lparr> mem := (mem st)(p := Make_header (n - 1) 0 Caml_white) \<rparr>;
             st = (if do_merge then fst (caml_fl_merge_block (p + 8) st) else st)
         in caml_make_free_blocks (p + 8 * n) (sz - n) do_merge st)
      else st)"
  by pat_completeness auto
termination
proof (relation "measure (\<lambda>(p, sz, do_merge, st). unat sz)")
  fix p sz do_merge and st x xa :: "('a) freelist_scheme" and n :: mlsize_t
  assume sz: "0 < sz" and n: "n = (if Whsize_wosize Max_wosize < sz then Whsize_wosize Max_wosize else sz)"
  have "Whsize_wosize Max_wosize = (2 ^ 54 :: u64)" by (simp add: Whsize_wosize_def Max_wosize_def push_bit_eq_mult)
  then have "0 < n" "n \<le> sz" using sz n by (auto split: if_splits)
  then have "unat (sz - n) < unat sz" by (simp add: word_le_nat_alt word_less_nat_alt unat_sub_if_size)
  then show "((p + 8 * n, sz - n, do_merge, xa), p, sz, do_merge, st) \<in> measure (\<lambda>(p, sz, do_merge, st). unat sz)"
    by simp
qed simp

definition caml_set_allocation_policy :: "uintnat \<Rightarrow> ('a) freelist_scheme \<Rightarrow> ('a) freelist_scheme" where
  "caml_set_allocation_policy p st =
     (let st = (if p = Policy_next_fit then st\<lparr> fl_prev := fl_head st \<rparr>
                else if p = Policy_first_fit then st\<lparr> flp_size := 0, beyond := 0 \<rparr>
                else st)
      in st\<lparr> policy := p \<rparr>)"

section \<open>Well-formed free lists\<close>

fun fl_list :: "heap \<Rightarrow> u64 \<Rightarrow> u64 list \<Rightarrow> bool" where
  "fl_list h p [] \<longleftrightarrow> h p = 0"
| "fl_list h p (b # bs) \<longleftrightarrow> h p = b \<and> b \<noteq> 0 \<and> fl_list h b bs"

fun fl_seg :: "heap \<Rightarrow> u64 \<Rightarrow> u64 list \<Rightarrow> bool" where
  "fl_seg h p [] \<longleftrightarrow> True"
| "fl_seg h p (b # bs) \<longleftrightarrow> h p = b \<and> b \<noteq> 0 \<and> fl_seg h b bs"

definition fl_words :: "u64 list \<Rightarrow> u64 list" where
  "fl_words bs = concat (map (\<lambda>b. [b - 8, b]) bs)"

definition fl_sizes :: "heap \<Rightarrow> u64 list \<Rightarrow> u64" where
  "fl_sizes h bs = sum_list (map (Whsize_bp h) bs)"

definition fl_wf :: "('a) freelist_scheme \<Rightarrow> u64 list \<Rightarrow> bool" where
  "fl_wf st bs \<longleftrightarrow> fl_list (mem st) (fl_head st) bs \<and> distinct (fl_words (fl_head st # bs)) \<and>
     fl_prev st \<in> set (fl_head st # bs) \<and> fl_merge st \<in> set (fl_head st # bs) \<and>
     (\<forall>b \<in> set bs. 1 \<le> Wosize_val (mem st) b) \<and> fl_cur_size st = fl_sizes (mem st) bs"

lemma set_fl_words: "set (fl_words bs) = (\<lambda>b. b - 8) ` set bs \<union> set bs"
  by (auto simp: fl_words_def)

lemma distinct_words: "distinct (fl_words bs) \<Longrightarrow> distinct bs"
  by (induction bs) (auto simp: fl_words_def)

lemma words_apart: "distinct (fl_words bs) \<Longrightarrow> a \<in> set bs \<Longrightarrow> b \<in> set bs \<Longrightarrow> a - 8 \<noteq> b"
  by (induction bs) (auto simp: fl_words_def)

lemma fl_list_append: "fl_list h p (xs @ ys) \<longleftrightarrow> fl_seg h p xs \<and> fl_list h (last (p # xs)) ys"
  by (induction xs arbitrary: p) auto

lemma fl_list_upd: "a \<notin> set (p # bs) \<Longrightarrow> fl_list (h(a := v)) p bs \<longleftrightarrow> fl_list h p bs"
  by (induction bs arbitrary: p) auto

lemma fl_seg_upd: "a \<notin> set (butlast (p # bs)) \<Longrightarrow> fl_seg (h(a := v)) p bs \<longleftrightarrow> fl_seg h p bs"
  by (induction bs arbitrary: p) auto

fun fl_fit :: "mlsize_t \<Rightarrow> heap \<Rightarrow> u64 \<Rightarrow> u64 list \<Rightarrow> (u64 \<times> u64) option" where
  "fl_fit n h prev [] = None"
| "fl_fit n h prev (b # bs) = (if n \<le> Wosize_val h b then Some (prev, b) else fl_fit n h b bs)"

lemma next_fit_forward_eq:
  "fl_list (mem st) prev bs \<Longrightarrow>
   next_fit_forward n prev (Next_bp (mem st) prev) st =
     Some (case fl_fit n (mem st) prev bs of
             None \<Rightarrow> Inl (last (prev # bs))
           | Some (p, b) \<Rightarrow> Inr (allocate_block (Whsize_wosize n) 0 p b st))"
proof (induction bs arbitrary: prev)
  case Nil
  then show ?case by (subst next_fit_forward.simps) (simp add: Next_bp_def)
next
  case (Cons b bs)
  then have "Next_bp (mem st) prev = b" "b \<noteq> 0" "fl_list (mem st) b bs" by (auto simp: Next_bp_def)
  then show ?case using Cons.IH [of b] by (subst next_fit_forward.simps) (simp split: option.split)
qed

lemma next_fit_wrap_eq:
  "fl_seg (mem st) prev bs \<Longrightarrow> distinct (prev # bs) \<Longrightarrow> last (prev # bs) = fl_prev st \<Longrightarrow>
   next_fit_wrap n prev (Next_bp (mem st) prev) st =
     Some (case fl_fit n (mem st) prev bs of
             None \<Rightarrow> (st, 0)
           | Some (p, b) \<Rightarrow> allocate_block (Whsize_wosize n) 0 p b st)"
proof (induction bs arbitrary: prev)
  case Nil
  then show ?case by (subst next_fit_wrap.simps) simp
next
  case (Cons b bs)
  then have "Next_bp (mem st) prev = b" "fl_seg (mem st) b bs" by (auto simp: Next_bp_def)
  moreover have "prev \<noteq> fl_prev st" using Cons.prems(2,3) last_in_set [of "b # bs"] by auto
  ultimately show ?case using Cons.IH [of b] Cons.prems by (subst next_fit_wrap.simps) simp
qed

lemma fl_fit_split:
  assumes "fl_fit n h prev bs = Some (p, b)"
  obtains xs ys where "bs = xs @ b # ys" "p = last (prev # xs)" "n \<le> Wosize_val h b"
    "\<And>x. x \<in> set xs \<Longrightarrow> \<not> n \<le> Wosize_val h x"
proof -
  have "\<exists>xs ys. bs = xs @ b # ys \<and> p = last (prev # xs) \<and> n \<le> Wosize_val h b \<and>
      (\<forall>x \<in> set xs. \<not> n \<le> Wosize_val h x)"
    using assms
  proof (induction bs arbitrary: prev)
    case (Cons c bs)
    show ?case
    proof (cases "n \<le> Wosize_val h c")
      case True
      then show ?thesis using Cons.prems by (intro exI [of _ "[]"] exI [of _ bs]) auto
    next
      case False
      then obtain xs ys where "bs = xs @ b # ys" "p = last (c # xs)" "n \<le> Wosize_val h b" "\<forall>x \<in> set xs. \<not> n \<le> Wosize_val h x"
        using Cons.IH [of c] Cons.prems by auto
      then show ?thesis using False by (intro exI [of _ "c # xs"] exI [of _ ys]) auto
    qed
  qed simp
  then show thesis using that by blast
qed

lemma fl_fit_find: "map_option snd (fl_fit n h prev bs) = find (\<lambda>b. n \<le> Wosize_val h b) bs"
  by (induction bs arbitrary: prev) auto
lemma Whsize_upd: "a \<noteq> b - 8 \<Longrightarrow> Whsize_bp (h(a := v)) b = Whsize_bp h b"
  by (simp add: Whsize_bp_def Hd_val_def)

lemma Wosize_upd: "a \<noteq> b - 8 \<Longrightarrow> Wosize_val (h(a := v)) b = Wosize_val h b"
  by (simp add: Wosize_val_def Hd_val_def)

lemma fl_sizes_upd: "(\<And>b. b \<in> set bs \<Longrightarrow> a \<noteq> b - 8) \<Longrightarrow> fl_sizes (h(a := v)) bs = fl_sizes h bs"
  unfolding fl_sizes_def by (intro arg_cong [where f = sum_list] map_cong) (auto simp: Whsize_upd)

lemma Wosize_bound: "Wosize_val h b \<le> Max_wosize"
proof -
  have "unat (Wosize_val h b) < 2 ^ 54"
    unfolding Wosize_val_def Wosize_hd_def unat_drop_bit
    using unsigned_less [of "Hd_val h b", where 'a = nat] by (simp add: less_mult_imp_div_less)
  then show ?thesis by (simp add: word_le_nat_alt Max_wosize_def)
qed

text \<open>Detaching a block (the cases 0 and 1 of \<open>allocate_block\<close>).\<close>

lemma fl_detach:
  assumes "fl_list h p (xs @ b # ys)" "distinct (p # xs @ b # ys)" "b - 8 \<notin> set (p # xs @ b # ys)"
  shows "fl_list (h(last (p # xs) := h b, b - 8 := v)) p (xs @ ys)"
proof -
  let ?q = "last (p # xs)" and ?h = "h(last (p # xs) := h b)"
  have s: "fl_seg h p xs" "h ?q = b" "b \<noteq> 0" "fl_list h b ys" using assms(1) by (auto simp: fl_list_append)
  have "butlast (p # xs) @ [?q] = p # xs" by (rule append_butlast_last_id) simp
  then have "distinct (butlast (p # xs) @ [?q])" using assms(2) by simp
  then have q: "?q \<in> set (p # xs)" "?q \<notin> set (butlast (p # xs))"
    using last_in_set [of "p # xs"] unfolding distinct_append by auto
  have "fl_list ?h ?q ys"
  proof (cases ys)
    case (Cons y zs)
    then have "?q \<notin> set (y # zs)" using q(1) assms(2) by auto
    then show ?thesis using s(4) Cons fl_list_upd [of ?q y zs h "h b"] by auto
  qed (use s in auto)
  then have "fl_list ?h p (xs @ ys)" using s(1) fl_seg_upd [OF q(2)] by (simp only: fl_list_append)
  then show ?thesis using assms(3) by (subst fl_list_upd) auto
qed

lemma allocate_block_takes:
  assumes pol: "policy st = Policy_next_fit" and n: "n \<le> Wosize_val (mem st) b"
    and r: "allocate_block (Whsize_wosize n) 0 p b st = (st', hp)"
  defines "w \<equiv> Wosize_val (mem st) b"
  shows "hp = (b - 8) + 8 * (w - n)" "fl_prev st' = p" "fl_head st' = fl_head st"
    "w \<le> n + 1 \<Longrightarrow> mem st' = (mem st)(p := mem st b, b - 8 := Make_header 0 0 Caml_white) \<and>
       fl_cur_size st' = fl_cur_size st - Whsize_bp (mem st) b \<and> fl_merge st' = (if fl_merge st = b then p else fl_merge st)"
    "w > n + 1 \<Longrightarrow> mem st' = (mem st)(b - 8 := Make_header (w - (n + 1)) 0 Caml_blue) \<and>
       fl_cur_size st' = fl_cur_size st - (n + 1) \<and> fl_merge st' = fl_merge st"
proof -
  have "unat n \<le> unat w" "unat w < 2 ^ 54"
    using n Wosize_bound [of "mem st" b] by (simp_all add: w_def word_le_nat_alt Max_wosize_def)
  then have cmp: "w < Whsize_wosize n + 1 \<longleftrightarrow> w \<le> n + 1"
    by (simp add: Whsize_wosize_def word_less_nat_alt word_le_nat_alt unat_word_ariths less_Suc_eq_le)
  have st': "st' = fst (allocate_block (Whsize_wosize n) 0 p b st)" "hp = snd (allocate_block (Whsize_wosize n) 0 p b st)"
    using r by simp_all
  have nf: "policy st = 0" "Policy_next_fit = 0" "Policy_first_fit = 1"
    using pol by (simp_all add: Policy_next_fit_def Policy_first_fit_def)
  have w: "Wosize_hd (Hd_val (mem st) b) = w" by (simp add: w_def Wosize_val_def)
  show "hp = (b - 8) + 8 * (w - n)"
    unfolding st' allocate_block_def Let_def snd_conv
    by (simp add: Bosize_hd_def Bsize_wsize_def Whsize_wosize_def w algebra_simps)
  show "fl_prev st' = p" "fl_head st' = fl_head st"
    unfolding st' allocate_block_def Let_def by (simp_all add: nf Next_set_def Hd_bp_set_def)
  show "mem st' = (mem st)(p := mem st b, b - 8 := Make_header 0 0 Caml_white) \<and>
      fl_cur_size st' = fl_cur_size st - Whsize_bp (mem st) b \<and> fl_merge st' = (if fl_merge st = b then p else fl_merge st)"
    if "w \<le> n + 1"
    unfolding st' allocate_block_def Let_def w if_P [OF cmp [THEN iffD2, OF that]]
    by (simp add: nf Next_set_def Next_bp_def Hd_bp_set_def Whsize_bp_def)
  show "mem st' = (mem st)(b - 8 := Make_header (w - (n + 1)) 0 Caml_blue) \<and>
      fl_cur_size st' = fl_cur_size st - (n + 1) \<and> fl_merge st' = fl_merge st" if "w > n + 1"
    unfolding st' allocate_block_def Let_def w if_not_P [OF that [folded not_le, folded cmp]]
    by (simp add: nf Hd_bp_set_def Whsize_wosize_def)
qed

lemma fl_sizes_around:
  assumes "\<forall>x \<in> set (xs @ ys). h' (x - 8) = h (x - 8)"
  shows "fl_sizes h' (xs @ ys) = fl_sizes h (xs @ ys)"
    "fl_sizes h' (xs @ b # ys) = fl_sizes h (xs @ b # ys) - Whsize_bp h b + Whsize_bp h' b"
proof -
  have "map (Whsize_bp h') xs = map (Whsize_bp h) xs" "map (Whsize_bp h') ys = map (Whsize_bp h) ys"
    using assms by (auto simp: Whsize_bp_def Hd_val_def)
  then have "sum_list (map (Whsize_bp h') xs) = sum_list (map (Whsize_bp h) xs)"
    "sum_list (map (Whsize_bp h') ys) = sum_list (map (Whsize_bp h) ys)" by (simp_all only:)
  then show "fl_sizes h' (xs @ ys) = fl_sizes h (xs @ ys)"
    "fl_sizes h' (xs @ b # ys) = fl_sizes h (xs @ b # ys) - Whsize_bp h b + Whsize_bp h' b"
    by (simp_all add: fl_sizes_def)
qed

lemma fl_wf_detach:
  assumes wf: "fl_wf st (xs @ b # ys)" and p: "p = last (fl_head st # xs)"
    and m: "mem st' = (mem st)(p := mem st b, b - 8 := Make_header 0 0 Caml_white)" "fl_head st' = fl_head st" "fl_prev st' = p"
    and c: "fl_cur_size st' = fl_cur_size st - Whsize_bp (mem st) b" "fl_merge st' = (if fl_merge st = b then p else fl_merge st)"
    and o: "\<forall>x \<in> set (xs @ ys). mem st' (x - 8) = mem st (x - 8)"
  shows "fl_wf st' (xs @ ys)"
proof -
  have d: "distinct (fl_words (fl_head st # xs @ b # ys))" using wf by (simp add: fl_wf_def)
  have pin: "p \<in> set (fl_head st # xs)" using p last_in_set [of "fl_head st # xs"] by auto
  have "fl_list (mem st') (fl_head st) (xs @ ys)"
    unfolding m(1) p using wf distinct_words [OF d] words_apart [OF d, of b] by (intro fl_detach) (auto simp: fl_wf_def)
  moreover have "distinct (fl_words (fl_head st # xs @ ys))" using d by (auto simp: fl_words_def)
  moreover have "fl_cur_size st' = fl_sizes (mem st') (xs @ ys)"
    using fl_sizes_around(1) [OF o] wf by (simp add: c fl_wf_def fl_sizes_def)
  moreover have "fl_merge st' \<in> set (fl_head st # xs @ ys)" using wf c(2) pin by (auto simp: fl_wf_def)
  moreover have "\<forall>x \<in> set (xs @ ys). 1 \<le> Wosize_val (mem st') x" using wf o by (auto simp: fl_wf_def Wosize_val_def Hd_val_def)
  ultimately show ?thesis using m(2,3) pin unfolding fl_wf_def by auto
qed

lemma fl_wf_shrink:
  assumes wf: "fl_wf st (xs @ b # ys)" and p: "p \<in> set (fl_head st # xs)" and n: "Wosize_val (mem st) b > n + 1" "n \<le> Wosize_val (mem st) b"
    and m: "mem st' = (mem st)(b - 8 := Make_header (Wosize_val (mem st) b - (n + 1)) 0 Caml_blue)" "fl_head st' = fl_head st" "fl_prev st' = p"
    and c: "fl_cur_size st' = fl_cur_size st - (n + 1)" "fl_merge st' = fl_merge st"
    and o: "\<forall>x \<in> set (xs @ ys). mem st' (x - 8) = mem st (x - 8)"
  shows "fl_wf st' (xs @ b # ys) \<and> Wosize_val (mem st') b = Wosize_val (mem st) b - (n + 1)"
proof -
  let ?w = "Wosize_val (mem st) b"
  have d: "distinct (fl_words (fl_head st # xs @ b # ys))" using wf by (simp add: fl_wf_def)
  have "?w - (n + 1) \<le> Max_wosize" using Wosize_bound [of "mem st" b] n
    by (simp add: word_le_nat_alt word_less_nat_alt unat_sub_if_size)
  then have wb: "Wosize_val (mem st') b = ?w - (n + 1)" unfolding m(1) by (simp add: Wosize_val_def Hd_val_def header_fields)
  have "fl_list (mem st') (fl_head st) (xs @ b # ys)"
    unfolding m(1) using wf words_apart [OF d, of b] by (subst fl_list_upd) (auto simp: fl_wf_def)
  moreover have "Whsize_bp (mem st') b = Whsize_bp (mem st) b - (n + 1)"
    using wb by (simp add: Whsize_bp_def Whsize_hd_def Whsize_wosize_def Wosize_val_def)
  then have "fl_cur_size st' = fl_sizes (mem st') (xs @ b # ys)"
    using fl_sizes_around(2) [OF o, of b] wf by (simp add: c fl_wf_def)
  moreover have "1 \<le> ?w - (n + 1)" using n by (simp add: word_le_nat_alt word_less_nat_alt unat_sub_if_size)
  then have "\<forall>x \<in> set (xs @ b # ys). 1 \<le> Wosize_val (mem st') x" using wf o wb by (auto simp: fl_wf_def Wosize_val_def Hd_val_def)
  ultimately show ?thesis using wf wb c m p unfolding fl_wf_def by auto
qed

lemma allocate_block_next_fit:
  assumes wf: "fl_wf st (xs @ b # ys)" and pol: "policy st = Policy_next_fit"
    and n: "1 \<le> n" "n \<le> Wosize_val (mem st) b" and p: "p = last (fl_head st # xs)"
    and r: "allocate_block (Whsize_wosize n) 0 p b st = (st', hp)"
  defines "w \<equiv> Wosize_val (mem st) b"
  shows "hp = (b - 8) + 8 * (w - n)"
    "w \<le> n + 1 \<Longrightarrow> fl_wf st' (xs @ ys)"
    "w > n + 1 \<Longrightarrow> fl_wf st' (xs @ b # ys) \<and> Wosize_val (mem st') b = w - (n + 1)"
    "\<And>x. x \<in> set (xs @ ys) \<Longrightarrow> Wosize_val (mem st') x = Wosize_val (mem st) x"
    "fl_prev st' = p"
proof -
  note t = allocate_block_takes [OF pol n(2) r, folded w_def]
  have d: "distinct (fl_words (fl_head st # xs @ b # ys))" using wf by (simp add: fl_wf_def)
  have pin: "p \<in> set (fl_head st # xs)" using p last_in_set [of "fl_head st # xs"] by auto
  have o: "\<forall>x \<in> set (xs @ ys). mem st' (x - 8) = mem st (x - 8)"
  proof
    fix x assume x: "x \<in> set (xs @ ys)"
    then have "b - 8 \<noteq> x - 8" using distinct_words [OF d] by auto
    moreover have "x - 8 \<noteq> p" using x pin by (intro words_apart [OF d]) auto
    ultimately show "mem st' (x - 8) = mem st (x - 8)" using t(4,5) by (cases "w \<le> n + 1") (auto simp: not_le)
  qed
  show "hp = (b - 8) + 8 * (w - n)" "fl_prev st' = p" by (fact t(1), fact t(2))
  show "Wosize_val (mem st') x = Wosize_val (mem st) x" if "x \<in> set (xs @ ys)" for x
    using o that by (simp add: Wosize_val_def Hd_val_def)
  show "fl_wf st' (xs @ ys)" if "w \<le> n + 1" using t(2-4) that by (intro fl_wf_detach [OF wf p] o) auto
  show "fl_wf st' (xs @ b # ys) \<and> Wosize_val (mem st') b = w - (n + 1)" if "w > n + 1"
    unfolding w_def using t(2,3,5) that n(2) by (intro fl_wf_shrink [OF wf pin] o) (auto simp: w_def)
qed

definition fl_allocated ::
  "mlsize_t \<Rightarrow> u64 \<Rightarrow> u64 list \<Rightarrow> ('a) freelist_scheme \<Rightarrow> ('a) freelist_scheme \<Rightarrow> bool" where
  "fl_allocated n b bs st st' \<longleftrightarrow>
     (let w = Wosize_val (mem st) b
      in (if w \<le> n + 1 then fl_wf st' (remove1 b bs)
          else fl_wf st' bs \<and> Wosize_val (mem st') b = w - (n + 1)) \<and>
         (\<forall>x \<in> set bs - {b}. Wosize_val (mem st') x = Wosize_val (mem st) x) \<and>
         fl_head st' = fl_head st \<and> gc_sweep_hp st' = gc_sweep_hp st \<and> freelist.more st' = freelist.more st)"

lemma allocate_block_frame:
  assumes "allocate_block sz i p b st = (st', hp)"
  shows "fl_head st' = fl_head st \<and> gc_sweep_hp st' = gc_sweep_hp st \<and> freelist.more st' = freelist.more st"
proof -
  have "st' = fst (allocate_block sz i p b st)" using assms by simp
  then show ?thesis by (simp add: allocate_block_def Let_def Next_set_def Hd_bp_set_def)
qed

lemma allocate_found:
  assumes "fl_wf st (xs @ b # ys)" "policy st = Policy_next_fit" "1 \<le> n" "n \<le> Wosize_val (mem st) b"
  shows "\<exists>st'. allocate_block (Whsize_wosize n) 0 (last (fl_head st # xs)) b st =
      (st', (b - 8) + 8 * (Wosize_val (mem st) b - n)) \<and> fl_allocated n b (xs @ b # ys) st st'"
proof -
  obtain st' hp where r: "allocate_block (Whsize_wosize n) 0 (last (fl_head st # xs)) b st = (st', hp)"
    by (metis surj_pair)
  note a = allocate_block_next_fit [OF assms refl r]
  have "b \<notin> set xs" "b \<notin> set ys"
    using assms(1) distinct_words [of "fl_head st # xs @ b # ys"] by (auto simp: fl_wf_def)
  then have "remove1 b (xs @ b # ys) = xs @ ys" "set (xs @ b # ys) - {b} = set (xs @ ys)" by (auto simp: remove1_append)
  then show ?thesis using a r allocate_block_frame [OF r] unfolding fl_allocated_def by (auto simp: not_le Let_def)
qed

lemma next_fit_cases:
  assumes "fl_wf st (pre @ post)" "policy st = Policy_next_fit" "fl_prev st = last (fl_head st # pre)" "1 \<le> n"
  shows "case find (\<lambda>b. n \<le> Wosize_val (mem st) b) (post @ pre) of
      None \<Rightarrow> caml_fl_allocate n st = Some (st\<lparr> fl_last := last (fl_head st # pre @ post) \<rparr>, 0)
    | Some b \<Rightarrow> \<exists>st'. caml_fl_allocate n st = Some (st', (b - 8) + 8 * (Wosize_val (mem st) b - n)) \<and>
        fl_allocated n b (pre @ post) st st'"
proof -
  let ?h = "mem st" and ?P = "\<lambda>b. n \<le> Wosize_val (mem st) b"
  let ?st = "st\<lparr> fl_last := last (fl_head st # pre @ post) \<rparr>"
  have l: "fl_seg ?h (fl_head st) pre" "fl_list ?h (fl_prev st) post"
    using assms(1,3) by (auto simp: fl_wf_def fl_list_append)
  have d: "distinct (fl_head st # pre)" using assms(1) distinct_words [of "fl_head st # pre @ post"] by (auto simp: fl_wf_def)
  have la: "last (fl_prev st # post) = last (fl_head st # pre @ post)" using assms(3) by auto
  have al: "caml_fl_allocate n st = fl_allocate_next_fit n st" using assms(2) by (simp add: caml_fl_allocate_def)
  show ?thesis
  proof (cases "fl_fit n ?h (fl_prev st) post")
    case (Some pb)
    obtain p b where pb: "pb = (p, b)" by fastforce
    obtain xs ys where x: "post = xs @ b # ys" "p = last (fl_prev st # xs)" "?P b"
      using fl_fit_split [OF Some [unfolded pb]] by blast
    have "find ?P post = Some b"
      using fl_fit_find [of n ?h "fl_prev st" post] unfolding Some pb by simp
    then have f: "find ?P (post @ pre) = Some b" by (simp add: find_append)
    have p: "p = last (fl_head st # pre @ xs)" using x(2) assms(3) by auto
    have "caml_fl_allocate n st = Some (allocate_block (Whsize_wosize n) 0 p b st)"
      unfolding al fl_allocate_next_fit_def next_fit_forward_eq [OF l(2)] Some pb by simp
    then show ?thesis
      using allocate_found [of st "pre @ xs" b ys n] assms(1,2,4) x f unfolding p by simp
  next
    case None
    have w: "fl_seg (mem ?st) (fl_head st) pre" "last (fl_head st # pre) = fl_prev ?st" using l assms(3) by simp_all
    have "caml_fl_allocate n st = next_fit_wrap n (fl_head st) (Next_bp ?h (fl_head st)) ?st"
      unfolding al fl_allocate_next_fit_def next_fit_forward_eq [OF l(2)] None la by simp
    also have "\<dots> = Some (case fl_fit n ?h (fl_head st) pre of
        None \<Rightarrow> (?st, 0) | Some (p, b) \<Rightarrow> allocate_block (Whsize_wosize n) 0 p b ?st)"
      using next_fit_wrap_eq [OF w(1) d w(2), of n] by simp
    finally have c: "caml_fl_allocate n st = \<dots>" .
    have fd: "find ?P (post @ pre) = map_option snd (fl_fit n ?h (fl_head st) pre)"
    proof -
      have "find ?P post = None" using fl_fit_find [of n ?h "fl_prev st" post] unfolding None by simp
      then show ?thesis by (simp add: find_append fl_fit_find)
    qed
    show ?thesis
    proof (cases "fl_fit n ?h (fl_head st) pre")
      case None
      then show ?thesis using c fd by simp
    next
      case (Some pb)
      obtain p b where pb: "pb = (p, b)" by fastforce
      obtain xs ys where x: "pre = xs @ b # ys" "p = last (fl_head st # xs)" "?P b"
        using fl_fit_split [OF Some [unfolded pb]] by blast
      have "fl_wf ?st (xs @ b # (ys @ post))" using assms(1) x(1) by (simp add: fl_wf_def)
      from allocate_found [OF this, of n] show ?thesis
        using assms(2,4) x c fd Some pb by (auto simp: fl_allocated_def)
    qed
  qed
qed

lemma next_fit_found:
  assumes "fl_wf st (pre @ post)" "policy st = Policy_next_fit" "fl_prev st = last (fl_head st # pre)" "1 \<le> n"
    "find (\<lambda>b. n \<le> Wosize_val (mem st) b) (post @ pre) = Some b"
  obtains st' where "caml_fl_allocate n st = Some (st', (b - 8) + 8 * (Wosize_val (mem st) b - n))"
    "fl_allocated n b (pre @ post) st st'"
  using next_fit_cases [OF assms(1-4)] unfolding assms(5) by auto

text \<open>C3: Next-fit allocation on a well-formed free list, whose blocks after \<open>fl_prev\<close> are \<open>post\<close> and
  those before it \<open>pre\<close>: it terminates, returns null exactly when no free block is big enough, and
  otherwise takes the first such block in the order \<open>post\<close>, \<open>pre\<close>, carves the new block out of its
  end, unlinks the free block if at most a fragment would be left and shrinks it otherwise, and
  keeps the list, its order, the sizes of the other blocks and the accounting of free words.\<close>

theorem next_fit_allocate:
  assumes "fl_wf st (pre @ post)" "policy st = Policy_next_fit" "fl_prev st = last (fl_head st # pre)" "1 \<le> n"
  shows "case find (\<lambda>b. n \<le> Wosize_val (mem st) b) (post @ pre) of
      None \<Rightarrow> caml_fl_allocate n st = Some (st\<lparr> fl_last := last (fl_head st # pre @ post) \<rparr>, 0)
    | Some b \<Rightarrow> \<exists>st'. caml_fl_allocate n st = Some (st', (b - 8) + 8 * (Wosize_val (mem st) b - n)) \<and>
        fl_allocated n b (pre @ post) st st'"
  using assms by (rule next_fit_cases)

text \<open>A free list with one block of five words at address 2000.\<close>

definition one_block_freelist :: freelist where
  "one_block_freelist =
     \<lparr> mem = (\<lambda>a. if a = 1000 then 2000 else if a = 1992 then Make_header 5 0 Caml_blue else 0),
       fl_head = 1000, fl_prev = 1000, fl_last = 0, fl_merge = 1000, fl_cur_size = 6, flp = replicate FLP_MAX 0,
       flp_size = 0, beyond = 0, policy = Policy_next_fit, last_fragment = 0, gc_sweep_hp = 0 \<rparr>"

lemma one_block_wosize: "Wosize_val (mem one_block_freelist) 2000 = 5"
  by (simp add: one_block_freelist_def Wosize_val_def Hd_val_def header_fields Max_wosize_def)

lemma one_block_wf: "fl_wf one_block_freelist [2000]"
  using one_block_wosize
  by (simp add: fl_wf_def fl_words_def fl_sizes_def Whsize_bp_def Whsize_hd_def Whsize_wosize_def Wosize_val_def)
    (simp add: one_block_freelist_def)

theorem next_fit_allocate_witness:
  "\<exists>st'. caml_fl_allocate 3 one_block_freelist = Some (st', 2008) \<and> fl_allocated 3 2000 [2000] one_block_freelist st'"
  using next_fit_allocate [of one_block_freelist "[]" "[2000]" 3] one_block_wf one_block_wosize
  by (simp add: one_block_freelist_def cong: if_cong)

end
