(* ===== verification/Memory.thy ===== *)
theory Memory
  imports Page_Table Freelist
begin

text \<open>
  The memory manager of \<open>byterun/memory.c\<close> over the page table and the free list: heap
  chunks, allocation in the major heap, the write barrier and the tables it feeds
  (\<open>byterun/minor_gc.c\<close>, \<open>byterun/major_gc.c\<close>).  The C library's allocators are the record
  \<open>libc\<close>, a parameter.  A result says whether the code returns, raises an exception, enters a
  collection, which the model does not follow, or diverges.
\<close>

section \<open>State\<close>

datatype 'a outcome = Value 'a | Raised exn | Collects | Loops

fun and_then :: "'a outcome \<Rightarrow> ('a \<Rightarrow> 'b outcome) \<Rightarrow> 'b outcome" where
  "and_then (Value x) k = k x"
| "and_then (Raised e) k = Raised e"
| "and_then Collects k = Collects"
| "and_then Loops k = Loops"

fun returning :: "'a option \<Rightarrow> 'a outcome" where
  "returning (Some x) = Value x"
| "returning None = Loops"

record libc =
  malloc :: "u64 \<Rightarrow> u64"
  calloc :: "u64 \<Rightarrow> bool"
  realloc :: "u64 \<Rightarrow> bool"

text \<open>A reference table: the entries from \<open>base\<close> to \<open>ptr\<close>, and the positions of the other
  pointers relative to \<open>base\<close>.\<close>

record caml_ref_table =
  rt_base :: bool
  rt_entries :: "u64 list"
  rt_end :: u64
  rt_threshold :: u64
  rt_limit :: u64
  rt_size :: u64
  rt_reserve :: u64

record memory = freelist +
  pages :: page_table
  heap_start :: u64
  stat_heap_size :: u64
  stat_top_heap_size :: u64
  stat_heap_chunks :: u64
  gc_phase :: cint
  gray_vals :: "value_t list"
  gray_vals_size :: u64
  heap_is_pure :: bool
  ref_table :: caml_ref_table
  young_start :: u64
  young_end :: u64
  young_ptr :: u64
  young_limit :: u64
  minor_heap_size :: u64
  in_minor_collection :: bool
  allocated_words :: u64
  dependent_size :: u64
  dependent_allocated :: u64
  percent_free :: u64
  major_heap_increment :: u64
  force_major_slice :: bool
  something_to_do :: bool
  atom_table :: u64

definition Phase_mark :: cint where "Phase_mark = 0"
definition Phase_sweep :: cint where "Phase_sweep = 1"
definition Phase_idle :: cint where "Phase_idle = 2"

section \<open>Heap chunks\<close>

definition Bhsize_wosize :: "mlsize_t \<Rightarrow> mlsize_t" where "Bhsize_wosize sz = Bsize_wsize (Whsize_wosize sz)"
definition Wosize_bhsize :: "mlsize_t \<Rightarrow> mlsize_t" where "Wosize_bhsize sz = sz div 8 - 1"
definition Wsize_bsize :: "mlsize_t \<Rightarrow> mlsize_t" where "Wsize_bsize sz = sz div 8"

definition heap_chunk_head_size :: u64 where "heap_chunk_head_size = 32"
definition Chunk_block :: "u64 \<Rightarrow> u64" where "Chunk_block c = c - 32"
definition Chunk_size :: "u64 \<Rightarrow> u64" where "Chunk_size c = c - 16"
definition Chunk_next :: "u64 \<Rightarrow> u64" where "Chunk_next c = c - 8"

definition Heap_chunk_min :: u64 where "Heap_chunk_min = 2 * Page_size div 8"

definition clip_heap_chunk_size :: "u64 \<Rightarrow> u64" where
  "clip_heap_chunk_size request =
     (let request = (if request < Bsize_wsize Heap_chunk_min then Bsize_wsize Heap_chunk_min else request)
      in push_bit Page_log (drop_bit Page_log (request + Page_size - 1)))"

definition caml_round_heap_chunk_size :: "u64 \<Rightarrow> ('a) memory_scheme \<Rightarrow> u64 outcome" where
  "caml_round_heap_chunk_size request st =
     (let result = (if request < major_heap_increment st then major_heap_increment st else request);
          result = clip_heap_chunk_size result
      in if result < request then Raised Out_of_memory else Value result)"

definition caml_aligned_malloc :: "libc \<Rightarrow> u64 \<Rightarrow> u64 \<Rightarrow> (u64 \<times> u64) option" where
  "caml_aligned_malloc lib sz align_ofs =
     (let raw = malloc lib (sz + Page_size)
      in if raw = 0 then None
         else Some (((raw + align_ofs) div Page_size + 1) * Page_size - align_ofs, raw))"

definition caml_alloc_for_heap :: "libc \<Rightarrow> u64 \<Rightarrow> ('a) memory_scheme \<Rightarrow> ('a) memory_scheme \<times> u64" where
  "caml_alloc_for_heap lib request st =
     (case caml_aligned_malloc lib (request + heap_chunk_head_size) heap_chunk_head_size of
        None \<Rightarrow> (st, 0)
      | Some (m, block) \<Rightarrow>
          (let m = m + heap_chunk_head_size
           in (st\<lparr> mem := (mem st)(Chunk_size m := request, Chunk_block m := block) \<rparr>, m)))"

text \<open>The position in the chain of chunks: \<open>None\<close> is the variable \<open>caml_heap_start\<close>.\<close>

partial_function (option) chunk_position ::
  "heap \<Rightarrow> u64 \<Rightarrow> u64 option \<Rightarrow> u64 \<Rightarrow> (u64 option \<times> u64) option" where
  "chunk_position h m prv cur =
     (if cur \<noteq> 0 \<and> cur < m then chunk_position h m (Some cur) (h (Chunk_next cur)) else Some (prv, cur))"

declare chunk_position.simps [code]

definition caml_add_to_heap :: "libc \<Rightarrow> u64 \<Rightarrow> ('a) memory_scheme \<Rightarrow> (('a) memory_scheme \<times> cint) option" where
  "caml_add_to_heap lib m st =
     (let sz = mem st (Chunk_size m)
      in case caml_page_table_add (calloc lib) In_heap m (m + sz) (pages st) of
           None \<Rightarrow> None
         | Some (t, r) \<Rightarrow>
             (let st = st\<lparr> pages := t \<rparr>
              in if r \<noteq> 0 then Some (st, - 1)
                 else
                   (case chunk_position (mem st) m None (heap_start st) of
                      None \<Rightarrow> None
                    | Some (prv, cur) \<Rightarrow>
                        (let st = st\<lparr> mem := (mem st)(Chunk_next m := cur) \<rparr>;
                             st = (case prv of
                                     None \<Rightarrow> st\<lparr> heap_start := m \<rparr>
                                   | Some c \<Rightarrow> st\<lparr> mem := (mem st)(Chunk_next c := m) \<rparr>);
                             st = st\<lparr> stat_heap_chunks := stat_heap_chunks st + 1,
                                      stat_heap_size := stat_heap_size st + sz \<rparr>
                         in Some (if stat_heap_size st > stat_top_heap_size st
                                  then st\<lparr> stat_top_heap_size := stat_heap_size st \<rparr> else st, 0)))))"

partial_function (option) expand_heap_blocks ::
  "u64 \<Rightarrow> u64 \<Rightarrow> u64 \<Rightarrow> u64 \<Rightarrow> heap \<Rightarrow> (heap \<times> u64 \<times> u64 \<times> u64) option" where
  "expand_heap_blocks m hp prev remain h =
     (if Wosize_bhsize remain > Max_wosize then
        (let h = h(hp := Make_header Max_wosize 0 Caml_blue);
             hp = hp + Bhsize_wosize Max_wosize;
             remain = remain - Bhsize_wosize Max_wosize;
             h = Field_set h (prev + 8) 0 (hp + 8);
             h = Field_set h (m + 8) 1 (hp + 8)
         in expand_heap_blocks m hp hp remain h)
      else Some (h, hp, prev, remain))"

declare expand_heap_blocks.simps [code]

definition expand_heap :: "libc \<Rightarrow> mlsize_t \<Rightarrow> ('a) memory_scheme \<Rightarrow> (('a) memory_scheme \<times> u64) outcome" where
  "expand_heap lib request st =
     (let over_request = request + request div 100 * percent_free st
      in and_then (caml_round_heap_chunk_size (Bhsize_wosize over_request) st)
         (\<lambda>malloc_request.
            (let (st, m) = caml_alloc_for_heap lib malloc_request st
             in if m = 0 then Value (st, 0)
                else
                  and_then (returning (expand_heap_blocks m m m malloc_request (mem st)))
                  (\<lambda>(h, hp, prev, remain).
                     (let h = (if remain > 1 then
                                 (let h = h(hp := Make_header (Wosize_bhsize remain) 0 Caml_blue);
                                      h = Field_set h (prev + 8) 0 (hp + 8);
                                      h = Field_set h (m + 8) 1 (hp + 8)
                                  in Field_set h (hp + 8) 0 0)
                               else
                                 (let h = Field_set h (prev + 8) 0 0
                                  in if remain = 1 then h(hp := Make_header 0 0 Caml_white) else h))
                      in and_then (returning (caml_add_to_heap lib m (st\<lparr> mem := h \<rparr>)))
                         (\<lambda>(st, r). if r \<noteq> 0 then Value (st, 0) else Value (st, m + 8)))))))"

partial_function (option) chunk_pointer :: "heap \<Rightarrow> u64 \<Rightarrow> u64 option \<Rightarrow> u64 \<Rightarrow> u64 option option" where
  "chunk_pointer h chunk prv cur =
     (if cur \<noteq> chunk then chunk_pointer h chunk (Some cur) (h (Chunk_next cur)) else Some prv)"

declare chunk_pointer.simps [code]

definition caml_shrink_heap :: "libc \<Rightarrow> u64 \<Rightarrow> ('a) memory_scheme \<Rightarrow> ('a) memory_scheme option" where
  "caml_shrink_heap lib chunk st =
     (if chunk = heap_start st then Some st
      else
        (let sz = mem st (Chunk_size chunk);
             st = st\<lparr> stat_heap_size := stat_heap_size st - sz, stat_heap_chunks := stat_heap_chunks st - 1 \<rparr>
         in case chunk_pointer (mem st) chunk None (heap_start st) of
              None \<Rightarrow> None
            | Some cp \<Rightarrow>
                (let next = mem st (Chunk_next chunk);
                     st = (case cp of
                             None \<Rightarrow> st\<lparr> heap_start := next \<rparr>
                           | Some c \<Rightarrow> st\<lparr> mem := (mem st)(Chunk_next c := next) \<rparr>)
                 in map_option (\<lambda>(t, r). st\<lparr> pages := t \<rparr>)
                      (caml_page_table_remove (calloc lib) In_heap chunk (chunk + sz) (pages st)))))"

section \<open>Allocation in the major heap\<close>

definition caml_urge_major_slice :: "('a) memory_scheme \<Rightarrow> ('a) memory_scheme" where
  "caml_urge_major_slice st = st\<lparr> force_major_slice := True, something_to_do := True \<rparr>"

definition caml_allocation_color :: "u64 \<Rightarrow> ('a) memory_scheme \<Rightarrow> uintnat" where
  "caml_allocation_color hp st =
     (if gc_phase st = Phase_mark \<or> gc_phase st = Phase_sweep \<and> hp \<ge> gc_sweep_hp st then Caml_black else Caml_white)"

definition caml_alloc_shr ::
  "libc \<Rightarrow> mlsize_t \<Rightarrow> u32 \<Rightarrow> ('a) memory_scheme \<Rightarrow> (('a) memory_scheme \<times> value_t) outcome" where
  "caml_alloc_shr lib wosize tag st =
     (if wosize > Max_wosize then Raised Out_of_memory
      else
        and_then (returning (caml_fl_allocate wosize st))
        (\<lambda>(st, hp).
           and_then
             (if hp = 0 then
                and_then (expand_heap lib wosize st)
                (\<lambda>(st, new_block).
                   if new_block = 0 then
                     if in_minor_collection st then Raised (Fatal_error ''Fatal error: out of memory.'')
                     else Raised Out_of_memory
                   else
                     and_then (returning (caml_fl_add_blocks new_block st))
                     (\<lambda>st. returning (caml_fl_allocate wosize st)))
              else Value (st, hp))
             (\<lambda>(st, hp).
                (let st = st\<lparr> mem := (mem st)(hp := Make_header wosize tag
                                (if gc_phase st = Phase_mark \<or> gc_phase st = Phase_sweep \<and> hp \<ge> gc_sweep_hp st
                                 then Caml_black else Caml_white)) \<rparr>;
                     st = st\<lparr> allocated_words := allocated_words st + Whsize_wosize wosize \<rparr>;
                     st = (if allocated_words st > Wsize_bsize (minor_heap_size st) then caml_urge_major_slice st else st)
                 in Value (st, hp + 8)))))"

definition caml_alloc_dependent_memory :: "mlsize_t \<Rightarrow> ('a) memory_scheme \<Rightarrow> ('a) memory_scheme" where
  "caml_alloc_dependent_memory nbytes st =
     st\<lparr> dependent_size := dependent_size st + nbytes div 8, dependent_allocated := dependent_allocated st + nbytes div 8 \<rparr>"

definition caml_free_dependent_memory :: "mlsize_t \<Rightarrow> ('a) memory_scheme \<Rightarrow> ('a) memory_scheme" where
  "caml_free_dependent_memory nbytes st =
     (if dependent_size st < nbytes div 8 then st\<lparr> dependent_size := 0 \<rparr>
      else st\<lparr> dependent_size := dependent_size st - nbytes div 8 \<rparr>)"

section \<open>The write barrier\<close>

definition Is_young :: "value_t \<Rightarrow> ('a) memory_scheme \<Rightarrow> bool" where
  "Is_young v st \<longleftrightarrow> v < young_end st \<and> v > young_start st"

definition caml_alloc_table :: "libc \<Rightarrow> u64 \<Rightarrow> u64 \<Rightarrow> caml_ref_table outcome" where
  "caml_alloc_table lib sz rsv =
     (if malloc lib ((sz + rsv) * 8) = 0 \<and> (sz + rsv) * 8 \<noteq> 0 then Raised Out_of_memory
      else Value \<lparr> rt_base = True, rt_entries = [], rt_end = sz + rsv, rt_threshold = sz, rt_limit = sz,
                   rt_size = sz, rt_reserve = rsv \<rparr>)"

definition caml_realloc_ref_table :: "libc \<Rightarrow> ('a) memory_scheme \<Rightarrow> ('a) memory_scheme outcome" where
  "caml_realloc_ref_table lib st =
     (let tbl = ref_table st
      in if \<not> rt_base tbl then
           and_then (caml_alloc_table lib (minor_heap_size st div 8 div 8) 256) (\<lambda>tbl. Value (st\<lparr> ref_table := tbl \<rparr>))
         else if rt_limit tbl = rt_threshold tbl then
           Value (caml_urge_major_slice (st\<lparr> ref_table := tbl\<lparr> rt_limit := rt_end tbl \<rparr> \<rparr>))
         else
           (let tbl = tbl\<lparr> rt_size := rt_size tbl * 2 \<rparr>;
                sz = (rt_size tbl + rt_reserve tbl) * 8
            in if \<not> realloc lib sz then Raised (Fatal_error ''Fatal error: ref_table overflow'')
               else
                 (let tbl = tbl\<lparr> rt_end := rt_size tbl + rt_reserve tbl, rt_threshold := rt_size tbl \<rparr>
                  in Value (st\<lparr> ref_table := tbl\<lparr> rt_limit := rt_end tbl \<rparr> \<rparr>))))"

definition add_to_ref_table :: "libc \<Rightarrow> u64 \<Rightarrow> ('a) memory_scheme \<Rightarrow> ('a) memory_scheme outcome" where
  "add_to_ref_table lib fp st =
     and_then (if of_nat (length (rt_entries (ref_table st))) \<ge> rt_limit (ref_table st)
               then caml_realloc_ref_table lib st else Value st)
     (\<lambda>st. Value (st\<lparr> ref_table := (ref_table st)\<lparr> rt_entries := rt_entries (ref_table st) @ [fp] \<rparr> \<rparr>))"

definition realloc_gray_vals :: "libc \<Rightarrow> ('a) memory_scheme \<Rightarrow> ('a) memory_scheme" where
  "realloc_gray_vals lib st =
     (if gray_vals_size st < stat_heap_size st div 128 then
        if \<not> realloc lib (2 * gray_vals_size st * 8) then st\<lparr> gray_vals := [], heap_is_pure := False \<rparr>
        else st\<lparr> gray_vals := take (unat (gray_vals_size st)) (gray_vals st), gray_vals_size := gray_vals_size st * 2 \<rparr>
      else st\<lparr> gray_vals := take (unat (gray_vals_size st div 2)) (gray_vals st), heap_is_pure := False \<rparr>)"

definition darken_block :: "heap \<Rightarrow> value_t \<Rightarrow> value_t" where
  "darken_block h v = (if Tag_hd (Hd_val h v) = Infix_tag then v - Infix_offset_val h v else v)"

definition caml_darken :: "libc \<Rightarrow> value_t \<Rightarrow> ('a) memory_scheme \<Rightarrow> ('a) memory_scheme option" where
  "caml_darken lib v st =
     (if \<not> Is_block v then Some st
      else
        (case Is_in_heap (pages st) v of
           None \<Rightarrow> None
         | Some False \<Rightarrow> Some st
         | Some True \<Rightarrow>
             (let v = darken_block (mem st) v;
                  h = Hd_val (mem st) v;
                  t = Tag_hd h
              in Some (if Color_hd h = Caml_white then
                         if t < No_scan_tag then
                           (let st = st\<lparr> mem := Hd_val_set (mem st) v (Grayhd_hd h), gray_vals := gray_vals st @ [v] \<rparr>
                            in if of_nat (length (gray_vals st)) \<ge> gray_vals_size st then realloc_gray_vals lib st else st)
                         else st\<lparr> mem := Hd_val_set (mem st) v (Blackhd_hd h) \<rparr>
                       else st))))"

definition caml_modify :: "libc \<Rightarrow> u64 \<Rightarrow> value_t \<Rightarrow> ('a) memory_scheme \<Rightarrow> ('a) memory_scheme outcome" where
  "caml_modify lib fp val st =
     (let old = mem st fp;
          st = st\<lparr> mem := (mem st)(fp := val) \<rparr>
      in and_then (returning (Is_in_heap (pages st) fp))
         (\<lambda>in_heap.
            if in_heap then
              and_then (if gc_phase st = Phase_mark then returning (caml_darken lib old st) else Value st)
              (\<lambda>st. if Is_block val \<and> Is_young val st \<and> \<not> (Is_block old \<and> Is_young old st)
                    then add_to_ref_table lib fp st else Value st)
            else Value st))"

definition caml_initialize :: "libc \<Rightarrow> u64 \<Rightarrow> value_t \<Rightarrow> ('a) memory_scheme \<Rightarrow> ('a) memory_scheme outcome" where
  "caml_initialize lib fp val st =
     (let st = st\<lparr> mem := (mem st)(fp := val) \<rparr>
      in if Is_block val \<and> Is_young val st then
           and_then (returning (Is_in_heap (pages st) fp))
           (\<lambda>in_heap. if in_heap then add_to_ref_table lib fp st else Value st)
         else Value st)"

section \<open>The remembered set\<close>

text \<open>Every field of the major heap that points to a young block is in the reference table.\<close>

definition remembered :: "u64 set \<Rightarrow> ('a) memory_scheme \<Rightarrow> bool" where
  "remembered F st \<longleftrightarrow>
     (\<forall>fp \<in> F. Is_in_heap (pages st) fp = Some True \<longrightarrow> Is_block (mem st fp) \<longrightarrow> Is_young (mem st fp) st \<longrightarrow>
        fp \<in> set (rt_entries (ref_table st)))"

lemma realloc_ref_table_keeps:
  assumes "caml_realloc_ref_table lib st = Value st'" "rt_base (ref_table st) \<or> rt_entries (ref_table st) = []"
  shows "mem st' = mem st" "pages st' = pages st" "young_start st' = young_start st" "young_end st' = young_end st"
    "rt_entries (ref_table st') = rt_entries (ref_table st)"
  using assms
  by (auto simp: caml_realloc_ref_table_def caml_alloc_table_def caml_urge_major_slice_def Let_def split: if_splits)

lemma add_to_ref_table_keeps:
  assumes "add_to_ref_table lib fp st = Value st'" "rt_base (ref_table st) \<or> rt_entries (ref_table st) = []"
  shows "mem st' = mem st" "pages st' = pages st" "young_start st' = young_start st" "young_end st' = young_end st"
    "set (rt_entries (ref_table st')) = insert fp (set (rt_entries (ref_table st)))"
proof -
  obtain u where u: "(if of_nat (length (rt_entries (ref_table st))) \<ge> rt_limit (ref_table st)
      then caml_realloc_ref_table lib st else Value st) = Value u"
    using assms(1) unfolding add_to_ref_table_def by (cases "if of_nat (length (rt_entries (ref_table st))) \<ge> rt_limit (ref_table st)
      then caml_realloc_ref_table lib st else Value st") (simp_all split: if_splits)
  have st': "st' = u\<lparr> ref_table := (ref_table u)\<lparr> rt_entries := rt_entries (ref_table u) @ [fp] \<rparr> \<rparr>"
    using assms(1) unfolding add_to_ref_table_def u by simp
  have "mem u = mem st" "pages u = pages st" "young_start u = young_start st" "young_end u = young_end st"
    "rt_entries (ref_table u) = rt_entries (ref_table st)"
    using u realloc_ref_table_keeps [OF _ assms(2), of lib u] by (auto split: if_splits)
  then show "mem st' = mem st" "pages st' = pages st" "young_start st' = young_start st" "young_end st' = young_end st"
    "set (rt_entries (ref_table st')) = insert fp (set (rt_entries (ref_table st)))"
    unfolding st' by auto
qed
lemma Is_in_heap_total: "pt_wf t \<Longrightarrow> Is_in_heap t a = Some (page_kind (entries t) a AND In_heap \<noteq> 0)"
  by (simp add: Is_in_heap_def hashed.lookup_kind)

lemma realloc_gray_vals_keeps:
  "mem (realloc_gray_vals lib st) = mem st" "pages (realloc_gray_vals lib st) = pages st"
  "young_start (realloc_gray_vals lib st) = young_start st" "young_end (realloc_gray_vals lib st) = young_end st"
  "ref_table (realloc_gray_vals lib st) = ref_table st"
  by (auto simp: realloc_gray_vals_def)

lemma caml_darken_keeps:
  assumes "pt_wf (pages st)"
  shows "\<exists>st'. caml_darken lib v st = Some st' \<and> pages st' = pages st \<and> young_start st' = young_start st \<and>
    young_end st' = young_end st \<and> ref_table st' = ref_table st \<and>
    (\<forall>a. a \<noteq> darken_block (mem st) v - 8 \<longrightarrow> mem st' a = mem st a)"
  by (simp add: caml_darken_def Is_in_heap_total [OF assms] Let_def Hd_val_set_def realloc_gray_vals_keeps split: bool.split)

lemma realloc_ref_table_total:
  assumes "\<And>n. malloc lib n \<noteq> 0" "\<And>n. realloc lib n"
  shows "\<exists>st'. caml_realloc_ref_table lib st = Value st'"
  using assms by (simp add: caml_realloc_ref_table_def caml_alloc_table_def Let_def)

lemma add_to_ref_table_total:
  assumes "\<And>n. malloc lib n \<noteq> 0" "\<And>n. realloc lib n"
  shows "\<exists>st'. add_to_ref_table lib fp st = Value st'"
  using realloc_ref_table_total [OF assms, of st] by (auto simp: add_to_ref_table_def)

lemma caml_modify_value:
  assumes "pt_wf (pages st)" "\<And>n. malloc lib n \<noteq> 0" "\<And>n. realloc lib n"
    and rt: "rt_base (ref_table st) \<or> rt_entries (ref_table st) = []"
  shows "\<exists>st'. caml_modify lib fp val st = Value st' \<and> pages st' = pages st \<and> young_start st' = young_start st \<and>
    young_end st' = young_end st \<and>
    (\<forall>a. a \<noteq> darken_block ((mem st)(fp := val)) (mem st fp) - 8 \<longrightarrow> mem st' a = ((mem st)(fp := val)) a) \<and>
    set (rt_entries (ref_table st)) \<subseteq> set (rt_entries (ref_table st')) \<and>
    (Is_in_heap (pages st) fp = Some True \<longrightarrow> Is_block val \<longrightarrow> Is_young val st \<longrightarrow> \<not> (Is_block (mem st fp) \<and> Is_young (mem st fp) st) \<longrightarrow>
       fp \<in> set (rt_entries (ref_table st')))"
proof -
  let ?old = "mem st fp" and ?s = "st\<lparr> mem := (mem st)(fp := val) \<rparr>"
  obtain in_heap where ih: "Is_in_heap (pages st) fp = Some in_heap" using Is_in_heap_total [OF assms(1)] by blast
  show ?thesis
  proof (cases in_heap)
    case False
    then show ?thesis using ih by (simp add: caml_modify_def)
  next
    case True
    obtain d where d: "(if gc_phase ?s = Phase_mark then returning (caml_darken lib ?old ?s) else Value ?s) = Value d"
      "pages d = pages st" "young_start d = young_start st" "young_end d = young_end st" "ref_table d = ref_table st"
      "\<And>a. a \<noteq> darken_block (mem ?s) ?old - 8 \<Longrightarrow> mem d a = mem ?s a"
    proof (cases "gc_phase ?s = Phase_mark")
      case True
      have "pt_wf (pages ?s)" using assms(1) by simp
      from caml_darken_keeps [OF this, of lib ?old] show thesis using True that by auto
    qed (use that [of ?s] in auto)
    have young: "Is_young v d = Is_young v st" for v using d by (simp add: Is_young_def)
    let ?c = "Is_block val \<and> Is_young val st \<and> \<not> (Is_block ?old \<and> Is_young ?old st)"
    have m: "caml_modify lib fp val st = (if ?c then add_to_ref_table lib fp d else Value d)"
      unfolding caml_modify_def Let_def using ih True d(1) young by simp
    show ?thesis
    proof (cases ?c)
      case True
      obtain e where e: "add_to_ref_table lib fp d = Value e"
        using add_to_ref_table_total [of lib fp d] assms(2,3) by blast
      from add_to_ref_table_keeps [OF e] rt d(5) have k: "mem e = mem d" "pages e = pages d" "young_start e = young_start d"
        "young_end e = young_end d" "set (rt_entries (ref_table e)) = insert fp (set (rt_entries (ref_table d)))" by simp_all
      show ?thesis using m True e k d by auto
    next
      case False
      then show ?thesis using m d by auto
    qed
  qed
qed

text \<open>C4: The write barrier keeps the remembered set: if every field of \<open>F\<close> in the major heap that points
  to a young block is in the reference table, and the block that the barrier may darken has its header
  outside \<open>F\<close>, then \<open>caml_modify\<close> on a field of \<open>F\<close> returns, stores the value, changes no other field of
  \<open>F\<close>, and the same holds afterwards.\<close>

theorem caml_modify_remembered:
  assumes "remembered F st" "fp \<in> F" "pt_wf (pages st)" "\<And>n. malloc lib n \<noteq> 0" "\<And>n. realloc lib n"
    and "rt_base (ref_table st) \<or> rt_entries (ref_table st) = []"
    and "darken_block ((mem st)(fp := val)) (mem st fp) - 8 \<notin> F"
  shows "\<exists>st'. caml_modify lib fp val st = Value st' \<and> (\<forall>a \<in> F. mem st' a = (if a = fp then val else mem st a)) \<and>
    remembered F st'"
proof -
  obtain st' where s: "caml_modify lib fp val st = Value st'" "pages st' = pages st" "young_start st' = young_start st"
    "young_end st' = young_end st"
    "\<forall>a. a \<noteq> darken_block ((mem st)(fp := val)) (mem st fp) - 8 \<longrightarrow> mem st' a = ((mem st)(fp := val)) a"
    "set (rt_entries (ref_table st)) \<subseteq> set (rt_entries (ref_table st'))"
    "Is_in_heap (pages st) fp = Some True \<longrightarrow> Is_block val \<longrightarrow> Is_young val st \<longrightarrow> \<not> (Is_block (mem st fp) \<and> Is_young (mem st fp) st) \<longrightarrow>
       fp \<in> set (rt_entries (ref_table st'))"
    using caml_modify_value [OF assms(3) assms(4,5,6), where fp = fp and val = val] by blast
  have mem': "\<forall>a \<in> F. mem st' a = (if a = fp then val else mem st a)" using s(5) assms(7) by (metis fun_upd_apply)
  have young: "Is_young v st' = Is_young v st" for v using s by (simp add: Is_young_def)
  have "remembered F st'"
    unfolding remembered_def young s(2)
  proof (intro ballI impI)
    fix g assume g: "g \<in> F" "Is_in_heap (pages st) g = Some True" "Is_block (mem st' g)" "Is_young (mem st' g) st"
    show "g \<in> set (rt_entries (ref_table st'))"
    proof (cases "g = fp")
      case True
      then show ?thesis using g mem' s(6,7) assms(1,2) unfolding remembered_def by (metis subsetD)
    next
      case False
      then show ?thesis using g mem' s(6) assms(1) unfolding remembered_def by (metis subsetD)
    qed
  qed
  with s(1) mem' show ?thesis by blast
qed

section \<open>A memory with one heap page\<close>

definition one_page_table :: page_table where
  "one_page_table =
     \<lparr> pt_size = 16, pt_shift = 60, pt_mask = 15, occupancy = 1,
       entries = [0, 0, 0, 0, 0, 0, 0, 0x7F001, 0, 0, 0, 0, 0, 0, 0, 0] \<rparr>"

lemma one_page_wf: "pt_wf one_page_table"
proof -
  let ?es = "entries one_page_table"
  have l: "length ?es = 16" by (simp add: one_page_table_def)
  have h: "page_home one_page_table 0x7F001 = 7"
    by (simp add: page_home_def Hash_def one_page_table_def HASH_FACTOR_def Page_def Page_log_def)
  have e: "?es ! 7 = 0x7F001" by (simp add: one_page_table_def)
  have z: "?es ! i = 0" if "i < 16" "i \<noteq> 7" for i
    using that by (auto simp: one_page_table_def nth_Cons' less_Suc_eq numeral_eq_Suc)
  have "probing (page_home one_page_table) ?es"
    unfolding probing_def l
  proof (intro allI impI)
    fix i assume "i < 16" "?es ! i \<noteq> 0"
    then have i: "i = 7" using z by blast
    show "finds 16 (page_stop ?es (?es ! i)) (page_home one_page_table (?es ! i)) i"
      unfolding i e h by (rule finds.here) (simp add: page_stop_def e)
  qed
  then show ?thesis
    by (simp add: pt_wf_def pt_shape_def pt_bits_def page_count_def) (simp add: one_page_table_def)
qed

definition one_page_memory :: memory where
  "one_page_memory =
     freelist.extend (one_block_freelist\<lparr> mem := \<lambda>_. 1 \<rparr>)
       \<lparr> pages = one_page_table, heap_start = 0, stat_heap_size = 4096, stat_top_heap_size = 4096, stat_heap_chunks = 1,
         gc_phase = Phase_mark, gray_vals = [], gray_vals_size = 16, heap_is_pure = True,
         ref_table = \<lparr> rt_base = False, rt_entries = [], rt_end = 0, rt_threshold = 0, rt_limit = 0, rt_size = 0, rt_reserve = 0 \<rparr>,
         young_start = 0x10000, young_end = 0x20000, young_ptr = 0x1F000, young_limit = 0x10000, minor_heap_size = 0x10000,
         in_minor_collection = False, allocated_words = 0, dependent_size = 0, dependent_allocated = 0, percent_free = 80,
         major_heap_increment = 0x1F000, force_major_slice = False, something_to_do = False, atom_table = 0 \<rparr>"

theorem caml_modify_remembered_witness:
  "\<exists>st'. caml_modify \<lparr> malloc = \<lambda>_. 8, calloc = \<lambda>_. True, realloc = \<lambda>_. True \<rparr> 0x7F100 0x10100 one_page_memory = Value st' \<and>
    (\<forall>a \<in> {0x7F100, 0x7F108}. mem st' a = (if a = 0x7F100 then 0x10100 else mem one_page_memory a)) \<and>
    remembered {0x7F100, 0x7F108} st'"
proof (rule caml_modify_remembered)
  show "remembered {0x7F100, 0x7F108} one_page_memory"
    by (simp add: remembered_def one_page_memory_def freelist.defs one_block_freelist_def Is_block_def)
  show "pt_wf (pages one_page_memory)" using one_page_wf by (simp add: one_page_memory_def freelist.defs)
qed (simp_all add: one_page_memory_def freelist.defs one_block_freelist_def darken_block_def Hd_val_def Tag_hd_def Infix_tag_def)

lemma fl_wf_outside:
  assumes "fl_wf st bs" "a \<notin> set (fl_words (fl_head st # bs))"
    and "mem st' = (mem st)(a := v)" "fl_head st' = fl_head st" "fl_prev st' = fl_prev st" "fl_merge st' = fl_merge st"
      "fl_cur_size st' = fl_cur_size st"
  shows "fl_wf st' bs"
proof -
  have a: "a \<notin> set (fl_head st # bs)" "\<And>b. b \<in> set bs \<Longrightarrow> a \<noteq> b - 8"
    using assms(2) by (auto simp: set_fl_words)
  have "fl_list (mem st') (fl_head st) bs" using assms(1,3) fl_list_upd [OF a(1)] by (simp add: fl_wf_def)
  moreover have "\<forall>b \<in> set bs. 1 \<le> Wosize_val (mem st') b" using assms(1,3) a(2) by (auto simp: fl_wf_def Wosize_upd)
  moreover have "fl_sizes (mem st') bs = fl_sizes (mem st) bs" unfolding assms(3) using a(2) by (rule fl_sizes_upd)
  ultimately show ?thesis using assms(1,4-7) by (simp add: fl_wf_def)
qed

lemma memory_more:
  assumes "freelist.more s = freelist.more t"
  shows "gc_phase s = gc_phase t" "minor_heap_size s = minor_heap_size t" "allocated_words s = allocated_words t"
  using assms by (cases s, cases t, simp)+

text \<open>The bytes of a free block with its header, and free blocks that lie apart from each other and from the list head.\<close>

definition fl_extent :: "heap \<Rightarrow> u64 \<Rightarrow> nat set" where
  "fl_extent h b = {unat b - 8 ..< unat b + 8 * unat (Wosize_val h b)}"

definition fl_apart :: "('a) freelist_scheme \<Rightarrow> u64 list \<Rightarrow> bool" where
  "fl_apart st bs \<longleftrightarrow>
     (\<forall>b \<in> set bs. 8 < unat b \<and> unat b + 8 * unat (Wosize_val (mem st) b) < 2 ^ 64 \<and>
        unat (fl_head st - 8) \<notin> fl_extent (mem st) b \<and> unat (fl_head st) \<notin> fl_extent (mem st) b \<and>
        (\<forall>b' \<in> set bs. b' \<noteq> b \<longrightarrow> fl_extent (mem st) b \<inter> fl_extent (mem st) b' = {}))"

lemma fl_apart_carved:
  assumes "fl_wf st bs" "fl_apart st bs" "b \<in> set bs" "w = Wosize_val (mem st) b" "1 \<le> n" "n \<le> w" "hp = (b - 8) + 8 * (w - n)"
  shows "hp \<noteq> 0" "hp \<notin> set (fl_words (fl_head st # remove1 b bs))"
proof -
  have d: "8 < unat b" "unat b + 8 * unat w < 2 ^ 64" "unat (fl_head st - 8) \<notin> fl_extent (mem st) b"
    "unat (fl_head st) \<notin> fl_extent (mem st) b" using assms(2-4) by (auto simp: fl_apart_def)
  have n: "1 \<le> unat n" "unat n \<le> unat w" using assms(5,6) by (simp_all add: word_le_nat_alt)
  have "unat (b - 8) = unat b - 8" using d(1) by (simp add: unat_sub_if_size)
  moreover have "unat (8 * (w - n)) = 8 * (unat w - unat n)"
    using d(2) n by (simp add: unat_word_ariths unat_sub_if_size)
  ultimately have hp: "unat hp = unat b - 8 + 8 * (unat w - unat n)"
    using d n by (simp add: assms(7) unat_word_ariths)
  then show "hp \<noteq> 0" using d(1) by auto
  have e: "unat hp \<in> fl_extent (mem st) b" using hp d(1) n assms(4) by (auto simp: fl_extent_def)
  have "distinct bs" using assms(1) distinct_words [of "fl_head st # bs"] by (simp add: fl_wf_def)
  have "hp \<noteq> x - 8 \<and> hp \<noteq> x" if "x \<in> set (remove1 b bs)" for x
  proof -
    have x: "x \<in> set bs" "x \<noteq> b" using that \<open>distinct bs\<close> by auto
    then have "8 < unat x" "1 \<le> unat (Wosize_val (mem st) x)" "fl_extent (mem st) b \<inter> fl_extent (mem st) x = {}"
      using assms(1-3) by (auto simp: fl_apart_def fl_wf_def word_le_nat_alt)
    moreover have "unat (x - 8) = unat x - 8" using \<open>8 < unat x\<close> by (simp add: unat_sub_if_size)
    ultimately have "unat (x - 8) \<in> fl_extent (mem st) x" "unat x \<in> fl_extent (mem st) x" by (auto simp: fl_extent_def)
    then show ?thesis using e \<open>fl_extent (mem st) b \<inter> fl_extent (mem st) x = {}\<close> by auto
  qed
  then show "hp \<notin> set (fl_words (fl_head st # remove1 b bs))" using e d(3,4) by (auto simp: set_fl_words)
qed

text \<open>C25: Allocation in the major heap with the next-fit policy when some free block is large enough: the block is taken
  from the end of the first such block in the order of the search, its header holds the requested size and tag and the
  colour the collector's phase asks for, and the free list stays well formed.  The free blocks do not overlap.  First fit
  and the growth of the heap when no block is large enough are not covered.\<close>

theorem caml_alloc_shr_correct:
  assumes "fl_wf st (pre @ post)" "policy st = Policy_next_fit" "fl_prev st = last (fl_head st # pre)"
    and "1 \<le> n" "tag < 256" "find (\<lambda>b. n \<le> Wosize_val (mem st) b) (post @ pre) = Some b"
    and "w = Wosize_val (mem st) b" "hp = (b - 8) + 8 * (w - n)" "fl_apart st (pre @ post)"
  shows "\<exists>st'. caml_alloc_shr lib n tag st = Value (st', hp + 8) \<and>
    Hd_val (mem st') (hp + 8) = Make_header n tag (caml_allocation_color hp st) \<and>
    fl_wf st' (if w \<le> n + 1 then remove1 b (pre @ post) else pre @ post)"
proof -
  let ?bs = "if w \<le> n + 1 then remove1 b (pre @ post) else pre @ post"
  obtain u where u: "caml_fl_allocate n st = Some (u, hp)" "fl_allocated n b (pre @ post) st u"
    using next_fit_found [OF assms(1-4,6)] assms(7,8) by blast
  have f: "fl_wf u ?bs" "fl_head u = fl_head st" "gc_sweep_hp u = gc_sweep_hp st" "freelist.more u = freelist.more st"
    using u(2) assms(7) by (auto simp: fl_allocated_def Let_def split: if_splits)
  have nb: "n \<le> w" "n \<le> Max_wosize" "unat w < 2 ^ 54"
    using assms(6,7) Wosize_bound [of "mem st" b] by (auto simp: find_Some_iff word_le_nat_alt Max_wosize_def)
  have "b \<in> set (post @ pre)" using assms(6) unfolding find_Some_iff by (metis nth_mem)
  then have "b \<in> set (pre @ post)" by auto
  note hp = fl_apart_carved [OF assms(1,9) this assms(7,4) nb(1) assms(8)]
  have out: "hp \<notin> set (fl_words (fl_head u # ?bs))"
  proof (cases "w \<le> n + 1")
    case True
    then show ?thesis using hp(2) f(2) by simp
  next
    case False
    have "unat n < 2 ^ 54" using nb by (simp add: word_le_nat_alt)
    then have "unat n + 1 < unat w" using False by (simp add: not_le word_less_nat_alt unat_word_ariths)
    moreover define d where "d = w - n"
    ultimately have "1 < unat d" "unat d < 2 ^ 54" using nb(1,3) by (auto simp: unat_sub_if_size word_le_nat_alt)
    then have "8 * d \<noteq> 0" "8 * d \<noteq> 8" by (auto simp: word_unat_eq_iff unat_word_ariths)
    then have "hp \<noteq> b - 8" "hp \<noteq> b" unfolding assms(8) d_def [symmetric] by (auto simp: diff_add_eq)
    moreover have "set (pre @ post) \<subseteq> insert b (set (remove1 b (pre @ post)))" by (metis in_set_remove1 insert_iff subsetI)
    ultimately show ?thesis using hp(2) f(2) False unfolding set_fl_words by auto
  qed
  let ?c = "caml_allocation_color hp st"
  have c: "(if gc_phase u = Phase_mark \<or> gc_phase u = Phase_sweep \<and> hp \<ge> gc_sweep_hp u then Caml_black else Caml_white) = ?c"
    using memory_more(1) [OF f(4)] f(3) by (simp add: caml_allocation_color_def)
  define s where "s = u\<lparr> mem := (mem u)(hp := Make_header n tag ?c), allocated_words := allocated_words u + Whsize_wosize n \<rparr>"
  define st' where "st' = (if allocated_words s > Wsize_bsize (minor_heap_size s) then caml_urge_major_slice s else s)"
  have "caml_alloc_shr lib n tag st = Value (st', hp + 8)"
    using nb(2) hp(1) u(1) c by (simp add: caml_alloc_shr_def Let_def st'_def s_def)
  moreover have "fl_wf st' ?bs"
    by (rule fl_wf_outside [OF f(1) out]) (simp_all add: st'_def s_def caml_urge_major_slice_def)
  moreover have "Hd_val (mem st') (hp + 8) = Make_header n tag ?c"
    by (simp add: st'_def s_def caml_urge_major_slice_def Hd_val_def)
  ultimately show ?thesis by blast
qed

theorem caml_alloc_shr_correct_witness:
  "\<exists>st'. caml_alloc_shr \<lparr> malloc = \<lambda>_. 0, calloc = \<lambda>_. False, realloc = \<lambda>_. False \<rparr> 3 7
      (one_page_memory\<lparr> mem := mem one_block_freelist \<rparr>) = Value (st', 2008 + 8) \<and>
    Hd_val (mem st') (2008 + 8) = Make_header 3 7 (caml_allocation_color 2008 (one_page_memory\<lparr> mem := mem one_block_freelist \<rparr>)) \<and>
    fl_wf st' (if (5 :: u64) \<le> 3 + 1 then remove1 2000 ([] @ [2000]) else [] @ [2000])"
proof (rule caml_alloc_shr_correct)
  show "fl_wf (one_page_memory\<lparr> mem := mem one_block_freelist \<rparr>) ([] @ [2000])"
    using one_block_wf by (simp add: fl_wf_def one_page_memory_def freelist.defs one_block_freelist_def)
  show "fl_apart (one_page_memory\<lparr> mem := mem one_block_freelist \<rparr>) ([] @ [2000])"
    using one_block_wosize by (simp add: fl_apart_def fl_extent_def one_page_memory_def freelist.defs) (simp add: one_block_freelist_def)
qed (use one_block_wosize in \<open>simp_all add: one_page_memory_def freelist.defs one_block_freelist_def fl_words_def\<close>)

end
