(* ===== verification/Alloc.thy ===== *)
theory Alloc
  imports Memory
begin

text \<open>
  Allocation of blocks: the macro \<open>Alloc_small\<close> of \<open>byterun/memory.h\<close>, which takes a block from
  the minor heap by moving the allocation pointer down, and the allocators of
  \<open>byterun/alloc.c\<close> built on it and on \<open>caml_alloc_shr\<close>.  The result is \<^const>\<open>Collects\<close> where the
  code runs a collection.
\<close>

section \<open>Allocation\<close>

definition Max_young_wosize :: mlsize_t where "Max_young_wosize = 256"

definition Atom :: "u32 \<Rightarrow> ('a) memory_scheme \<Rightarrow> value_t" where
  "Atom tag st = atom_table st + 8 * ucast tag + 8"

definition Alloc_small :: "mlsize_t \<Rightarrow> u32 \<Rightarrow> ('a) memory_scheme \<Rightarrow> (('a) memory_scheme \<times> value_t) outcome" where
  "Alloc_small wosize tag st =
     (let p = young_ptr st - Bhsize_wosize wosize
      in if p < young_limit st then Collects
         else Value (st\<lparr> young_ptr := p, mem := (mem st)(p := Make_header wosize tag Caml_black) \<rparr>, p + 8))"

definition caml_check_urgent_gc :: "value_t \<Rightarrow> ('a) memory_scheme \<Rightarrow> (('a) memory_scheme \<times> value_t) outcome" where
  "caml_check_urgent_gc v st = (if force_major_slice st then Collects else Value (st, v))"

fun fill_fields :: "heap \<Rightarrow> value_t \<Rightarrow> nat \<Rightarrow> value_t \<Rightarrow> heap" where
  "fill_fields h v 0 x = h"
| "fill_fields h v (Suc n) x = Field_set (fill_fields h v n x) v (of_nat n) x"

definition caml_alloc ::
  "libc \<Rightarrow> mlsize_t \<Rightarrow> u32 \<Rightarrow> ('a) memory_scheme \<Rightarrow> (('a) memory_scheme \<times> value_t) outcome" where
  "caml_alloc lib wosize tag st =
     (if wosize = 0 then Value (st, Atom tag st)
      else if wosize \<le> Max_young_wosize then
        and_then (Alloc_small wosize tag st)
        (\<lambda>(st, r). Value (if tag < No_scan_tag then st\<lparr> mem := fill_fields (mem st) r (unat wosize) 0 \<rparr> else st, r))
      else
        and_then (caml_alloc_shr lib wosize tag st)
        (\<lambda>(st, r). caml_check_urgent_gc r
                     (if tag < No_scan_tag then st\<lparr> mem := fill_fields (mem st) r (unat wosize) 0 \<rparr> else st)))"

definition caml_alloc_small ::
  "mlsize_t \<Rightarrow> u32 \<Rightarrow> ('a) memory_scheme \<Rightarrow> (('a) memory_scheme \<times> value_t) outcome" where
  "caml_alloc_small wosize tag st = Alloc_small wosize tag st"

definition caml_alloc_tuple :: "libc \<Rightarrow> mlsize_t \<Rightarrow> ('a) memory_scheme \<Rightarrow> (('a) memory_scheme \<times> value_t) outcome" where
  "caml_alloc_tuple lib n = caml_alloc lib n 0"

definition caml_alloc_string :: "libc \<Rightarrow> mlsize_t \<Rightarrow> ('a) memory_scheme \<Rightarrow> (('a) memory_scheme \<times> value_t) outcome" where
  "caml_alloc_string lib len st =
     (let wosize = (len + 8) div 8
      in and_then
           (if wosize \<le> Max_young_wosize then Alloc_small wosize String_tag st
            else and_then (caml_alloc_shr lib wosize String_tag st) (\<lambda>(st, r). caml_check_urgent_gc r st))
           (\<lambda>(st, r).
              (let h = Field_set (mem st) r (wosize - 1) 0;
                   offset_index = 8 * wosize - 1;
                   h = Byte_u_set h r offset_index (ucast (offset_index - len))
               in Value (st\<lparr> mem := h \<rparr>, r))))"

fun write_bytes :: "heap \<Rightarrow> u64 \<Rightarrow> u8 list \<Rightarrow> heap" where
  "write_bytes h p [] = h"
| "write_bytes h p (b # bs) = write_bytes (Byte_u_set h p 0 b) (p + 1) bs"

definition strlen :: "u8 list \<Rightarrow> nat" where "strlen s = length (takeWhile (\<lambda>c. c \<noteq> 0) s)"

definition caml_copy_string :: "libc \<Rightarrow> u8 list \<Rightarrow> ('a) memory_scheme \<Rightarrow> (('a) memory_scheme \<times> value_t) outcome" where
  "caml_copy_string lib s st =
     (let len = (of_nat (strlen s) :: cint)
      in and_then (caml_alloc_string lib (scast len) st)
         (\<lambda>(st, r). Value (st\<lparr> mem := write_bytes (mem st) r (take (unat (scast len :: u64)) s) \<rparr>, r)))"

fun alloc_array_loop ::
  "libc \<Rightarrow> (u8 list \<Rightarrow> ('a) memory_scheme \<Rightarrow> (('a) memory_scheme \<times> value_t) outcome) \<Rightarrow> u8 list list \<Rightarrow> value_t \<Rightarrow> u64 \<Rightarrow>
   ('a) memory_scheme \<Rightarrow> ('a) memory_scheme outcome" where
  "alloc_array_loop lib funct [] r n st = Value st"
| "alloc_array_loop lib funct (s # arr) r n st =
     and_then (funct s st)
     (\<lambda>(st, v). and_then (caml_modify lib (r + 8 * n) v st) (\<lambda>st. alloc_array_loop lib funct arr r (n + 1) st))"

definition caml_alloc_array ::
  "libc \<Rightarrow> (u8 list \<Rightarrow> ('a) memory_scheme \<Rightarrow> (('a) memory_scheme \<times> value_t) outcome) \<Rightarrow> u8 list list \<Rightarrow>
   ('a) memory_scheme \<Rightarrow> (('a) memory_scheme \<times> value_t) outcome" where
  "caml_alloc_array lib funct arr st =
     (if arr = [] then Value (st, Atom 0 st)
      else and_then (caml_alloc lib (of_nat (length arr)) 0 st)
           (\<lambda>(st, r). and_then (alloc_array_loop lib funct arr r 0 st) (\<lambda>st. Value (st, r))))"

definition caml_copy_string_array ::
  "libc \<Rightarrow> u8 list list \<Rightarrow> ('a) memory_scheme \<Rightarrow> (('a) memory_scheme \<times> value_t) outcome" where
  "caml_copy_string_array lib arr = caml_alloc_array lib (caml_copy_string lib) arr"

partial_function (option) convert_flag_loop :: "heap \<Rightarrow> (cint \<Rightarrow> cint) \<Rightarrow> value_t \<Rightarrow> cint \<Rightarrow> cint option" where
  "convert_flag_loop h flags l res =
     (if l \<noteq> Val_int 0
      then convert_flag_loop h flags (Field h l 1) (res OR flags (Int_val (Field h l 0)))
      else Some res)"

declare convert_flag_loop.simps [code]

definition caml_convert_flag_list :: "heap \<Rightarrow> value_t \<Rightarrow> (cint \<Rightarrow> cint) \<Rightarrow> cint option" where
  "caml_convert_flag_list h l flags = convert_flag_loop h flags l 0"

definition caml_alloc_dummy :: "libc \<Rightarrow> value_t \<Rightarrow> ('a) memory_scheme \<Rightarrow> (('a) memory_scheme \<times> value_t) outcome" where
  "caml_alloc_dummy lib sz st =
     (let wosize = scast (Int_val sz)
      in if wosize = 0 then Value (st, Atom 0 st) else caml_alloc lib wosize 0 st)"

definition Double_wosize :: mlsize_t where "Double_wosize = 1"

definition caml_alloc_dummy_float :: "libc \<Rightarrow> value_t \<Rightarrow> ('a) memory_scheme \<Rightarrow> (('a) memory_scheme \<times> value_t) outcome" where
  "caml_alloc_dummy_float lib sz st =
     (let wosize = scast (Int_val sz) * Double_wosize
      in if wosize = 0 then Value (st, Atom 0 st) else caml_alloc lib wosize 0 st)"

definition Tag_val_set :: "heap \<Rightarrow> value_t \<Rightarrow> u32 \<Rightarrow> heap" where
  "Tag_val_set h v t = Byte_u_set h v (- 8) (ucast t)"

fun copy_fields :: "heap \<Rightarrow> value_t \<Rightarrow> value_t \<Rightarrow> nat \<Rightarrow> nat \<Rightarrow> heap" where
  "copy_fields h d s i 0 = h"
| "copy_fields h d s i (Suc n) = copy_fields (Field_set h d (of_nat i) (Field h s (of_nat i))) d s (Suc i) n"

fun modify_fields :: "libc \<Rightarrow> value_t \<Rightarrow> value_t \<Rightarrow> nat \<Rightarrow> nat \<Rightarrow> ('a) memory_scheme \<Rightarrow> ('a) memory_scheme outcome" where
  "modify_fields lib d s i 0 st = Value st"
| "modify_fields lib d s i (Suc n) st =
     and_then (caml_modify lib (d + 8 * of_nat i) (Field (mem st) s (of_nat i)) st) (modify_fields lib d s (Suc i) n)"

definition caml_update_dummy :: "libc \<Rightarrow> value_t \<Rightarrow> value_t \<Rightarrow> ('a) memory_scheme \<Rightarrow> (('a) memory_scheme \<times> value_t) outcome" where
  "caml_update_dummy lib dummy newval st =
     (let size = Wosize_val (mem st) newval;
          tag = Tag_val (mem st) newval;
          st = st\<lparr> mem := Tag_val_set (mem st) dummy tag \<rparr>
      in if tag = Double_array_tag then
           (let size = Wosize_val (mem st) newval div Double_wosize
            in Value (st\<lparr> mem := copy_fields (mem st) dummy newval 0 (unat size) \<rparr>, Val_unit))
         else and_then (modify_fields lib dummy newval 0 (unat size) st) (\<lambda>st. Value (st, Val_unit)))"

section \<open>Taking a block from the minor heap\<close>

lemma Alloc_small_eq:
  assumes "young_limit st \<le> young_ptr st - Bhsize_wosize w"
  defines "p \<equiv> young_ptr st - Bhsize_wosize w"
  shows "Alloc_small w tag st = Value (st\<lparr> young_ptr := p, mem := (mem st)(p := Make_header w tag Caml_black) \<rparr>, p + 8)"
  using assms by (auto simp: Alloc_small_def Let_def)

end
