(* ===== verification/Str.thy ===== *)
theory Str
  imports Alloc "HOL-Library.List_Lexorder"
begin

text \<open>
  The string primitives of \<open>byterun/str.c\<close> over the word memory: a string of length
  \<open>len\<close> occupies \<open>len div 8 + 1\<close> words, whose last byte is the number of padding bytes
  before it, the padding being zero.  Bounds errors are \<open>Invalid_argument\<close>.
\<close>

section \<open>Primitives\<close>

definition caml_string_length :: "heap \<Rightarrow> value_t \<Rightarrow> mlsize_t" where
  "caml_string_length h s = (let temp = Bosize_val h s - 1 in temp - scast (Byte_u h s temp))"

definition caml_ml_string_length :: "heap \<Rightarrow> value_t \<Rightarrow> value_t" where
  "caml_ml_string_length h s =
     (let temp = Bosize_val h s - 1 in Val_long (temp - scast (Byte_u h s temp)))"

definition caml_create_string :: "libc \<Rightarrow> value_t \<Rightarrow> ('a) memory_scheme \<Rightarrow> (('a) memory_scheme \<times> value_t) outcome" where
  "caml_create_string lib len st =
     (let size = Long_val len
      in if size > 8 * Max_wosize - 1 then Raised (Invalid_argument ''String.create'')
         else caml_alloc_string lib size st)"

definition caml_string_get :: "heap \<Rightarrow> value_t \<Rightarrow> value_t \<Rightarrow> exn + value_t" where
  "caml_string_get h str index =
     (let idx = Long_val index
      in if sint idx < 0 \<or> idx \<ge> caml_string_length h str
         then Inl (Invalid_argument ''index out of bounds'')
         else Inr (Val_int (ucast (Byte_u h str idx))))"

definition caml_string_set :: "heap \<Rightarrow> value_t \<Rightarrow> value_t \<Rightarrow> value_t \<Rightarrow> exn + (heap \<times> value_t)" where
  "caml_string_set h str index newval =
     (let idx = Long_val index
      in if sint idx < 0 \<or> idx \<ge> caml_string_length h str
         then Inl (Invalid_argument ''index out of bounds'')
         else Inr (Byte_u_set h str idx (ucast (Int_val newval)), Val_unit))"

fun string_equal_loop :: "heap \<Rightarrow> u64 \<Rightarrow> u64 \<Rightarrow> nat \<Rightarrow> bool" where
  "string_equal_loop h p1 p2 0 = True"
| "string_equal_loop h p1 p2 (Suc sz1) =
     (if h p1 \<noteq> h p2 then False else string_equal_loop h (p1 + 8) (p2 + 8) sz1)"

definition caml_string_equal :: "heap \<Rightarrow> value_t \<Rightarrow> value_t \<Rightarrow> value_t" where
  "caml_string_equal h s1 s2 =
     (if s1 = s2 then Val_true
      else let sz1 = Wosize_val h s1; sz2 = Wosize_val h s2
           in if sz1 \<noteq> sz2 then Val_false
              else if string_equal_loop h s1 s2 (unat sz1) then Val_true else Val_false)"

definition caml_string_notequal :: "heap \<Rightarrow> value_t \<Rightarrow> value_t \<Rightarrow> value_t" where
  "caml_string_notequal h s1 s2 = Val_not (caml_string_equal h s1 s2)"

fun memcmp :: "u8 list \<Rightarrow> u8 list \<Rightarrow> int" where
  "memcmp (a # as) (b # bs) = (if a < b then -1 else if a > b then 1 else memcmp as bs)"
| "memcmp _ _ = 0"

definition bytes_at :: "heap \<Rightarrow> value_t \<Rightarrow> nat \<Rightarrow> u8 list" where
  "bytes_at h p n = map (\<lambda>i. Byte_u h p (of_nat i)) [0..<n]"

definition caml_string_compare :: "heap \<Rightarrow> value_t \<Rightarrow> value_t \<Rightarrow> value_t" where
  "caml_string_compare h s1 s2 =
     (if s1 = s2 then Val_int 0
      else let len1 = caml_string_length h s1;
               len2 = caml_string_length h s2;
               len = unat (if len1 \<le> len2 then len1 else len2);
               res = memcmp (bytes_at h s1 len) (bytes_at h s2 len)
           in if res < 0 then Val_int (- 1)
              else if res > 0 then Val_int 1
              else if len1 < len2 then Val_int (- 1)
              else if len1 > len2 then Val_int 1
              else Val_int 0)"

definition caml_string_lessthan :: "heap \<Rightarrow> value_t \<Rightarrow> value_t \<Rightarrow> value_t" where
  "caml_string_lessthan h s1 s2 =
     (if sint (caml_string_compare h s1 s2) < sint (Val_int 0) then Val_true else Val_false)"

definition caml_string_lessequal :: "heap \<Rightarrow> value_t \<Rightarrow> value_t \<Rightarrow> value_t" where
  "caml_string_lessequal h s1 s2 =
     (if sint (caml_string_compare h s1 s2) \<le> sint (Val_int 0) then Val_true else Val_false)"

definition caml_string_greaterthan :: "heap \<Rightarrow> value_t \<Rightarrow> value_t \<Rightarrow> value_t" where
  "caml_string_greaterthan h s1 s2 =
     (if sint (caml_string_compare h s1 s2) > sint (Val_int 0) then Val_true else Val_false)"

definition caml_string_greaterequal :: "heap \<Rightarrow> value_t \<Rightarrow> value_t \<Rightarrow> value_t" where
  "caml_string_greaterequal h s1 s2 =
     (if sint (caml_string_compare h s1 s2) \<ge> sint (Val_int 0) then Val_true else Val_false)"

text \<open>\<open>memmove\<close> reads the whole source before it writes; its length argument is the C \<open>int\<close>
  converted to an unsigned 64-bit size.\<close>

definition caml_blit_string :: "heap \<Rightarrow> value_t \<Rightarrow> value_t \<Rightarrow> value_t \<Rightarrow> value_t \<Rightarrow> value_t \<Rightarrow> heap \<times> value_t" where
  "caml_blit_string h s1 ofs1 s2 ofs2 n =
     (write_bytes h (s2 + Long_val ofs2)
        (bytes_at h (s1 + Long_val ofs1) (unat (scast (Int_val n) :: u64))), Val_unit)"

definition caml_fill_string :: "heap \<Rightarrow> value_t \<Rightarrow> value_t \<Rightarrow> value_t \<Rightarrow> value_t \<Rightarrow> heap \<times> value_t" where
  "caml_fill_string h s offset len init =
     (write_bytes h (s + Long_val offset) (replicate (unat (Long_val len)) (ucast (Int_val init))), Val_unit)"

definition caml_bitvect_test :: "heap \<Rightarrow> value_t \<Rightarrow> value_t \<Rightarrow> value_t" where
  "caml_bitvect_test h bv n =
     (let pos = Int_val n
      in Val_int (ucast (Byte_u h bv (scast (signed_drop_bit 3 pos))) AND push_bit (unat (pos AND 7)) 1))"

section \<open>Bytes written and read back\<close>

lemma unat_minus_1: "unat (- 1 :: u64) = 2 ^ 64 - 1"
  by (simp add: unsigned_minus_1_eq_mask mask_eq_exp_minus_1)

lemma Byte_u_add: "Byte_u h (x + j) i = Byte_u h x (j + i)"
  by (simp add: Byte_u_def add.assoc)

lemma Byte_u_set_add: "Byte_u_set h (x + j) i c = Byte_u_set h x (j + i) c"
  by (simp add: Byte_u_set_def add.assoc)

lemma Byte_u_cong: "x + i = y + j \<Longrightarrow> Byte_u h x i = Byte_u h y j"
  by (simp add: Byte_u_def)

lemma Byte_u_write_bytes:
  assumes "length bs < 2 ^ 64"
  shows "Byte_u (write_bytes h p bs) x i =
    (if unat (x + i - p) < length bs then bs ! unat (x + i - p) else Byte_u h x i)"
  using assms
proof (induction bs arbitrary: h p)
  case Nil
  then show ?case by simp
next
  case (Cons b bs)
  let ?d = "x + i - p"
  have e: "x + i - (p + 1) = ?d - 1" by simp
  have IH: "Byte_u (write_bytes h p (b # bs)) x i =
      (if unat (?d - 1) < length bs then bs ! unat (?d - 1) else Byte_u (Byte_u_set h p 0 b) x i)"
    using Cons.IH [of "Byte_u_set h p 0 b" "p + 1"] Cons.prems unfolding e by simp
  show ?case
  proof (cases "?d = 0")
    case True
    then have q: "x + i = p + 0" by simp
    then have "Byte_u (Byte_u_set h p 0 b) x i = b" by (simp only: Byte_u_cong [OF q] Byte_u_set_same)
    with IH True Cons.prems show ?thesis by (simp add: unat_minus_1)
  next
    case False
    then have "Byte_u (Byte_u_set h p 0 b) x i = Byte_u h x i" by (intro Byte_u_set_other) auto
    moreover have "unat ?d = Suc (unat (?d - 1))" using False by (simp add: unat_minus_one unat_gt_0)
    ultimately show ?thesis using IH by simp
  qed
qed

lemma aligned_word_eq:
  assumes "p AND 7 = 0" "\<And>r. r < 8 \<Longrightarrow> Byte_u h p (of_nat r) = Byte_u h' q (of_nat r)" "q AND 7 = 0"
  shows "h p = h' q"
proof (rule word_eq_bytes)
  fix r :: nat assume "r < 8"
  then show "(ucast (drop_bit (8 * r) (h p)) :: u8) = ucast (drop_bit (8 * r) (h' q))"
    using Byte_u_aligned [of p 0 r h] Byte_u_aligned [of q 0 r h'] assms by simp
qed

lemma aligned_add8:
  fixes p :: u64
  assumes "p AND 7 = 0"
  shows "(p + 8 * j) AND 7 = 0" "(p - 8 * j) AND 7 = 0"
proof -
  have m: "7 = (mask 3 :: u64)" by (simp add: mask_eq_exp_minus_1)
  have "unat p mod 8 = 0" using arg_cong [OF assms, of unat] unfolding m unat_and_mask by simp
  then obtain k where k: "unat p = 8 * k" by auto
  then have "p = 8 * of_nat k" by (metis of_nat_mult of_nat_numeral of_nat_unat ucast_id)
  then have s: "p + 8 * j = push_bit 3 (of_nat k + j)" "p - 8 * j = push_bit 3 (of_nat k - j)"
    by (simp_all add: push_bit_eq_mult algebra_simps)
  show "(p + 8 * j) AND 7 = 0" "(p - 8 * j) AND 7 = 0"
    unfolding s m by (rule bit_eqI, auto simp: bit_simps)+
qed

lemma nth_bytes_at [simp]: "i < n \<Longrightarrow> bytes_at h p n ! i = Byte_u h p (of_nat i)"
  by (simp add: bytes_at_def)

lemma length_bytes_at [simp]: "length (bytes_at h p n) = n"
  by (simp add: bytes_at_def)

section \<open>Well-formed strings\<close>

definition string_wosize :: "heap \<Rightarrow> value_t \<Rightarrow> nat" where
  "string_wosize h s = unat (Wosize_val h s)"

definition string_pad :: "heap \<Rightarrow> value_t \<Rightarrow> nat" where
  "string_pad h s = unat (Byte_u h s (of_nat (8 * string_wosize h s - 1)))"

definition string_len :: "heap \<Rightarrow> value_t \<Rightarrow> nat" where
  "string_len h s = 8 * string_wosize h s - 1 - string_pad h s"

definition wf_string :: "heap \<Rightarrow> value_t \<Rightarrow> bool" where
  "wf_string h s \<longleftrightarrow> s AND 7 = 0 \<and> 1 \<le> string_wosize h s \<and> string_pad h s \<le> 7 \<and>
     (\<forall>i \<in> {string_len h s ..< 8 * string_wosize h s - 1}. Byte_u h s (of_nat i) = 0)"

definition string_bytes :: "heap \<Rightarrow> value_t \<Rightarrow> u8 list" where
  "string_bytes h s = bytes_at h s (unat (caml_string_length h s))"

lemma string_wosize_bound: "string_wosize h s < 2 ^ 54"
  unfolding string_wosize_def Wosize_val_def Wosize_hd_def unat_drop_bit
  using unsigned_less [of "Hd_val h s", where 'a = nat] by (simp add: less_mult_imp_div_less)

lemma Bosize_minus_1:
  assumes "1 \<le> string_wosize h s"
  shows "Bosize_val h s - 1 = of_nat (8 * string_wosize h s - 1)"
  using assms unfolding Bosize_val_def string_wosize_def by (simp add: of_nat_diff)

lemma unat_of_small: "n < 2 ^ 57 \<Longrightarrow> unat (of_nat n :: u64) = n"
  by (simp add: unat_of_nat)

lemma scast_small_byte: "unat (b :: u8) \<le> 7 \<Longrightarrow> scast b = (of_nat (unat b) :: u64)"
proof -
  assume b: "unat b \<le> 7"
  define k where "k = unat b"
  have "b = of_nat k" "k \<in> {0, 1, 2, 3, 4, 5, 6, 7}" using b by (auto simp: k_def)
  then show ?thesis unfolding k_def [symmetric] by (elim insertE emptyE) simp_all
qed

lemma string_length_val:
  assumes "wf_string h s"
  shows "unat (caml_string_length h s) = string_len h s" "string_len h s < 8 * string_wosize h s"
    "string_len h s < 2 ^ 57"
proof -
  let ?n = "8 * string_wosize h s - 1"
  have w: "1 \<le> string_wosize h s" "string_pad h s \<le> 7" using assms by (auto simp: wf_string_def)
  have b: "string_wosize h s < 2 ^ 54" by (rule string_wosize_bound)
  have "caml_string_length h s = of_nat ?n - of_nat (string_pad h s)"
    using w unfolding caml_string_length_def Let_def Bosize_minus_1 [OF w(1)] string_pad_def by (simp add: scast_small_byte)
  also have "\<dots> = of_nat (string_len h s)" using w by (simp add: string_len_def of_nat_diff)
  finally have e: "caml_string_length h s = of_nat (string_len h s)" .
  show l: "string_len h s < 8 * string_wosize h s" using w by (simp add: string_len_def)
  then show "string_len h s < 2 ^ 57" using b by simp
  then show "unat (caml_string_length h s) = string_len h s" unfolding e by (rule unat_of_small)
qed

lemma string_len_wosize:
  assumes "wf_string h s"
  shows "string_wosize h s = string_len h s div 8 + 1" "string_pad h s = 7 - string_len h s mod 8"
proof -
  have w: "1 \<le> string_wosize h s" "string_pad h s \<le> 7" using assms by (auto simp: wf_string_def)
  then obtain v where v: "string_wosize h s = v + 1" by (metis le_add_diff_inverse2)
  then have l: "string_len h s = 8 * v + (7 - string_pad h s)" using w by (simp add: string_len_def)
  show "string_wosize h s = string_len h s div 8 + 1" using v l by simp
  show "string_pad h s = 7 - string_len h s mod 8" using l w(2) mod_mult_self4 [of 8 v "7 - string_pad h s"] by simp
qed

lemma string_equal_loop_iff:
  "string_equal_loop h p q n \<longleftrightarrow> (\<forall>i<n. h (p + 8 * of_nat i) = h (q + 8 * of_nat i))"
proof (induction n arbitrary: p q)
  case (Suc n)
  have "(\<forall>i<Suc n. P i) \<longleftrightarrow> P 0 \<and> (\<forall>i<n. P (Suc i))" for P by (auto simp: less_Suc_eq_0_disj)
  then show ?case by (simp add: Suc.IH algebra_simps)
qed simp

lemma words_eq_bytes:
  assumes "p AND 7 = 0" "q AND 7 = 0"
  shows "(\<forall>i<n. h (p + 8 * of_nat i) = h (q + 8 * of_nat i)) \<longleftrightarrow>
    (\<forall>j<8 * n. Byte_u h p (of_nat j) = Byte_u h q (of_nat j))" (is "?W \<longleftrightarrow> ?B")
proof
  assume W: ?W
  show ?B
  proof (intro allI impI)
    fix j assume "j < 8 * n"
    then have j: "j div 8 < n" "j mod 8 < 8" by auto
    have e: "of_nat j = 8 * of_nat (j div 8) + (of_nat (j mod 8) :: u64)"
      by (metis mult_div_mod_eq of_nat_add of_nat_mult of_nat_numeral)
    show "Byte_u h p (of_nat j) = Byte_u h q (of_nat j)"
      unfolding e Byte_u_aligned [OF aligned_add8(1) [OF assms(1)] j(2)] Byte_u_aligned [OF aligned_add8(1) [OF assms(2)] j(2)]
      using W j(1) by simp
  qed
next
  assume B: ?B
  show ?W
  proof (intro allI impI)
    fix i assume i: "i < n"
    have "Byte_u h (p + 8 * of_nat i) (of_nat r) = Byte_u h (q + 8 * of_nat i) (of_nat r)" if "r < 8" for r
    proof -
      have "8 * i + r < 8 * n" using i that by linarith
      with B have "Byte_u h p (of_nat (8 * i + r)) = Byte_u h q (of_nat (8 * i + r))" by blast
      then show ?thesis by (simp add: Byte_u_add)
    qed
    then show "h (p + 8 * of_nat i) = h (q + 8 * of_nat i)"
      by (rule aligned_word_eq [OF aligned_add8(1) [OF assms(1)] _ aligned_add8(1) [OF assms(2)]])
  qed
qed

lemma unat_neg_small:
  assumes "0 < k" "k < 2 ^ 64"
  shows "unat (- of_nat k :: u64) = 2 ^ 64 - k"
proof -
  have e: "(- of_nat k :: u64) = of_nat (2 ^ 64 - k)" using assms by (simp add: of_nat_diff)
  show ?thesis unfolding e using assms by (simp only: unat_of_nat) simp
qed

lemma write_bytes_nth:
  assumes "ofs + length bs < 2 ^ 57" "i < 2 ^ 57"
  shows "Byte_u (write_bytes h (s + of_nat ofs) bs) s (of_nat i) =
    (if ofs \<le> i \<and> i < ofs + length bs then bs ! (i - ofs) else Byte_u h s (of_nat i))"
proof -
  have u: "unat (of_nat i - of_nat ofs :: u64) = (if ofs \<le> i then i - ofs else 2 ^ 64 - (ofs - i))"
  proof (cases "ofs \<le> i")
    case True
    then have e: "of_nat i - of_nat ofs = (of_nat (i - ofs) :: u64)" by (simp add: of_nat_diff)
    show ?thesis unfolding e using True assms by (subst unat_of_small) auto
  next
    case False
    then have e: "of_nat i - of_nat ofs = - (of_nat (ofs - i) :: u64)" by (simp add: of_nat_diff)
    show ?thesis unfolding e using False assms by (subst unat_neg_small) auto
  qed
  have l: "length bs < 2 ^ 64" and o: "ofs < 2 ^ 57" using assms(1) by simp_all
  have c: "s + of_nat i - (s + of_nat ofs) = (of_nat i - of_nat ofs :: u64)" by simp
  show ?thesis
    unfolding Byte_u_write_bytes [OF l] c u using l o assms(1) by auto
qed

lemma write_bytes_header:
  assumes "s AND 7 = 0" "ofs + length bs < 2 ^ 57"
  shows "Hd_val (write_bytes h (s + of_nat ofs) bs) s = Hd_val h s"
proof -
  have a: "(s - 8) AND 7 = 0" using aligned_add8(2) [OF assms(1), of 1] by simp
  have "Byte_u (write_bytes h (s + of_nat ofs) bs) (s - 8) (of_nat r) = Byte_u h (s - 8) (of_nat r)" if "r < 8" for r
  proof -
    have e: "s - 8 + of_nat r - (s + of_nat ofs) = - (of_nat (8 - r + ofs) :: u64)"
      using that by (simp add: of_nat_diff)
    have "unat (- (of_nat (8 - r + ofs) :: u64)) \<ge> length bs"
      by (subst unat_neg_small) (use that assms in auto)
    moreover have "length bs < 2 ^ 64" using assms(2) by simp
    ultimately show ?thesis by (simp only: Byte_u_write_bytes e not_less [symmetric] if_False)
  qed
  from aligned_word_eq [OF a this a] show ?thesis by (simp add: Hd_val_def)
qed

lemma string_bytes_len:
  assumes "wf_string h s"
  shows "length (string_bytes h s) = string_len h s"
    "i < string_len h s \<Longrightarrow> string_bytes h s ! i = Byte_u h s (of_nat i)"
  using string_length_val(1) [OF assms] by (simp_all add: string_bytes_def)

lemma string_block_byte:
  assumes "wf_string h s" "j < 8 * string_wosize h s"
  shows "Byte_u h s (of_nat j) =
    (if j < string_len h s then string_bytes h s ! j
     else if j = 8 * string_wosize h s - 1 then of_nat (7 - string_len h s mod 8) else 0)"
proof -
  have p: "string_pad h s = 7 - string_len h s mod 8" by (rule string_len_wosize [OF assms(1)])
  have l: "Byte_u h s (of_nat (8 * string_wosize h s - 1)) = of_nat (7 - string_len h s mod 8)"
    unfolding p [symmetric] string_pad_def by simp
  consider "j < string_len h s" | "j = 8 * string_wosize h s - 1" "\<not> j < string_len h s"
    | "string_len h s \<le> j" "j < 8 * string_wosize h s - 1" using assms(2) by linarith
  then show ?thesis
  proof cases
    case 1
    then show ?thesis using string_bytes_len(2) [OF assms(1)] by simp
  next
    case 2
    then show ?thesis using l by simp
  next
    case 3
    then show ?thesis using assms(1) by (simp add: wf_string_def)
  qed
qed

lemma string_blocks_equal:
  assumes "wf_string h s1" "wf_string h s2"
  shows "string_wosize h s1 = string_wosize h s2 \<and>
      (\<forall>j<8 * string_wosize h s1. Byte_u h s1 (of_nat j) = Byte_u h s2 (of_nat j)) \<longleftrightarrow>
    string_bytes h s1 = string_bytes h s2" (is "?B \<longleftrightarrow> ?S")
proof
  assume B: ?B
  have "1 \<le> string_wosize h s1" using assms(1) by (simp add: wf_string_def)
  then have "8 * string_wosize h s1 - 1 < 8 * string_wosize h s1" by linarith
  with B have "string_pad h s1 = string_pad h s2" unfolding string_pad_def by metis
  with B have l: "string_len h s1 = string_len h s2" by (simp add: string_len_def)
  show ?S
  proof (rule nth_equalityI)
    fix i assume "i < length (string_bytes h s1)"
    then have i: "i < string_len h s1" by (simp add: string_bytes_len [OF assms(1)])
    moreover have "i < 8 * string_wosize h s1" using i string_length_val(2) [OF assms(1)] by linarith
    ultimately show "string_bytes h s1 ! i = string_bytes h s2 ! i"
      using B l by (simp add: string_bytes_len(2) [OF assms(1)] string_bytes_len(2) [OF assms(2)])
  qed (simp add: l string_bytes_len(1) assms)
next
  assume S: ?S
  then have l: "string_len h s1 = string_len h s2"
    by (simp flip: string_bytes_len(1) [OF assms(1)] string_bytes_len(1) [OF assms(2)])
  have w: "string_wosize h s1 = string_wosize h s2"
    using l by (simp add: string_len_wosize(1) [OF assms(1)] string_len_wosize(1) [OF assms(2)])
  show ?B using S l w by (auto simp: string_block_byte [OF assms(1)] string_block_byte [OF assms(2)])
qed

text \<open>C33: Comparing two well-formed strings word by word, padding and length byte included,
  as \<open>caml_string_equal\<close> does, decides whether they hold the same characters.\<close>

theorem caml_string_equal_contents:
  assumes "wf_string h s1" "wf_string h s2"
  shows "caml_string_equal h s1 s2 = Val_bool (string_bytes h s1 = string_bytes h s2)"
proof -
  have a: "s1 AND 7 = 0" "s2 AND 7 = 0" using assms by (auto simp: wf_string_def)
  have w: "Wosize_val h s1 = Wosize_val h s2 \<longleftrightarrow> string_wosize h s1 = string_wosize h s2"
    by (simp add: string_wosize_def word_unat_eq_iff)
  show ?thesis
    unfolding string_blocks_equal [OF assms, symmetric] words_eq_bytes [OF a, symmetric]
    by (auto simp: caml_string_equal_def Let_def string_equal_loop_iff w Val_bool_def Val_true_def Val_false_def
        simp flip: string_wosize_def)
qed

lemma string_wf_write:
  assumes wf: "wf_string h s" and b: "ofs + length bs \<le> string_len h s"
  defines "h' \<equiv> write_bytes h (s + of_nat ofs) bs"
  shows "wf_string h' s" "string_len h' s = string_len h s"
    "string_bytes h' s = take ofs (string_bytes h s) @ bs @ drop (ofs + length bs) (string_bytes h s)"
proof -
  have a: "s AND 7 = 0" and w: "1 \<le> string_wosize h s" using wf by (auto simp: wf_string_def)
  have lt: "string_len h s < 8 * string_wosize h s" "string_len h s < 2 ^ 57" by (rule string_length_val [OF wf])+
  have wb: "string_wosize h s < 2 ^ 54" by (rule string_wosize_bound)
  have hd: "string_wosize h' s = string_wosize h s"
    unfolding string_wosize_def Wosize_val_def h'_def
    by (subst write_bytes_header) (use a b lt in auto)
  have nth: "Byte_u h' s (of_nat i) = (if ofs \<le> i \<and> i < ofs + length bs then bs ! (i - ofs) else Byte_u h s (of_nat i))"
    if "i < 8 * string_wosize h s" for i
    unfolding h'_def by (rule write_bytes_nth) (use that b lt wb in auto)
  have pad: "string_pad h' s = string_pad h s"
    unfolding string_pad_def hd using w b lt string_pad_def by (subst nth) (auto simp: string_len_def)
  show len: "string_len h' s = string_len h s" unfolding string_len_def hd pad ..
  show wf': "wf_string h' s"
    using wf b unfolding wf_string_def hd pad len by (auto simp: nth)
  show "string_bytes h' s = take ofs (string_bytes h s) @ bs @ drop (ofs + length bs) (string_bytes h s)"
  proof (rule nth_equalityI)
    show "length (string_bytes h' s) = length (take ofs (string_bytes h s) @ bs @ drop (ofs + length bs) (string_bytes h s))"
      using b by (simp add: string_bytes_len(1) [OF wf] string_bytes_len(1) [OF wf'] len)
    fix i assume "i < length (string_bytes h' s)"
    then have i: "i < string_len h s" by (simp add: string_bytes_len(1) [OF wf'] len)
    then show "string_bytes h' s ! i = (take ofs (string_bytes h s) @ bs @ drop (ofs + length bs) (string_bytes h s)) ! i"
      using b lt string_bytes_len(2) [OF wf] string_bytes_len(2) [OF wf'] 
      by (auto simp: len nth nth_append string_bytes_len(1) [OF wf])
  qed
qed

lemma Val_int_signed: "sint (Val_int n) = 2 * sint n + 1"
proof -
  have b: "- (2 ^ 31) \<le> sint n" "sint n < 2 ^ 31" using sint_greater_eq [of n] sint_less [of n] by simp_all
  then have "sint (scast n :: u64) = sint n" by (simp add: signed_scast_eq signed_take_bit_int_eq_self)
  with b show ?thesis unfolding Val_int_def by (subst sint_Val_long) (simp_all add: Long_limits)
qed

lemma memcmp_eq: "length as = length bs \<Longrightarrow> memcmp as bs = (if as < bs then -1 else if as = bs then 0 else 1)"
  by (induction as bs rule: memcmp.induct) (auto simp: list_less_def)

lemma list_less_take:
  fixes as bs :: "u8 list"
  defines "n \<equiv> min (length as) (length bs)"
  shows "as < bs \<longleftrightarrow> take n as < take n bs \<or> take n as = take n bs \<and> length as < length bs"
  unfolding n_def
proof (induction as arbitrary: bs)
  case Nil then show ?case by (cases bs) auto
next
  case (Cons a as) then show ?case by (cases bs) auto
qed

text \<open>C34: \<open>caml_string_compare\<close> orders strings lexicographically by unsigned character.\<close>

theorem caml_string_compare_lexicographic:
  "caml_string_compare h s1 s2 =
    Val_int (if string_bytes h s1 < string_bytes h s2 then - 1
             else if string_bytes h s1 = string_bytes h s2 then 0 else 1)"
proof (cases "s1 = s2")
  case True
  then show ?thesis by (simp add: caml_string_compare_def)
next
  case False
  define n where "n = min (length (string_bytes h s1)) (length (string_bytes h s2))"
  have l: "length (string_bytes h s) = unat (caml_string_length h s)" for s by (simp add: string_bytes_def)
  have t: "bytes_at h s n = take n (string_bytes h s)" if "n \<le> length (string_bytes h s)" for s
    using that by (simp add: string_bytes_def bytes_at_def take_map)
  have m: "unat (if caml_string_length h s1 \<le> caml_string_length h s2
      then caml_string_length h s1 else caml_string_length h s2) = n"
    by (simp add: n_def l word_le_nat_alt min_def)
  have c: "caml_string_length h s1 < caml_string_length h s2 \<longleftrightarrow> length (string_bytes h s1) < length (string_bytes h s2)"
    "caml_string_length h s2 < caml_string_length h s1 \<longleftrightarrow> length (string_bytes h s2) < length (string_bytes h s1)"
    by (simp_all add: l word_less_nat_alt)
  have e: "string_bytes h s1 = string_bytes h s2 \<longleftrightarrow>
    take n (string_bytes h s1) = take n (string_bytes h s2) \<and> length (string_bytes h s1) = length (string_bytes h s2)"
    by (auto simp: n_def)
  have "caml_string_compare h s1 s2 =
    (let res = memcmp (take n (string_bytes h s1)) (take n (string_bytes h s2))
     in if res < 0 then Val_int (- 1) else if res > 0 then Val_int 1
        else if length (string_bytes h s1) < length (string_bytes h s2) then Val_int (- 1)
        else if length (string_bytes h s2) < length (string_bytes h s1) then Val_int 1 else Val_int 0)"
    using False unfolding caml_string_compare_def Let_def m c t [of s1, unfolded n_def, folded n_def] 
    by (subst (1 2 3 4) t) (simp_all add: n_def)
  then show ?thesis
    unfolding list_less_take [of "string_bytes h s1", folded n_def] e
    by (auto simp: Let_def memcmp_eq n_def)
qed

lemma Long_val_of_nat: "n < 2 ^ 62 \<Longrightarrow> Long_val (Val_long (of_nat n)) = of_nat n"
  by (rule Long_val_Val_long) (simp_all add: Long_limits sint_of_nat_small)

lemma ucast_ucast_byte: "ucast (ucast (c :: u8) :: cint) = c"
  by (rule bit_eqI) (auto simp: bit_simps)

lemma string_index:
  assumes "wf_string h s" "i < 2 ^ 62"
  shows "Long_val (Val_long (of_nat i)) = of_nat i" "\<not> sint (of_nat i :: u64) < 0"
    "caml_string_length h s \<le> of_nat i \<longleftrightarrow> string_len h s \<le> i"
  using assms(2) string_length_val(1) [OF assms(1)]
  by (simp_all add: Long_val_of_nat sint_of_nat_small word_le_nat_alt unat_of_nat)

text \<open>C35: Writing the character \<open>c\<close> at a valid index of a string changes that character and
  nothing else, keeps the string well formed, and reading the index back gives \<open>c\<close>.\<close>

theorem caml_string_set_get:
  assumes "wf_string h s" "i < string_len h s"
  shows "\<exists>h'. caml_string_set h s (Val_long (of_nat i)) (Val_int (ucast c)) = Inr (h', Val_unit) \<and>
    wf_string h' s \<and> string_bytes h' s = (string_bytes h s)[i := c] \<and>
    caml_string_get h' s (Val_long (of_nat i)) = Inr (Val_int (ucast (c :: u8)))"
proof -
  have i: "i < 2 ^ 62" using assms(2) string_length_val(3) [OF assms(1)] by simp
  define h' where "h' = write_bytes h (s + of_nat i) [c]"
  have l: "i + length [c] \<le> string_len h s" using assms(2) by simp
  note w = string_wf_write [OF assms(1) l, folded h'_def]
  have b: "string_bytes h' s = (string_bytes h s)[i := c]"
    unfolding w(3) using assms(2) by (simp add: upd_conv_take_nth_drop string_bytes_len(1) [OF assms(1)])
  have "Byte_u h' s (of_nat i) = c"
    using string_bytes_len(2) [OF w(1), of i] assms(2) string_bytes_len(1) [OF assms(1)] by (simp add: w(2) b)
  moreover have "Byte_u_set h s (of_nat i) c = h'" using Byte_u_set_add [of h s "of_nat i" 0 c] by (simp add: h'_def)
  ultimately show ?thesis
    using assms(2) string_index [OF assms(1) i] string_index [OF w(1) i] w b
    by (simp add: caml_string_set_def caml_string_get_def Let_def ucast_ucast_byte)
qed

text \<open>\<open>caml_string_get\<close> and \<open>caml_string_set\<close> reject exactly the indices that are negative or not
  below the length of the string.\<close>

theorem caml_string_bounds:
  assumes "wf_string h s" "sint Min_long \<le> n" "n \<le> sint Max_long"
  shows "caml_string_get h s (Val_long (word_of_int n)) =
    (if 0 \<le> n \<and> n < int (string_len h s) then Inr (Val_int (ucast (string_bytes h s ! nat n)))
     else Inl (Invalid_argument ''index out of bounds''))"
proof -
  have r: "- (2 ^ 62) \<le> n" "n < 2 ^ 62" using assms(2,3) by (simp_all add: Long_limits)
  then have s: "sint (word_of_int n :: u64) = n" by (intro sint_word_of_int_64) auto
  then have l: "Long_val (Val_long (word_of_int n)) = word_of_int n" using assms(2,3) by simp
  show ?thesis
  proof (cases "n < 0")
    case True
    then show ?thesis by (simp add: caml_string_get_def l s)
  next
    case False
    then obtain k where k: "n = int k" by (metis nonneg_int_cases not_less)
    then show ?thesis using r string_index(2,3) [OF assms(1), of k] l string_bytes_len(2) [OF assms(1)]
      by (auto simp: caml_string_get_def)
  qed
qed




text \<open>\<open>caml_blit_string\<close> reads its length with \<open>Int_val\<close>: a request for \<open>2^32\<close> characters, a
  valid length of a 64-bit string, copies nothing.\<close>

theorem caml_blit_string_truncates:
  "caml_blit_string h s1 ofs1 s2 ofs2 (Val_long (2 ^ 32)) = (h, Val_unit)"
proof -
  have "Long_val (Val_long (2 ^ 32)) = 2 ^ 32" using Long_val_of_nat [of "2 ^ 32"] by simp
  then have "Int_val (Val_long (2 ^ 32)) = 0" by (simp add: Int_val_def)
  then show ?thesis by (simp add: caml_blit_string_def bytes_at_def)
qed

lemma caml_fill_string_correct:
  assumes "wf_string h s" "ofs + n \<le> string_len h s"
  shows "\<exists>h'. caml_fill_string h s (Val_long (of_nat ofs)) (Val_long (of_nat n)) (Val_int (ucast c)) = (h', Val_unit) \<and>
    wf_string h' s \<and>
    string_bytes h' s = take ofs (string_bytes h s) @ replicate n c @ drop (ofs + n) (string_bytes h s)"
proof -
  have o: "ofs < 2 ^ 62" "n < 2 ^ 62" using assms string_length_val(3) [OF assms(1)] by simp_all
  have u: "unat (of_nat n :: u64) = n" using o by (simp add: unat_of_nat)
  have l: "ofs + length (replicate n c) \<le> string_len h s" using assms(2) by simp
  show ?thesis
    using string_wf_write [OF assms(1) l]
    unfolding caml_fill_string_def Long_val_of_nat [OF o(1)] Long_val_of_nat [OF o(2)] u Int_val_Val_int
      ucast_ucast_byte length_replicate by blast
qed

lemma alloc_string_size:
  assumes "l < 2048"
  shows "(of_nat l + 8) div 8 = (of_nat (l div 8 + 1) :: u64)" "8 * (of_nat (l div 8 + 1)) - 1 = (of_nat (8 * (l div 8 + 1) - 1) :: u64)"
    "(of_nat (l div 8 + 1) :: u64) \<le> Max_young_wosize"
proof -
  have "unat ((of_nat l + 8) div 8 :: u64) = (l + 8) div 8"
    using assms by (simp add: unat_div_distrib unat_word_ariths unat_of_nat)
  then show "(of_nat l + 8) div 8 = (of_nat (l div 8 + 1) :: u64)"
    using assms by (simp only: word_unat_eq_iff unat_of_nat) simp
  show "8 * (of_nat (l div 8 + 1)) - 1 = (of_nat (8 * (l div 8 + 1) - 1) :: u64)" by simp
  show "(of_nat (l div 8 + 1) :: u64) \<le> Max_young_wosize"
    using assms by (simp only: word_le_nat_alt unat_of_nat Max_young_wosize_def) simp
qed

lemma alloc_string_pad: "ucast (of_nat (8 * (l div 8 + 1) - 1) - of_nat l :: u64) = (of_nat (7 - l mod 8) :: u8)"
proof -
  have "8 * (l div 8 + 1) - 1 = (7 - l mod 8) + l" by presburger
  then have "of_nat (8 * (l div 8 + 1) - 1) - of_nat l = (of_nat (7 - l mod 8) :: u64)" by (simp only: of_nat_add) simp
  then show ?thesis by (simp only: unsigned_of_nat) (simp add: take_bit_nat_eq_self)
qed

lemma string_len_word: "wf_string h s \<Longrightarrow> caml_string_length h s = of_nat (string_len h s)"
  using string_length_val(1) [of h s] by (metis of_nat_unat ucast_id)

lemma wf_string_init:
  assumes "p AND 7 = 0" "l < 2048"
    and "Wosize_hd (h p) = of_nat (l div 8 + 1)" "h (p + 8 + 8 * of_nat (l div 8)) = 0"
  defines "h' \<equiv> Byte_u_set h (p + 8) (of_nat (8 * (l div 8 + 1) - 1)) (of_nat (7 - l mod 8))"
  shows "wf_string h' (p + 8)" "string_len h' (p + 8) = l" "\<forall>a. a \<noteq> p + 8 + 8 * of_nat (l div 8) \<longrightarrow> h' a = h a"
proof -
  let ?n = "8 * (l div 8 + 1) - 1" and ?r = "p + 8"
  have "8 * (x + 1) - 1 < 2048" if "x < 256" for x :: nat using that by presburger
  moreover have "l div 8 < 256" using assms(2) by simp
  ultimately have n: "?n < 2048" by blast
  have a: "?r AND 7 = 0" using aligned_add8(1) [OF assms(1), of 1] by simp
  have h': "h' = write_bytes h (?r + of_nat ?n) [of_nat (7 - l mod 8)]"
    unfolding h'_def using Byte_u_set_add [of h ?r "of_nat ?n" 0] by simp
  have "Hd_val h' ?r = h p" unfolding h' by (subst write_bytes_header [OF a]) (use n in \<open>simp_all add: Hd_val_def\<close>)
  then have w: "string_wosize h' ?r = l div 8 + 1"
    using assms(2,3) by (simp only: string_wosize_def Wosize_val_def unat_of_nat) simp
  have nth: "Byte_u h' ?r (of_nat i) = (if i = ?n then of_nat (7 - l mod 8) else Byte_u h ?r (of_nat i))" if "i < 2048" for i
    unfolding h' by (subst write_bytes_nth) (use that n in auto)
  have pad: "string_pad h' ?r = 7 - l mod 8"
    unfolding string_pad_def w nth [OF n] by (simp only: unat_of_nat if_True simp_thms) simp
  show len: "string_len h' ?r = l" unfolding string_len_def w pad by presburger
  have z: "Byte_u h ?r (of_nat i) = 0" if i: "l \<le> i" "i < ?n" for i
  proof -
    have "i < (l div 8 + 1) * 8" using i(2) by linarith
    then have "i div 8 < l div 8 + 1" by (rule less_mult_imp_div_less)
    then have "i div 8 = l div 8" using div_le_mono [OF i(1), of 8] by linarith
    then have m: "i = 8 * (l div 8) + i mod 8" by (metis mult_div_mod_eq)
    have "Byte_u h ?r (8 * of_nat (l div 8) + of_nat (i mod 8)) = ucast (drop_bit (8 * (i mod 8)) (h (?r + 8 * of_nat (l div 8))))"
      by (rule Byte_u_aligned [OF aligned_add8(1) [OF a]]) simp
    then show ?thesis using assms(4) by (subst m) simp
  qed
  have z': "Byte_u h' ?r (of_nat i) = 0" if "i \<in> {l ..< ?n}" for i
  proof -
    have i: "l \<le> i" "i < ?n" using that unfolding atLeastLessThan_iff by blast+
    then have "i < 2048" using n by linarith
    from nth [OF this] z [OF i] i(2) show ?thesis by simp
  qed
  show "wf_string h' ?r"
    unfolding wf_string_def w pad len using a z' by simp
  have e: "of_nat ?n = 8 * of_nat (l div 8) + (of_nat 7 :: u64)" by simp
  have "(?r + of_nat ?n) AND NOT 7 = ?r + 8 * of_nat (l div 8)"
    unfolding e add.assoc [symmetric] by (rule aligned_byte(2) [OF aligned_add8(1) [OF a]]) simp
  then show "\<forall>a. a \<noteq> ?r + 8 * of_nat (l div 8) \<longrightarrow> h' a = h a"
    by (simp add: h'_def Byte_u_set_def Let_def)
qed

lemma alloc_string_ok:
  assumes "young_ptr st AND 7 = 0" "l < 2048"
    and "young_limit st \<le> young_ptr st - Bhsize_wosize (of_nat (l div 8 + 1))"
  defines "p \<equiv> young_ptr st - Bhsize_wosize (of_nat (l div 8 + 1))"
  shows "\<exists>st'. caml_alloc_string lib (of_nat l) st = Value (st', p + 8) \<and> young_ptr st' = p \<and>
    wf_string (mem st') (p + 8) \<and> caml_string_length (mem st') (p + 8) = of_nat l \<and>
    Tag_val (mem st') (p + 8) = String_tag \<and>
    (\<forall>a. a \<noteq> p \<longrightarrow> a \<noteq> p + 8 + 8 * of_nat (l div 8) \<longrightarrow> mem st' a = mem st a)"
proof -
  let ?w = "of_nat (l div 8 + 1) :: u64" and ?q = "p + 8 + 8 * of_nat (l div 8)"
  let ?hd = "Make_header ?w String_tag Caml_black"
  define h where "h = (mem st)(p := ?hd, ?q := 0)"
  have lw: "?w - 1 = of_nat (l div 8)" by simp
  define h' where "h' = Byte_u_set h (p + 8) (of_nat (8 * (l div 8 + 1) - 1)) (of_nat (7 - l mod 8))"
  have e: "caml_alloc_string lib (of_nat l) st = Value (st\<lparr>young_ptr := p, mem := h'\<rparr>, p + 8)"
    unfolding caml_alloc_string_def Let_def alloc_string_size(1,2) [OF assms(2)] if_P [OF alloc_string_size(3) [OF assms(2)]]
      Alloc_small_eq [OF assms(3), folded p_def] and_then.simps prod.case lw alloc_string_pad
    by (simp add: h'_def h_def Field_set_def)
  have u: "unat (8 + 8 * of_nat (l div 8) :: u64) = 8 + 8 * (l div 8)"
    using assms(2) by (simp add: unat_word_ariths unat_of_nat)
  have q: "?q \<noteq> p"
  proof
    assume "?q = p"
    then have "8 + 8 * of_nat (l div 8) = (0 :: u64)" unfolding add.assoc by (simp only: add_cancel_left_right)
    with u show False by simp
  qed
  have "?w \<le> Max_wosize" using assms(2) by (simp only: word_le_nat_alt unat_of_nat Max_wosize_def) simp
  then have hf: "Wosize_hd ?hd = ?w" "Tag_hd ?hd = String_tag"
    by (simp_all add: header_fields String_tag_def)
  have a: "p AND 7 = 0" unfolding p_def Bhsize_wosize_def Bsize_wsize_def Whsize_wosize_def
    using aligned_add8(2) [OF assms(1), of "?w + 1"] by (simp add: algebra_simps)
  have "Wosize_hd (h p) = ?w" "h ?q = 0" using q hf by (simp_all add: h_def)
  note i = wf_string_init [OF a assms(2) this, folded h'_def]
  have "\<forall>a. a \<noteq> p \<longrightarrow> a \<noteq> ?q \<longrightarrow> h' a = mem st a" using i(3) by (simp add: h_def)
  moreover have "h' p = ?hd" using i(3) q by (simp add: h_def)
  ultimately show ?thesis using e i hf(2) string_len_word [OF i(1)]
    by (simp add: Tag_val_def Hd_val_def)
qed

lemma int_len:
  assumes "l < 2048"
  shows "(scast (of_nat l :: cint) :: u64) = of_nat l" "unat (scast (of_nat l :: cint) :: u64) = l"
proof -
  have "sint (of_nat l :: cint) = int l"
    using assms by (simp add: signed_of_nat) (rule signed_take_bit_int_eq_self, simp_all)
  then show "(scast (of_nat l :: cint) :: u64) = of_nat l"
    by (metis of_int_of_nat_eq of_int_sint)
  then show "unat (scast (of_nat l :: cint) :: u64) = l" using assms by (simp add: unat_of_nat)
qed

text \<open>With room in the minor heap, \<open>caml_copy_string\<close> allocates a well-formed string
  that holds exactly the characters of the C string before its terminating zero, tagged as a
  string.\<close>

theorem caml_copy_string_correct:
  assumes "young_ptr st AND 7 = 0" "takeWhile (\<lambda>c. c \<noteq> 0) s = cs" "length cs = l" "l < 2048"
    and "p = young_ptr st - Bhsize_wosize (of_nat (l div 8 + 1))" "young_limit st \<le> p"
  shows "\<exists>st'. caml_copy_string lib s st = Value (st', p + 8) \<and> young_ptr st' = p \<and>
    wf_string (mem st') (p + 8) \<and> Tag_val (mem st') (p + 8) = String_tag \<and>
    string_bytes (mem st') (p + 8) = cs"
proof -
  obtain st' where st': "caml_alloc_string lib (of_nat l) st = Value (st', p + 8)" "young_ptr st' = p"
      "wf_string (mem st') (p + 8)" "caml_string_length (mem st') (p + 8) = of_nat l"
      "Tag_val (mem st') (p + 8) = String_tag"
    using alloc_string_ok [OF assms(1,4)] assms(5,6) by blast
  have l: "string_len (mem st') (p + 8) = l"
    using string_length_val(1) [OF st'(3)] st'(4) assms(4) by (simp add: unat_of_nat)
  then have b: "0 + length cs \<le> string_len (mem st') (p + 8)" using assms(3) by simp
  have a: "(p + 8) AND 7 = 0" using st'(3) by (simp add: wf_string_def)
  have h: "Hd_val (write_bytes (mem st') (p + 8) cs) (p + 8) = Hd_val (mem st') (p + 8)"
    using write_bytes_header [OF a, of 0 cs] assms(3,4) by simp
  have d: "drop l (string_bytes (mem st') (p + 8)) = []"
    using l by (simp add: string_bytes_len(1) [OF st'(3)])
  have copied: "take l s = cs" using takeWhile_eq_take [of "\<lambda>c. c \<noteq> 0" s] assms(2,3) by simp
  show ?thesis
    using string_wf_write [OF st'(3) b] st'(2,5) h assms(3) d
    by (simp add: caml_copy_string_def Let_def strlen_def assms(2,3) int_len(2) [OF assms(4), unfolded int_len(1) [OF assms(4)]]
        int_len(1) [OF assms(4)] copied st'(1) Tag_val_def)
qed

section \<open>Strings in memory\<close>

text \<open>The string \<open>"ab"\<close> at address 1000 and \<open>"abc"\<close> at address 2000.\<close>

definition ab_heap :: heap where
  "ab_heap a =
     (if a = 992 \<or> a = 1992 then 1276
      else if a = 1000 then 0x0500000000006261
      else if a = 2000 then 0x0400000000636261 else 0)"

lemma ab_heap_string:
  "wf_string ab_heap 1000" "string_len ab_heap 1000 = 2" "string_bytes ab_heap 1000 = [0x61, 0x62]"
  "wf_string ab_heap 2000" "string_bytes ab_heap 2000 = [0x61, 0x62, 0x63]"
  by code_simp+

theorem caml_string_equal_contents_witness:
  "caml_string_equal ab_heap 1000 2000 = Val_bool (string_bytes ab_heap 1000 = string_bytes ab_heap 2000)"
  by (rule caml_string_equal_contents) (rule ab_heap_string)+

theorem caml_string_set_get_witness:
  "\<exists>h'. caml_string_set ab_heap 1000 (Val_long (of_nat 1)) (Val_int (ucast (0x7A :: u8))) = Inr (h', Val_unit) \<and>
    wf_string h' 1000 \<and> string_bytes h' 1000 = (string_bytes ab_heap 1000)[1 := 0x7A] \<and>
    caml_string_get h' 1000 (Val_long (of_nat 1)) = Inr (Val_int (ucast (0x7A :: u8)))"
  by (rule caml_string_set_get) (simp_all add: ab_heap_string)

theorem caml_string_bounds_witness:
  "caml_string_get ab_heap 1000 (Val_long (word_of_int 2)) =
    (if 0 \<le> (2 :: int) \<and> 2 < int (string_len ab_heap 1000) then Inr (Val_int (ucast (string_bytes ab_heap 1000 ! nat 2)))
     else Inl (Invalid_argument ''index out of bounds''))"
  by (rule caml_string_bounds) (simp_all add: ab_heap_string Long_limits)


theorem caml_copy_string_correct_witness:
  "\<exists>st'. caml_copy_string \<lparr> malloc = \<lambda>_. 0, calloc = \<lambda>_. False, realloc = \<lambda>_. False \<rparr> [0x61, 0x62, 0, 0x63] one_page_memory =
      Value (st', 0x1EFF0 + 8) \<and>
    young_ptr st' = 0x1EFF0 \<and> wf_string (mem st') (0x1EFF0 + 8) \<and>
    Tag_val (mem st') (0x1EFF0 + 8) = String_tag \<and> string_bytes (mem st') (0x1EFF0 + 8) = [0x61, 0x62]"
  by (rule caml_copy_string_correct [where l = 2])
    (simp_all add: Bhsize_wosize_def Bsize_wsize_def Whsize_wosize_def one_page_memory_def freelist.defs)

end
