(* ===== verification/Arrays.thy ===== *)
theory Arrays
  imports Alloc
begin

text \<open>
  The array primitives of \<open>byterun/array.c\<close>.  An array of floats has the tag
  \<open>Double_array_tag\<close> and holds the bits of the doubles, one word each on a 64-bit machine, so
  that copying a double copies a word.
\<close>

section \<open>Primitives\<close>

definition array_bound_error :: "'a outcome" where
  "array_bound_error = Raised (Invalid_argument ''index out of bounds'')"

definition caml_array_get_addr :: "value_t \<Rightarrow> value_t \<Rightarrow> ('a) memory_scheme \<Rightarrow> (('a) memory_scheme \<times> value_t) outcome" where
  "caml_array_get_addr array index st =
     (let idx = Long_val index
      in if sint idx < 0 \<or> idx \<ge> Wosize_val (mem st) array then array_bound_error
         else Value (st, Field (mem st) array idx))"

definition alloc_double :: "u64 \<Rightarrow> ('a) memory_scheme \<Rightarrow> (('a) memory_scheme \<times> value_t) outcome" where
  "alloc_double d st =
     and_then (Alloc_small Double_wosize Double_tag st) (\<lambda>(st, r). Value (st\<lparr> mem := (mem st)(r := d) \<rparr>, r))"

definition caml_array_get_float :: "value_t \<Rightarrow> value_t \<Rightarrow> ('a) memory_scheme \<Rightarrow> (('a) memory_scheme \<times> value_t) outcome" where
  "caml_array_get_float array index st =
     (let idx = Long_val index
      in if sint idx < 0 \<or> idx \<ge> Wosize_val (mem st) array div Double_wosize then array_bound_error
         else alloc_double (Field (mem st) array idx) st)"

definition caml_array_get :: "value_t \<Rightarrow> value_t \<Rightarrow> ('a) memory_scheme \<Rightarrow> (('a) memory_scheme \<times> value_t) outcome" where
  "caml_array_get array index st =
     (if Tag_val (mem st) array = Double_array_tag then caml_array_get_float array index st
      else caml_array_get_addr array index st)"

definition caml_array_set_addr ::
  "libc \<Rightarrow> value_t \<Rightarrow> value_t \<Rightarrow> value_t \<Rightarrow> ('a) memory_scheme \<Rightarrow> (('a) memory_scheme \<times> value_t) outcome" where
  "caml_array_set_addr lib array index newval st =
     (let idx = Long_val index
      in if sint idx < 0 \<or> idx \<ge> Wosize_val (mem st) array then array_bound_error
         else and_then (caml_modify lib (array + 8 * idx) newval st) (\<lambda>st. Value (st, Val_unit)))"

definition caml_array_set_float ::
  "value_t \<Rightarrow> value_t \<Rightarrow> value_t \<Rightarrow> ('a) memory_scheme \<Rightarrow> (('a) memory_scheme \<times> value_t) outcome" where
  "caml_array_set_float array index newval st =
     (let idx = Long_val index
      in if sint idx < 0 \<or> idx \<ge> Wosize_val (mem st) array div Double_wosize then array_bound_error
         else Value (st\<lparr> mem := Field_set (mem st) array idx (mem st newval) \<rparr>, Val_unit))"

definition caml_array_set ::
  "libc \<Rightarrow> value_t \<Rightarrow> value_t \<Rightarrow> value_t \<Rightarrow> ('a) memory_scheme \<Rightarrow> (('a) memory_scheme \<times> value_t) outcome" where
  "caml_array_set lib array index newval st =
     (if Tag_val (mem st) array = Double_array_tag then caml_array_set_float array index newval st
      else caml_array_set_addr lib array index newval st)"

definition caml_array_unsafe_get_float ::
  "value_t \<Rightarrow> value_t \<Rightarrow> ('a) memory_scheme \<Rightarrow> (('a) memory_scheme \<times> value_t) outcome" where
  "caml_array_unsafe_get_float array index st = alloc_double (Field (mem st) array (Long_val index)) st"

definition caml_array_unsafe_get :: "value_t \<Rightarrow> value_t \<Rightarrow> ('a) memory_scheme \<Rightarrow> (('a) memory_scheme \<times> value_t) outcome" where
  "caml_array_unsafe_get array index st =
     (if Tag_val (mem st) array = Double_array_tag then caml_array_unsafe_get_float array index st
      else Value (st, Field (mem st) array (Long_val index)))"

definition caml_array_unsafe_set_addr ::
  "libc \<Rightarrow> value_t \<Rightarrow> value_t \<Rightarrow> value_t \<Rightarrow> ('a) memory_scheme \<Rightarrow> (('a) memory_scheme \<times> value_t) outcome" where
  "caml_array_unsafe_set_addr lib array index newval st =
     and_then (caml_modify lib (array + 8 * Long_val index) newval st) (\<lambda>st. Value (st, Val_unit))"

definition caml_array_unsafe_set_float ::
  "value_t \<Rightarrow> value_t \<Rightarrow> value_t \<Rightarrow> ('a) memory_scheme \<Rightarrow> (('a) memory_scheme \<times> value_t) outcome" where
  "caml_array_unsafe_set_float array index newval st =
     Value (st\<lparr> mem := Field_set (mem st) array (Long_val index) (mem st newval) \<rparr>, Val_unit)"

definition caml_array_unsafe_set ::
  "libc \<Rightarrow> value_t \<Rightarrow> value_t \<Rightarrow> value_t \<Rightarrow> ('a) memory_scheme \<Rightarrow> (('a) memory_scheme \<times> value_t) outcome" where
  "caml_array_unsafe_set lib array index newval st =
     (if Tag_val (mem st) array = Double_array_tag then caml_array_unsafe_set_float array index newval st
      else caml_array_unsafe_set_addr lib array index newval st)"

definition Is_in_value_area :: "u64 \<Rightarrow> ('a) memory_scheme \<Rightarrow> bool outcome" where
  "Is_in_value_area a st =
     and_then (returning (caml_page_table_lookup (pages st) a))
     (\<lambda>k. Value (k AND (In_heap OR In_young OR In_static_data) \<noteq> 0))"

definition is_boxed_double :: "value_t \<Rightarrow> ('a) memory_scheme \<Rightarrow> bool outcome" where
  "is_boxed_double v st =
     (if Is_block v then
        and_then (Is_in_value_area v st) (\<lambda>b. Value (b \<and> Tag_val (mem st) v = Double_tag))
      else Value False)"

fun initialize_fields :: "libc \<Rightarrow> value_t \<Rightarrow> nat \<Rightarrow> value_t \<Rightarrow> ('a) memory_scheme \<Rightarrow> ('a) memory_scheme outcome" where
  "initialize_fields lib r 0 x st = Value st"
| "initialize_fields lib r (Suc n) x st =
     and_then (initialize_fields lib r n x st) (caml_initialize lib (r + 8 * of_nat n) x)"

definition caml_make_vect :: "libc \<Rightarrow> value_t \<Rightarrow> value_t \<Rightarrow> ('a) memory_scheme \<Rightarrow> (('a) memory_scheme \<times> value_t) outcome" where
  "caml_make_vect lib len init st =
     (let size = Long_val len
      in if size = 0 then Value (st, Atom 0 st)
         else
           and_then (is_boxed_double init st)
           (\<lambda>dbl.
              if dbl then
                (let d = mem st init;
                     wsize = size * Double_wosize
                 in if wsize > Max_wosize then Raised (Invalid_argument ''Array.make'')
                    else and_then (caml_alloc lib wsize Double_array_tag st)
                         (\<lambda>(st, r). Value (st\<lparr> mem := fill_fields (mem st) r (unat size) d \<rparr>, r)))
              else if size > Max_wosize then Raised (Invalid_argument ''Array.make'')
              else if size < Max_young_wosize then
                and_then (caml_alloc_small size 0 st)
                (\<lambda>(st, r). Value (st\<lparr> mem := fill_fields (mem st) r (unat size) init \<rparr>, r))
              else if Is_block init \<and> Is_young init st then Collects
              else
                and_then (caml_alloc_shr lib size 0 st)
                (\<lambda>(st, r). and_then (initialize_fields lib r (unat size) init st) (caml_check_urgent_gc r))))"

fun unbox_fields :: "heap \<Rightarrow> value_t \<Rightarrow> value_t \<Rightarrow> nat \<Rightarrow> heap" where
  "unbox_fields h r init 0 = h"
| "unbox_fields h r init (Suc n) =
     (let h = unbox_fields h r init n in Field_set h r (of_nat n) (h (Field h init (of_nat n))))"

definition caml_make_array :: "value_t \<Rightarrow> ('a) memory_scheme \<Rightarrow> (('a) memory_scheme \<times> value_t) outcome" where
  "caml_make_array init st =
     (let size = Wosize_val (mem st) init
      in if size = 0 then Value (st, init)
         else
           and_then (is_boxed_double (Field (mem st) init 0) st)
           (\<lambda>dbl.
              if \<not> dbl then Value (st, init)
              else and_then (caml_alloc_small (size * Double_wosize) Double_array_tag st)
                   (\<lambda>(st, r). Value (st\<lparr> mem := unbox_fields (mem st) r init (unat size) \<rparr>, r))))"

end
