(* ===== verification/Machine.thy ===== *)
theory Machine
  imports Arrays
begin

text \<open>
  The abstract machine of the bytecode interpreter: the registers of \<open>caml_interprete\<close>
  (\<open>byterun/interp.c\<close>), the global state it shares with the runtime, the stack of
  \<open>byterun/stacks.c\<close> and the raising of exceptions by the runtime (\<open>byterun/fail.c\<close>).

  The stack lies in the word memory; the bytecode is a map from the byte addresses of the code area to
  32-bit words.  A call that leaves the interpreter for the collector, a C primitive, the signal
  handlers or the debugger is a request to the environment: the machine gives its global state and
  resumes with the state in the reply, or in its exception handler when the callee raised.  The
  registers are local variables of the interpreter, which a callee cannot change.
\<close>

section \<open>State\<close>

record regs =
  pc :: u64
  sp :: u64
  accu :: value_t
  env :: value_t
  extra_args :: intnat
  saved_pc :: u64
  initial_sp_offset :: cint
  initial_local_roots :: u64
  initial_external_raise :: u64

record vm = memory +
  code :: "u64 \<Rightarrow> cint"
  start_code :: u64
  saved_code :: "u64 \<Rightarrow> u8"
  global_data :: value_t
  stack_low :: u64
  stack_high :: u64
  stack_threshold :: u64
  extern_sp :: u64
  trapsp :: u64
  trap_barrier :: u64
  max_stack_size :: u64
  event_count :: uintnat
  backtrace_active :: bool
  callback_depth :: cint
  exn_bucket :: value_t
  local_roots :: u64
  external_raise :: u64
  oom_bucket :: u64

datatype event_kind = EVENT_COUNT | BREAKPOINT | PROGRAM_START | PROGRAM_EXIT | TRAP_BARRIER | UNCAUGHT_EXC

datatype request =
    Minor_collection
  | Minor_collection_with value_t
  | Process_event
  | Primitive cint "value_t list"
  | PrimitiveN cint u64 cint

datatype notice =
    Caml_debugger event_kind
  | Stash_backtrace value_t u64 u64

datatype reply = Returns value_t vm | Raises vm

text \<open>The outcome of one instruction: the next instruction is fetched, an instruction is
  restarted with a given opcode, the interpreter returns, fails, diverges or shifts by an amount for
  which C gives no meaning, or it calls the environment.\<close>

datatype step =
    Next regs vm
  | Dispatch cint regs vm
  | Return value_t vm
  | Fails exn
  | Diverges
  | Undefined
  | Ask request vm "reply \<Rightarrow> step"
  | Tell notice vm "vm \<Rightarrow> step"

type_synonym instr = "regs \<Rightarrow> vm \<Rightarrow> step"

fun finishing :: "'a outcome \<Rightarrow> ('a \<Rightarrow> step) \<Rightarrow> step" where
  "finishing (Value x) k = k x"
| "finishing (Raised e) k = Fails e"
| "finishing Collects k = Diverges"
| "finishing Loops k = Diverges"

section \<open>Memory accesses\<close>

definition stack :: "regs \<Rightarrow> vm \<Rightarrow> u64 \<Rightarrow> value_t" where "stack r s i = mem s (sp r + 8 * i)"

definition operand :: "regs \<Rightarrow> vm \<Rightarrow> u64 \<Rightarrow> cint" where "operand r s i = code s (pc r + 4 * i)"

fun store_words :: "heap \<Rightarrow> u64 \<Rightarrow> u64 list \<Rightarrow> heap" where
  "store_words h a [] = h"
| "store_words h a (w # ws) = store_words (h(a := w)) (a + 8) ws"

definition Code_val :: "heap \<Rightarrow> value_t \<Rightarrow> u64" where "Code_val h v = h v"
definition Trap_pc :: "heap \<Rightarrow> u64 \<Rightarrow> u64" where "Trap_pc h tp = h tp"
definition Trap_link :: "heap \<Rightarrow> u64 \<Rightarrow> u64" where "Trap_link h tp = h (tp + 8)"
definition Make_exception_result :: "value_t \<Rightarrow> value_t" where "Make_exception_result v = v OR 2"
definition Is_exception_result :: "value_t \<Rightarrow> bool" where "Is_exception_result v \<longleftrightarrow> v AND 3 = 2"
definition Extract_exception :: "value_t \<Rightarrow> value_t" where "Extract_exception v = v AND NOT 3"

section \<open>Raising exceptions\<close>

definition unwind :: instr where
  "unwind r s =
     (if trapsp s \<ge> stack_high s - scast (initial_sp_offset r) then
        Return (Make_exception_result (accu r))
          (s\<lparr> external_raise := initial_external_raise r,
              extern_sp := stack_high s - scast (initial_sp_offset r),
              callback_depth := callback_depth s - 1 \<rparr>)
      else
        (let r = r\<lparr> sp := trapsp s \<rparr>;
             r = r\<lparr> pc := Trap_pc (mem s) (sp r) \<rparr>;
             s = s\<lparr> trapsp := Trap_link (mem s) (sp r) \<rparr>;
             r = r\<lparr> env := stack r s 2, extra_args := Long_val (stack r s 3) \<rparr>
         in Next (r\<lparr> sp := sp r + 32 \<rparr>) s))"

definition raise_exception :: instr where
  "raise_exception r s =
     (let stash = (\<lambda>s. if backtrace_active s then Tell (Stash_backtrace (accu r) (pc r) (sp r)) s (unwind r)
                        else unwind r s)
      in if trapsp s \<ge> trap_barrier s then Tell (Caml_debugger TRAP_BARRIER) s stash else stash s)"

text \<open>The second return of \<open>sigsetjmp\<close> in \<open>caml_interprete\<close>.\<close>

definition external_raised :: instr where
  "external_raised r s =
     raise_exception
       (r\<lparr> sp := extern_sp s, accu := exn_bucket s,
           pc := (if saved_pc r \<noteq> 0 then saved_pc r + 8 else saved_pc r), saved_pc := 0 \<rparr>)
       (s\<lparr> local_roots := initial_local_roots r \<rparr>)"

definition caml_raise :: "value_t \<Rightarrow> instr" where
  "caml_raise v r s =
     (let s = s\<lparr> exn_bucket := v \<rparr>
      in if external_raise s = 0 then Fails (Fatal_error ''uncaught exception'') else external_raised r s)"

definition caml_raise_constant :: "value_t \<Rightarrow> instr" where
  "caml_raise_constant tag r s =
     (let with_bucket = (\<lambda>tag s.
            (let p = young_ptr s - Bhsize_wosize 1;
                 s = s\<lparr> young_ptr := p, mem := (mem s)(p := Make_header 1 0 Caml_black) \<rparr>;
                 bucket = p + 8
             in caml_raise bucket r (s\<lparr> mem := Field_set (mem s) bucket 0 tag \<rparr>)))
      in if young_ptr s - Bhsize_wosize 1 < young_limit s then
           Ask (Minor_collection_with tag) s
             (\<lambda>reply. case reply of Returns tag s \<Rightarrow> with_bucket tag s | Raises s \<Rightarrow> external_raised r s)
         else with_bucket tag s)"

definition OUT_OF_MEMORY_EXN :: uintnat where "OUT_OF_MEMORY_EXN = 0"
definition ZERO_DIVIDE_EXN :: uintnat where "ZERO_DIVIDE_EXN = 5"
definition STACK_OVERFLOW_EXN :: uintnat where "STACK_OVERFLOW_EXN = 8"

definition caml_raise_zero_divide :: instr where
  "caml_raise_zero_divide r s = caml_raise_constant (Field (mem s) (global_data s) ZERO_DIVIDE_EXN) r s"

definition caml_raise_stack_overflow :: instr where
  "caml_raise_stack_overflow r s = caml_raise_constant (Field (mem s) (global_data s) STACK_OVERFLOW_EXN) r s"

definition caml_raise_out_of_memory :: instr where
  "caml_raise_out_of_memory r s =
     (if mem s (oom_bucket s) = 0
      then Fails (Fatal_error ''Fatal error: out of memory while raising Out_of_memory'')
      else caml_raise (oom_bucket s) r s)"

definition caml_init_exceptions :: "vm \<Rightarrow> vm" where
  "caml_init_exceptions s =
     s\<lparr> mem := (mem s)(oom_bucket s - 8 := Make_header 1 0 Caml_white,
                       oom_bucket s := Field (mem s) (global_data s) OUT_OF_MEMORY_EXN) \<rparr>"

section \<open>The stack\<close>

definition Stack_size :: u64 where "Stack_size = 4096 * 8"
definition Stack_threshold :: u64 where "Stack_threshold = 256 * 8"

definition caml_init_stack :: "libc \<Rightarrow> uintnat \<Rightarrow> vm \<Rightarrow> vm outcome" where
  "caml_init_stack lib initial_max_size s =
     (if malloc lib Stack_size = 0 then Raised Out_of_memory
      else
        (let s = s\<lparr> stack_low := malloc lib Stack_size \<rparr>;
             s = s\<lparr> stack_high := stack_low s + 8 * (Stack_size div 8) \<rparr>
         in Value (s\<lparr> stack_threshold := stack_low s + 8 * (Stack_threshold div 8), extern_sp := stack_high s,
                      trapsp := stack_high s, trap_barrier := stack_high s + 8, max_stack_size := initial_max_size \<rparr>)))"

partial_function (option) grown_stack_size :: "u64 \<Rightarrow> u64 \<Rightarrow> u64 \<Rightarrow> u64 option option" where
  "grown_stack_size max_size needed sz =
     (if sz \<ge> max_size then Some None
      else let sz = sz * 2 in if sz < needed then grown_stack_size max_size needed sz else Some (Some sz))"

declare grown_stack_size.simps [code]

text \<open>The loop that moves the links of the trap frames by the distance \<open>d\<close> of the move.\<close>

partial_function (option) shift_trap_links :: "u64 \<Rightarrow> u64 \<Rightarrow> u64 \<Rightarrow> heap \<Rightarrow> heap option" where
  "shift_trap_links new_high d p h =
     (if p < new_high then
        let h = h(p + 8 := Trap_link h p + d) in shift_trap_links new_high d (Trap_link h p) h
      else Some h)"

declare shift_trap_links.simps [code]

definition word_block :: "heap \<Rightarrow> u64 \<Rightarrow> nat \<Rightarrow> u64 list" where
  "word_block h a n = map (\<lambda>i. h (a + 8 * of_nat i)) [0..<n]"

definition moved_stack :: "u64 \<Rightarrow> u64 \<Rightarrow> vm \<Rightarrow> vm option" where
  "moved_stack new_low sz s =
     (let new_high = new_low + 8 * sz;
          shift = (\<lambda>ptr. new_high - (stack_high s - ptr));
          new_sp = shift (extern_sp s);
          h = store_words (mem s) new_sp (word_block (mem s) (extern_sp s) (unat (stack_high s - extern_sp s) div 8));
          s = s\<lparr> trapsp := shift (trapsp s), trap_barrier := shift (trap_barrier s) \<rparr>
      in case shift_trap_links new_high (new_high - stack_high s) (trapsp s) h of
           None \<Rightarrow> None
         | Some h \<Rightarrow>
             Some (s\<lparr> mem := h, stack_low := new_low, stack_high := new_high,
                      stack_threshold := new_low + 8 * (Stack_threshold div 8), extern_sp := new_sp \<rparr>))"

definition caml_realloc_stack :: "libc \<Rightarrow> u64 \<Rightarrow> regs \<Rightarrow> vm \<Rightarrow> (vm \<Rightarrow> step) \<Rightarrow> step" where
  "caml_realloc_stack lib required_space r s k =
     (case grown_stack_size (max_stack_size s) (signed_drop_bit 3 (stack_high s - extern_sp s) + required_space)
             (signed_drop_bit 3 (stack_high s - stack_low s)) of
        None \<Rightarrow> Diverges
      | Some None \<Rightarrow> caml_raise_stack_overflow r s
      | Some (Some sz) \<Rightarrow>
          if malloc lib (sz * 8) = 0 \<and> sz * 8 \<noteq> 0 then caml_raise_out_of_memory r s
          else (case moved_stack (malloc lib (sz * 8)) sz s of None \<Rightarrow> Diverges | Some s \<Rightarrow> k s))"

definition caml_ensure_stack_capacity :: "libc \<Rightarrow> value_t \<Rightarrow> regs \<Rightarrow> vm \<Rightarrow> (value_t \<Rightarrow> vm \<Rightarrow> step) \<Rightarrow> step" where
  "caml_ensure_stack_capacity lib required_space r s k =
     (let req = Long_val required_space
      in if extern_sp s - 8 * req < stack_low s then caml_realloc_stack lib req r s (k Val_unit) else k Val_unit s)"

definition caml_change_max_stack_size :: "uintnat \<Rightarrow> vm \<Rightarrow> vm" where
  "caml_change_max_stack_size new_max_size s =
     (let sz = signed_drop_bit 3 (stack_high s - extern_sp s) + Stack_threshold div 8
      in s\<lparr> max_stack_size := (if new_max_size < sz then sz else new_max_size) \<rparr>)"

end
