(* ===== verification/Interp.thy ===== *)
theory Interp
  imports Machine "HOL-Library.Signed_Division"
begin

text \<open>
  The instructions of the bytecode interpreter \<open>caml_interprete\<close> (\<open>byterun/interp.c\<close>), in the build without
  threaded code: one definition for each instruction, or for a family of instructions that differ in a
  constant, the table that gives an opcode its instruction in the order of \<open>byterun/instruct.h\<close>, and
  the execution of programs.  The program counter of an instruction points just after its opcode.
\<close>

section \<open>Calls to the environment\<close>

definition Setup_for_gc :: "regs \<Rightarrow> vm \<Rightarrow> regs \<times> vm" where
  "Setup_for_gc r s =
     (r\<lparr> sp := sp r - 16 \<rparr>, s\<lparr> mem := store_words (mem s) (sp r - 16) [accu r, env r], extern_sp := sp r - 16 \<rparr>)"

definition Restore_after_gc :: "regs \<Rightarrow> vm \<Rightarrow> regs" where
  "Restore_after_gc r s = r\<lparr> accu := stack r s 0, env := stack r s 1, sp := sp r + 16 \<rparr>"

definition Setup_for_c_call :: "regs \<Rightarrow> vm \<Rightarrow> regs \<times> vm" where
  "Setup_for_c_call r s =
     (r\<lparr> saved_pc := pc r, sp := sp r - 8 \<rparr>, s\<lparr> mem := (mem s)(sp r - 8 := env r), extern_sp := sp r - 8 \<rparr>)"

definition Restore_after_c_call :: "regs \<Rightarrow> vm \<Rightarrow> regs" where
  "Restore_after_c_call r s = r\<lparr> sp := extern_sp s + 8, env := mem s (extern_sp s), saved_pc := 0 \<rparr>"

definition Setup_for_event :: "regs \<Rightarrow> vm \<Rightarrow> regs \<times> vm" where
  "Setup_for_event r s =
     (r\<lparr> sp := sp r - 48 \<rparr>,
      s\<lparr> mem := store_words (mem s) (sp r - 48)
                  [accu r, Val_unit, Val_unit, pc r, env r, Val_long (extra_args r)],
         extern_sp := sp r - 48 \<rparr>)"

definition Restore_after_event :: "regs \<Rightarrow> vm \<Rightarrow> regs" where
  "Restore_after_event r s =
     (let r = r\<lparr> sp := extern_sp s \<rparr>
      in r\<lparr> accu := stack r s 0, pc := stack r s 3, env := stack r s 4, extra_args := Long_val (stack r s 5),
            sp := sp r + 48 \<rparr>)"

definition Setup_for_debugger :: "regs \<Rightarrow> vm \<Rightarrow> regs \<times> vm" where
  "Setup_for_debugger r s =
     (r\<lparr> sp := sp r - 32 \<rparr>,
      s\<lparr> mem := store_words (mem s) (sp r - 32) [accu r, pc r - 4, env r, Val_long (extra_args r)],
         extern_sp := sp r - 32 \<rparr>)"

definition Restore_after_debugger :: "regs \<Rightarrow> regs" where
  "Restore_after_debugger r = r\<lparr> sp := sp r + 32 \<rparr>"

text \<open>The macro \<open>Alloc_small\<close> as the interpreter uses it: where the minor heap is full, a minor
  collection runs with the accumulator and the environment saved on the stack.\<close>

definition take_young :: "mlsize_t \<Rightarrow> u32 \<Rightarrow> vm \<Rightarrow> vm" where
  "take_young wosize tag s =
     (let p = young_ptr s - Bhsize_wosize wosize
      in s\<lparr> young_ptr := p, mem := (mem s)(p := Make_header wosize tag Caml_black) \<rparr>)"

definition Alloc_small_gc :: "mlsize_t \<Rightarrow> u32 \<Rightarrow> regs \<Rightarrow> vm \<Rightarrow> (value_t \<Rightarrow> instr) \<Rightarrow> step" where
  "Alloc_small_gc wosize tag r s k =
     (if young_ptr s - Bhsize_wosize wosize < young_limit s then
        (let (r, s) = Setup_for_gc r s
         in Ask Minor_collection s
              (\<lambda>reply. case reply of
                 Returns _ s \<Rightarrow>
                   (let r = Restore_after_gc r s; s = take_young wosize tag s in k (young_ptr s + 8) r s)
               | Raises s \<Rightarrow> external_raised r s))
      else (let s = take_young wosize tag s in k (young_ptr s + 8) r s))"

definition process_signal :: instr where
  "process_signal r s =
     (let (r, s) = Setup_for_event r (s\<lparr> something_to_do := False \<rparr>)
      in Ask Process_event s
           (\<lambda>reply. case reply of
              Returns _ s \<Rightarrow> Next (Restore_after_event r s) s
            | Raises s \<Rightarrow> external_raised r s))"

definition CHECK_SIGNALS :: instr where
  "CHECK_SIGNALS r s = (if something_to_do s then process_signal r s else Next r s)"

definition check_stacks :: "libc \<Rightarrow> instr" where
  "check_stacks lib r s =
     (if sp r < stack_threshold s then
        (let s = s\<lparr> extern_sp := sp r \<rparr>
         in caml_realloc_stack lib (Stack_threshold div 8) r s (\<lambda>s. CHECK_SIGNALS (r\<lparr> sp := extern_sp s \<rparr>) s))
      else CHECK_SIGNALS r s)"

section \<open>Stack and environment\<close>

definition ACC :: "u64 \<Rightarrow> instr" where "ACC n r s = Next (r\<lparr> accu := stack r s n \<rparr>) s"

definition ACC_op :: instr where
  "ACC_op r s = Next (r\<lparr> accu := stack r s (scast (operand r s 0)), pc := pc r + 4 \<rparr>) s"

definition push_then :: "instr \<Rightarrow> instr" where
  "push_then i r s = i (r\<lparr> sp := sp r - 8 \<rparr>) (s\<lparr> mem := (mem s)(sp r - 8 := accu r) \<rparr>)"

definition PUSH :: instr where "PUSH = push_then Next"

definition POP :: instr where
  "POP r s = Next (r\<lparr> sp := sp r + 8 * scast (operand r s 0), pc := pc r + 4 \<rparr>) s"

definition ASSIGN :: instr where
  "ASSIGN r s =
     Next (r\<lparr> accu := Val_unit, pc := pc r + 4 \<rparr>)
       (s\<lparr> mem := (mem s)(sp r + 8 * scast (operand r s 0) := accu r) \<rparr>)"

definition ENVACC :: "u64 \<Rightarrow> instr" where "ENVACC n r s = Next (r\<lparr> accu := Field (mem s) (env r) n \<rparr>) s"

definition ENVACC_op :: instr where
  "ENVACC_op r s = Next (r\<lparr> accu := Field (mem s) (env r) (scast (operand r s 0)), pc := pc r + 4 \<rparr>) s"

section \<open>Function application\<close>

definition PUSH_RETADDR :: instr where
  "PUSH_RETADDR r s =
     Next (r\<lparr> sp := sp r - 24, pc := pc r + 4 \<rparr>)
       (s\<lparr> mem := store_words (mem s) (sp r - 24)
                    [pc r + 4 * scast (operand r s 0), env r, Val_long (extra_args r)] \<rparr>)"

definition APPLY :: "libc \<Rightarrow> instr" where
  "APPLY lib r s =
     check_stacks lib
       (r\<lparr> extra_args := scast (operand r s 0 - 1), pc := Code_val (mem s) (accu r), env := accu r \<rparr>) s"

definition APPLYn :: "nat \<Rightarrow> libc \<Rightarrow> instr" where
  "APPLYn n lib r s =
     (let args = word_block (mem s) (sp r) n;
          s = s\<lparr> mem := store_words (mem s) (sp r - 24) (args @ [pc r, env r, Val_long (extra_args r)]) \<rparr>
      in check_stacks lib
           (r\<lparr> sp := sp r - 24, pc := Code_val (mem s) (accu r), env := accu r, extra_args := of_nat n - 1 \<rparr>) s)"

fun copy_words_down :: "heap \<Rightarrow> u64 \<Rightarrow> u64 \<Rightarrow> nat \<Rightarrow> heap" where
  "copy_words_down h dst src 0 = h"
| "copy_words_down h dst src (Suc n) = copy_words_down (h(dst + 8 * of_nat n := h (src + 8 * of_nat n))) dst src n"

definition APPTERM :: "libc \<Rightarrow> instr" where
  "APPTERM lib r s =
     (let nargs = operand r s 0;
          slotsize = operand r s 1;
          newsp = sp r + 8 * scast slotsize - 8 * scast nargs;
          s = s\<lparr> mem := copy_words_down (mem s) newsp (sp r) (nat (sint nargs)) \<rparr>
      in check_stacks lib
           (r\<lparr> sp := newsp, pc := Code_val (mem s) (accu r), env := accu r,
               extra_args := extra_args r + scast (nargs - 1) \<rparr>) s)"

definition APPTERMn :: "nat \<Rightarrow> libc \<Rightarrow> instr" where
  "APPTERMn n lib r s =
     (let args = word_block (mem s) (sp r) n;
          newsp = sp r + 8 * scast (operand r s 0) - 8 * of_nat n;
          s = s\<lparr> mem := store_words (mem s) newsp args \<rparr>
      in check_stacks lib
           (r\<lparr> sp := newsp, pc := Code_val (mem s) (accu r), env := accu r,
               extra_args := extra_args r + (of_nat n - 1) \<rparr>) s)"

definition return_to_caller :: instr where
  "return_to_caller r s =
     Next (r\<lparr> pc := stack r s 0, env := stack r s 1, extra_args := Long_val (stack r s 2), sp := sp r + 24 \<rparr>) s"

definition RETURN :: instr where
  "RETURN r s =
     (let r = r\<lparr> sp := sp r + 8 * scast (operand r s 0), pc := pc r + 4 \<rparr>
      in if 0 < sint (extra_args r) then
           Next (r\<lparr> extra_args := extra_args r - 1, pc := Code_val (mem s) (accu r), env := accu r \<rparr>) s
         else return_to_caller r s)"

fun copy_words :: "heap \<Rightarrow> u64 \<Rightarrow> u64 \<Rightarrow> nat \<Rightarrow> heap" where
  "copy_words h dst src 0 = h"
| "copy_words h dst src (Suc n) = copy_words (h(dst := h src)) (dst + 8) (src + 8) n"

definition RESTART :: instr where
  "RESTART r s =
     (let num_args = (ucast (Wosize_val (mem s) (env r) - 2) :: cint);
          newsp = sp r - 8 * scast num_args;
          s = s\<lparr> mem := copy_words (mem s) newsp (env r + 16) (nat (sint num_args)) \<rparr>
      in Next (r\<lparr> sp := newsp, env := Field (mem s) (env r) 1, extra_args := extra_args r + scast num_args \<rparr>) s)"

definition GRAB :: instr where
  "GRAB r s =
     (let required = operand r s 0;
          r = r\<lparr> pc := pc r + 4 \<rparr>
      in if sint (extra_args r) \<ge> sint required then Next (r\<lparr> extra_args := extra_args r - scast required \<rparr>) s
         else
           (let num_args = 1 + extra_args r
            in Alloc_small_gc (num_args + 2) Closure_tag r s
                 (\<lambda>block r s.
                    (let s = s\<lparr> mem := Field_set (mem s) block 1 (env r) \<rparr>;
                         s = s\<lparr> mem := copy_words (mem s) (block + 16) (sp r) (unat num_args) \<rparr>;
                         s = s\<lparr> mem := (mem s)(block := pc r - 12) \<rparr>
                     in return_to_caller (r\<lparr> accu := block, sp := sp r + 8 * num_args \<rparr>) s))))"

section \<open>Closures\<close>

definition CLOSURE :: instr where
  "CLOSURE r s =
     (let nvars = operand r s 0;
          build = (\<lambda>r s.
            Alloc_small_gc (scast (1 + nvars)) Closure_tag r s
              (\<lambda>block r s.
                 (let s = s\<lparr> mem := (mem s)(block := pc r + 4 * scast (operand r s 0)) \<rparr>;
                      s = s\<lparr> mem := copy_words (mem s) (block + 8) (sp r) (nat (sint nvars)) \<rparr>
                  in Next (r\<lparr> accu := block, pc := pc r + 4, sp := sp r + 8 * scast nvars \<rparr>) s)));
          r = r\<lparr> pc := pc r + 4 \<rparr>
      in if 0 < sint nvars then push_then build r s else build r s)"

text \<open>The loop over the functions after the first: infix header, code pointer, and the closure pushed on
  the stack.\<close>

fun closurerec_loop :: "u64 \<Rightarrow> u64 \<Rightarrow> nat \<Rightarrow> regs \<Rightarrow> vm \<Rightarrow> regs \<times> vm" where
  "closurerec_loop i p 0 r s = (r, s)"
| "closurerec_loop i p (Suc n) r s =
     (let h = (mem s)(p := Make_header (i * 2) Infix_tag Caml_white);
          h = h(p + 8 := pc r + 4 * scast (operand r s i));
          h = h(sp r - 8 := p + 8)
      in closurerec_loop (i + 1) (p + 16) n (r\<lparr> sp := sp r - 8 \<rparr>) (s\<lparr> mem := h \<rparr>))"

definition CLOSUREREC :: instr where
  "CLOSUREREC r s =
     (let nfuncs = operand r s 0;
          nvars = operand r s 1;
          build = (\<lambda>r s.
            Alloc_small_gc (scast (nfuncs * 2 - 1 + nvars)) Closure_tag r s
              (\<lambda>block r s.
                 (let h = copy_words (mem s) (block + 8 * scast (nfuncs * 2 - 1)) (sp r) (nat (sint nvars));
                      r = r\<lparr> accu := block, sp := sp r + 8 * scast nvars - 8 \<rparr>;
                      h = h(block := pc r + 4 * scast (operand r s 0));
                      h = h(sp r := block);
                      (r, s) = closurerec_loop 1 (block + 8) (nat (sint nfuncs) - 1) r (s\<lparr> mem := h \<rparr>)
                  in Next (r\<lparr> pc := pc r + 4 * scast nfuncs \<rparr>) s)));
          r = r\<lparr> pc := pc r + 8 \<rparr>
      in if 0 < sint nvars then push_then build r s else build r s)"

definition OFFSETCLOSURE :: "u64 \<Rightarrow> instr" where "OFFSETCLOSURE n r s = Next (r\<lparr> accu := env r + n * 8 \<rparr>) s"

definition OFFSETCLOSURE_op :: instr where
  "OFFSETCLOSURE_op r s = Next (r\<lparr> accu := env r + scast (operand r s 0) * 8, pc := pc r + 4 \<rparr>) s"

section \<open>Globals\<close>

definition GETGLOBAL :: instr where
  "GETGLOBAL r s = Next (r\<lparr> accu := Field (mem s) (global_data s) (scast (operand r s 0)), pc := pc r + 4 \<rparr>) s"

definition GETGLOBALFIELD :: instr where
  "GETGLOBALFIELD r s =
     Next (r\<lparr> accu := Field (mem s) (Field (mem s) (global_data s) (scast (operand r s 0))) (scast (operand r s 1)),
              pc := pc r + 8 \<rparr>) s"

definition SETGLOBAL :: "libc \<Rightarrow> instr" where
  "SETGLOBAL lib r s =
     finishing (caml_modify lib (global_data s + 8 * scast (operand r s 0)) (accu r) s)
       (Next (r\<lparr> accu := Val_unit, pc := pc r + 4 \<rparr>))"

section \<open>Blocks\<close>

definition ATOM0 :: instr where "ATOM0 r s = Next (r\<lparr> accu := Atom 0 s \<rparr>) s"

definition ATOM :: instr where "ATOM r s = Next (r\<lparr> accu := Atom (operand r s 0) s, pc := pc r + 4 \<rparr>) s"

fun initialize_from_stack :: "libc \<Rightarrow> u64 \<Rightarrow> u64 \<Rightarrow> nat \<Rightarrow> vm \<Rightarrow> vm outcome" where
  "initialize_from_stack lib p src 0 s = Value s"
| "initialize_from_stack lib p src (Suc n) s =
     and_then (caml_initialize lib p (mem s src) s) (initialize_from_stack lib (p + 8) (src + 8) n)"

definition MAKEBLOCK :: "libc \<Rightarrow> instr" where
  "MAKEBLOCK lib r s =
     (let wosize = scast (operand r s 0) :: mlsize_t;
          tag = operand r s 1;
          n = unat wosize - 1;
          r = r\<lparr> pc := pc r + 8 \<rparr>
      in if wosize \<le> Max_young_wosize then
           Alloc_small_gc wosize tag r s
             (\<lambda>block r s.
                Next (r\<lparr> accu := block, sp := sp r + 8 * of_nat n \<rparr>)
                  (s\<lparr> mem := copy_words ((mem s)(block := accu r)) (block + 8) (sp r) n \<rparr>))
         else
           finishing (caml_alloc_shr lib wosize tag s)
             (\<lambda>(s, block).
                finishing (and_then (caml_initialize lib block (accu r) s) (initialize_from_stack lib (block + 8) (sp r) n))
                  (Next (r\<lparr> accu := block, sp := sp r + 8 * of_nat n \<rparr>))))"

definition MAKEBLOCKn :: "nat \<Rightarrow> instr" where
  "MAKEBLOCKn n r s =
     (let tag = operand r s 0;
          r = r\<lparr> pc := pc r + 4 \<rparr>
      in Alloc_small_gc (of_nat n) tag r s
           (\<lambda>block r s.
              Next (r\<lparr> accu := block, sp := sp r + 8 * of_nat (n - 1) \<rparr>)
                (s\<lparr> mem := copy_words ((mem s)(block := accu r)) (block + 8) (sp r) (n - 1) \<rparr>)))"

fun unbox_words :: "heap \<Rightarrow> u64 \<Rightarrow> u64 \<Rightarrow> nat \<Rightarrow> heap" where
  "unbox_words h dst src 0 = h"
| "unbox_words h dst src (Suc n) = unbox_words (h(dst := h (h src))) (dst + 8) (src + 8) n"

definition MAKEFLOATBLOCK :: "libc \<Rightarrow> instr" where
  "MAKEFLOATBLOCK lib r s =
     (let sz = scast (operand r s 0) :: mlsize_t;
          n = unat sz - 1;
          r = r\<lparr> pc := pc r + 4 \<rparr>;
          fill = (\<lambda>block r s.
            Next (r\<lparr> accu := block, sp := sp r + 8 * of_nat n \<rparr>)
              (s\<lparr> mem := unbox_words ((mem s)(block := mem s (accu r))) (block + 8) (sp r) n \<rparr>))
      in if sz \<le> Max_young_wosize div Double_wosize then
           Alloc_small_gc (sz * Double_wosize) Double_array_tag r s fill
         else finishing (caml_alloc_shr lib (sz * Double_wosize) Double_array_tag s) (\<lambda>(s, block). fill block r s))"

definition GETFIELD :: "u64 \<Rightarrow> instr" where "GETFIELD n r s = Next (r\<lparr> accu := Field (mem s) (accu r) n \<rparr>) s"

definition GETFIELD_op :: instr where
  "GETFIELD_op r s = Next (r\<lparr> accu := Field (mem s) (accu r) (scast (operand r s 0)), pc := pc r + 4 \<rparr>) s"

definition GETFLOATFIELD :: instr where
  "GETFLOATFIELD r s =
     (let d = Field (mem s) (accu r) (scast (operand r s 0))
      in Alloc_small_gc Double_wosize Double_tag r s
           (\<lambda>block r s. Next (r\<lparr> accu := block, pc := pc r + 4 \<rparr>) (s\<lparr> mem := (mem s)(block := d) \<rparr>)))"

definition modify :: "libc \<Rightarrow> u64 \<Rightarrow> value_t \<Rightarrow> instr" where
  "modify lib modify_dest modify_newval r s =
     finishing (caml_modify lib modify_dest modify_newval s) (Next (r\<lparr> accu := Val_unit \<rparr>))"

definition SETFIELD :: "u64 \<Rightarrow> libc \<Rightarrow> instr" where
  "SETFIELD n lib r s = modify lib (accu r + 8 * n) (stack r s 0) (r\<lparr> sp := sp r + 8 \<rparr>) s"

definition SETFIELD_op :: "libc \<Rightarrow> instr" where
  "SETFIELD_op lib r s =
     modify lib (accu r + 8 * scast (operand r s 0)) (stack r s 0) (r\<lparr> sp := sp r + 8, pc := pc r + 4 \<rparr>) s"

definition SETFLOATFIELD :: instr where
  "SETFLOATFIELD r s =
     Next (r\<lparr> accu := Val_unit, sp := sp r + 8, pc := pc r + 4 \<rparr>)
       (s\<lparr> mem := Field_set (mem s) (accu r) (scast (operand r s 0)) (mem s (stack r s 0)) \<rparr>)"

definition VECTLENGTH :: instr where
  "VECTLENGTH r s =
     (let sz = Wosize_val (mem s) (accu r);
          sz = (if Tag_val (mem s) (accu r) = Double_array_tag then sz div Double_wosize else sz)
      in Next (r\<lparr> accu := Val_long sz \<rparr>) s)"

definition GETVECTITEM :: instr where
  "GETVECTITEM r s = Next (r\<lparr> accu := Field (mem s) (accu r) (Long_val (stack r s 0)), sp := sp r + 8 \<rparr>) s"

definition SETVECTITEM :: "libc \<Rightarrow> instr" where
  "SETVECTITEM lib r s =
     modify lib (accu r + 8 * Long_val (stack r s 0)) (stack r s 1) (r\<lparr> sp := sp r + 16 \<rparr>) s"

definition GETSTRINGCHAR :: instr where
  "GETSTRINGCHAR r s =
     Next (r\<lparr> accu := Val_int (ucast (Byte_u (mem s) (accu r) (Long_val (stack r s 0)))), sp := sp r + 8 \<rparr>) s"

definition SETSTRINGCHAR :: instr where
  "SETSTRINGCHAR r s =
     Next (r\<lparr> accu := Val_unit, sp := sp r + 16 \<rparr>)
       (s\<lparr> mem := Byte_u_set (mem s) (accu r) (Long_val (stack r s 0)) (ucast (Int_val (stack r s 1))) \<rparr>)"

section \<open>Branches\<close>

definition BRANCH :: instr where "BRANCH r s = Next (r\<lparr> pc := pc r + 4 * scast (operand r s 0) \<rparr>) s"

definition branch_if :: "bool \<Rightarrow> instr" where "branch_if b r s = (if b then BRANCH r s else Next (r\<lparr> pc := pc r + 4 \<rparr>) s)"

definition BRANCHIF :: instr where "BRANCHIF r = branch_if (accu r \<noteq> Val_false) r"

definition BRANCHIFNOT :: instr where "BRANCHIFNOT r = branch_if (accu r = Val_false) r"

definition SWITCH :: instr where
  "SWITCH r s =
     (let sizes = operand r s 0;
          r = r\<lparr> pc := pc r + 4 \<rparr>;
          index = (if Is_block (accu r) then ucast (sizes AND 0xFFFF) + ucast (Tag_val (mem s) (accu r))
                   else Long_val (accu r))
      in Next (r\<lparr> pc := pc r + 4 * scast (operand r s index) \<rparr>) s)"

definition BOOLNOT :: instr where "BOOLNOT r s = Next (r\<lparr> accu := Val_not (accu r) \<rparr>) s"

section \<open>Exceptions\<close>

definition PUSHTRAP :: instr where
  "PUSHTRAP r s =
     Next (r\<lparr> sp := sp r - 32, pc := pc r + 4 \<rparr>)
       (s\<lparr> mem := store_words (mem s) (sp r - 32)
                    [pc r + 4 * scast (operand r s 0), trapsp s, env r, Val_long (extra_args r)],
           trapsp := sp r - 32 \<rparr>)"

definition POPTRAP :: instr where
  "POPTRAP r s =
     (if something_to_do s then process_signal (r\<lparr> pc := pc r - 4 \<rparr>) s
      else Next (r\<lparr> sp := sp r + 32 \<rparr>) (s\<lparr> trapsp := Trap_link (mem s) (sp r) \<rparr>))"

definition RAISE :: instr where "RAISE = raise_exception"

section \<open>C primitives\<close>

definition after_c_call :: "u64 \<Rightarrow> regs \<Rightarrow> reply \<Rightarrow> step" where
  "after_c_call popped r reply =
     (case reply of
        Returns v s \<Rightarrow>
          (let r = Restore_after_c_call (r\<lparr> accu := v \<rparr>) s
           in Next (r\<lparr> sp := sp r + 8 * popped, pc := pc r + 4 \<rparr>) s)
      | Raises s \<Rightarrow> external_raised r s)"

definition C_CALL :: "nat \<Rightarrow> instr" where
  "C_CALL n r s =
     (let (r, s) = Setup_for_c_call r s
      in Ask (Primitive (operand r s 0) (accu r # map (\<lambda>i. stack r s (of_nat i)) [1..<n])) s
           (after_c_call (of_nat n - 1) r))"

definition C_CALLN :: instr where
  "C_CALLN r s =
     (let nargs = operand r s 0;
          call = (\<lambda>r s. let (r, s) = Setup_for_c_call r s
                        in Ask (PrimitiveN (operand r s 0) (sp r + 8) nargs) s (after_c_call (scast nargs) r))
      in push_then call (r\<lparr> pc := pc r + 4 \<rparr>) s)"

section \<open>Integers\<close>

definition CONSTn :: "cint \<Rightarrow> instr" where "CONSTn n r s = Next (r\<lparr> accu := Val_int n \<rparr>) s"

definition CONSTINT :: instr where "CONSTINT r s = Next (r\<lparr> accu := Val_int (operand r s 0), pc := pc r + 4 \<rparr>) s"

definition NEGINT :: instr where "NEGINT r s = Next (r\<lparr> accu := 2 - accu r \<rparr>) s"

definition binary :: "(value_t \<Rightarrow> value_t \<Rightarrow> value_t) \<Rightarrow> instr" where
  "binary f r s = Next (r\<lparr> accu := f (accu r) (stack r s 0), sp := sp r + 8 \<rparr>) s"

definition ADDINT :: instr where "ADDINT = binary (\<lambda>a b. a + b - 1)"
definition SUBINT :: instr where "SUBINT = binary (\<lambda>a b. a - b + 1)"
definition MULINT :: instr where "MULINT = binary (\<lambda>a b. Val_long (Long_val a * Long_val b))"

definition divide :: "(intnat \<Rightarrow> intnat \<Rightarrow> intnat) \<Rightarrow> instr" where
  "divide f r s =
     (let divisor = Long_val (stack r s 0);
          r = r\<lparr> sp := sp r + 8 \<rparr>
      in if divisor = 0 then (let (r, s) = Setup_for_c_call r s in caml_raise_zero_divide r s)
         else Next (r\<lparr> accu := Val_long (f (Long_val (accu r)) divisor) \<rparr>) s)"

definition DIVINT :: instr where "DIVINT = divide (\<lambda>a b. word_of_int (sint a sdiv sint b))"
definition MODINT :: instr where "MODINT = divide (\<lambda>a b. word_of_int (sint a smod sint b))"

definition ANDINT :: instr where "ANDINT = binary (\<lambda>a b. a AND b)"
definition ORINT :: instr where "ORINT = binary (\<lambda>a b. a OR b)"
definition XORINT :: instr where "XORINT = binary (\<lambda>a b. (a XOR b) OR 1)"

text \<open>C gives no meaning to a shift by a negative amount or by the width of the word and more.\<close>

definition shift :: "(nat \<Rightarrow> value_t \<Rightarrow> value_t) \<Rightarrow> instr" where
  "shift f r s =
     (let n = Long_val (stack r s 0)
      in if n < 64 then Next (r\<lparr> accu := f (unat n) (accu r), sp := sp r + 8 \<rparr>) s else Undefined)"

definition LSLINT :: instr where "LSLINT = shift (\<lambda>n a. push_bit n (a - 1) + 1)"
definition LSRINT :: instr where "LSRINT = shift (\<lambda>n a. drop_bit n (a - 1) OR 1)"
definition ASRINT :: instr where "ASRINT = shift (\<lambda>n a. signed_drop_bit n (a - 1) OR 1)"

definition Integer_comparison :: "(value_t \<Rightarrow> value_t \<Rightarrow> bool) \<Rightarrow> instr" where
  "Integer_comparison tst = binary (\<lambda>a b. Val_int (if tst a b then 1 else 0))"

definition Integer_branch_comparison :: "(intnat \<Rightarrow> intnat \<Rightarrow> bool) \<Rightarrow> instr" where
  "Integer_branch_comparison tst r s =
     branch_if (tst (scast (operand r s 0)) (Long_val (accu r))) (r\<lparr> pc := pc r + 4 \<rparr>) s"

definition OFFSETINT :: instr where
  "OFFSETINT r s = Next (r\<lparr> accu := accu r + scast (push_bit 1 (operand r s 0)), pc := pc r + 4 \<rparr>) s"

definition OFFSETREF :: instr where
  "OFFSETREF r s =
     Next (r\<lparr> accu := Val_unit, pc := pc r + 4 \<rparr>)
       (s\<lparr> mem := (mem s)(accu r := mem s (accu r) + scast (push_bit 1 (operand r s 0))) \<rparr>)"

definition ISINT :: instr where "ISINT r s = Next (r\<lparr> accu := Val_long (accu r AND 1) \<rparr>) s"

section \<open>Objects\<close>

definition Lookup :: "heap \<Rightarrow> value_t \<Rightarrow> value_t \<Rightarrow> value_t" where
  "Lookup h obj lab = Field h (Field h obj 0) (scast (Int_val lab))"

definition GETMETHOD :: instr where "GETMETHOD r s = Next (r\<lparr> accu := Lookup (mem s) (stack r s 0) (accu r) \<rparr>) s"

partial_function (option) method_search :: "heap \<Rightarrow> value_t \<Rightarrow> value_t \<Rightarrow> cint \<Rightarrow> cint \<Rightarrow> cint option" where
  "method_search h meths tag li hi =
     (if sint li < sint hi then
        let mi = signed_drop_bit 1 (li + hi) OR 1
        in if sint tag < sint (Field h meths (scast mi)) then method_search h meths tag li (mi - 2)
           else method_search h meths tag mi hi
      else Some li)"

declare method_search.simps [code]

definition GETPUBMET :: instr where
  "GETPUBMET =
     (\<lambda>r s.
        (let meths = Field (mem s) (accu r) 0
         in push_then
              (\<lambda>r s.
                 (let r = r\<lparr> accu := Val_int (operand r s 0), pc := pc r + 4 \<rparr>;
                      ofs = scast (operand r s 0) AND Field (mem s) meths 1
                  in if mem s (meths + 24 + ofs) = accu r then
                       Next (r\<lparr> accu := mem s (meths + 16 + ofs), pc := pc r + 4 \<rparr>) s
                     else
                       (case method_search (mem s) meths (accu r) 3 (ucast (Field (mem s) meths 0)) of
                          None \<Rightarrow> Diverges
                        | Some li \<Rightarrow>
                            Next (r\<lparr> accu := Field (mem s) meths (scast (li - 1)), pc := pc r + 4 \<rparr>)
                              (s\<lparr> code := (code s)(pc r := ucast (scast (li - 3) * 8 :: u64)) \<rparr>))))
              r s))"

definition GETDYNMET :: instr where
  "GETDYNMET r s =
     (let meths = Field (mem s) (stack r s 0) 0
      in case method_search (mem s) meths (accu r) 3 (ucast (Field (mem s) meths 0)) of
           None \<Rightarrow> Diverges
         | Some li \<Rightarrow> Next (r\<lparr> accu := Field (mem s) meths (scast (li - 1)) \<rparr>) s)"

section \<open>Machine control\<close>

definition STOP :: instr where
  "STOP r s =
     Return (accu r)
       (s\<lparr> external_raise := initial_external_raise r, extern_sp := sp r, callback_depth := callback_depth s - 1 \<rparr>)"

definition Restart_curr_instr :: instr where
  "Restart_curr_instr r s = Dispatch (ucast (saved_code s (signed_drop_bit 2 (pc r - 4 - start_code s)))) r s"

definition BREAK :: "event_kind \<Rightarrow> instr" where
  "BREAK ev r s =
     (let (r, s) = Setup_for_debugger r s
      in Tell (Caml_debugger ev) s (Restart_curr_instr (Restore_after_debugger r)))"

definition EVENT :: instr where
  "EVENT r s =
     (let s = s\<lparr> event_count := event_count s - 1 \<rparr>
      in if event_count s = 0 then BREAK EVENT_COUNT r s else Restart_curr_instr r s)"

section \<open>Dispatch and execution\<close>

definition jumptable :: "libc \<Rightarrow> instr list" where
  "jumptable lib =
     [ACC 0, ACC 1, ACC 2, ACC 3, ACC 4, ACC 5, ACC 6, ACC 7,
      ACC_op, PUSH,
      PUSH, push_then (ACC 1), push_then (ACC 2), push_then (ACC 3),
      push_then (ACC 4), push_then (ACC 5), push_then (ACC 6), push_then (ACC 7),
      push_then ACC_op, POP, ASSIGN,
      ENVACC 1, ENVACC 2, ENVACC 3, ENVACC 4, ENVACC_op,
      push_then (ENVACC 1), push_then (ENVACC 2), push_then (ENVACC 3), push_then (ENVACC 4), push_then ENVACC_op,
      PUSH_RETADDR, APPLY lib, APPLYn 1 lib, APPLYn 2 lib, APPLYn 3 lib,
      APPTERM lib, APPTERMn 1 lib, APPTERMn 2 lib, APPTERMn 3 lib,
      RETURN, RESTART, GRAB,
      CLOSURE, CLOSUREREC,
      OFFSETCLOSURE (- 2), OFFSETCLOSURE 0, OFFSETCLOSURE 2, OFFSETCLOSURE_op,
      push_then (OFFSETCLOSURE (- 2)), push_then (OFFSETCLOSURE 0),
      push_then (OFFSETCLOSURE 2), push_then OFFSETCLOSURE_op,
      GETGLOBAL, push_then GETGLOBAL, GETGLOBALFIELD, push_then GETGLOBALFIELD, SETGLOBAL lib,
      ATOM0, ATOM, push_then ATOM0, push_then ATOM,
      MAKEBLOCK lib, MAKEBLOCKn 1, MAKEBLOCKn 2, MAKEBLOCKn 3, MAKEFLOATBLOCK lib,
      GETFIELD 0, GETFIELD 1, GETFIELD 2, GETFIELD 3, GETFIELD_op, GETFLOATFIELD,
      SETFIELD 0 lib, SETFIELD 1 lib, SETFIELD 2 lib, SETFIELD 3 lib, SETFIELD_op lib, SETFLOATFIELD,
      VECTLENGTH, GETVECTITEM, SETVECTITEM lib,
      GETSTRINGCHAR, SETSTRINGCHAR,
      BRANCH, BRANCHIF, BRANCHIFNOT, SWITCH, BOOLNOT,
      PUSHTRAP, POPTRAP, RAISE, CHECK_SIGNALS,
      C_CALL 1, C_CALL 2, C_CALL 3, C_CALL 4, C_CALL 5, C_CALLN,
      CONSTn 0, CONSTn 1, CONSTn 2, CONSTn 3, CONSTINT,
      push_then (CONSTn 0), push_then (CONSTn 1), push_then (CONSTn 2), push_then (CONSTn 3), push_then CONSTINT,
      NEGINT, ADDINT, SUBINT, MULINT, DIVINT, MODINT,
      ANDINT, ORINT, XORINT, LSLINT, LSRINT, ASRINT,
      Integer_comparison (=), Integer_comparison (\<noteq>),
      Integer_comparison (\<lambda>a b. sint a < sint b), Integer_comparison (\<lambda>a b. sint a \<le> sint b),
      Integer_comparison (\<lambda>a b. sint a > sint b), Integer_comparison (\<lambda>a b. sint a \<ge> sint b),
      OFFSETINT, OFFSETREF, ISINT,
      GETMETHOD,
      Integer_branch_comparison (=), Integer_branch_comparison (\<noteq>),
      Integer_branch_comparison (\<lambda>a b. sint a < sint b), Integer_branch_comparison (\<lambda>a b. sint a \<le> sint b),
      Integer_branch_comparison (\<lambda>a b. sint a > sint b), Integer_branch_comparison (\<lambda>a b. sint a \<ge> sint b),
      Integer_comparison (<), Integer_comparison (\<ge>),
      Integer_branch_comparison (<), Integer_branch_comparison (\<ge>),
      GETPUBMET, GETDYNMET,
      STOP,
      EVENT, BREAK BREAKPOINT]"

definition dispatch_instr :: "libc \<Rightarrow> cint \<Rightarrow> instr" where
  "dispatch_instr lib curr_instr =
     (if unat curr_instr < length (jumptable lib) then jumptable lib ! unat curr_instr
      else (\<lambda>r s. Fails (Fatal_error ''Fatal error: bad opcode'')))"

definition fetch :: "libc \<Rightarrow> instr" where
  "fetch lib r s = dispatch_instr lib (operand r s 0) (r\<lparr> pc := pc r + 4 \<rparr>) s"

text \<open>The entry of \<open>caml_interprete\<close>; \<open>raise_buf\<close> is the address of its local jump buffer.\<close>

definition caml_interprete :: "u64 \<Rightarrow> u64 \<Rightarrow> vm \<Rightarrow> step" where
  "caml_interprete raise_buf prog s =
     (if prog = 0 then Return Val_unit s
      else
        Next \<lparr> pc = prog, sp = extern_sp s, accu = Val_int 0, env = Atom 0 s, extra_args = 0, saved_pc = 0,
               initial_sp_offset = ucast (stack_high s - extern_sp s), initial_local_roots = local_roots s,
               initial_external_raise = external_raise s \<rparr>
          (s\<lparr> callback_depth := callback_depth s + 1, external_raise := raise_buf \<rparr>))"

text \<open>Execution, where \<open>answers\<close> relates a request and the state it is made in to the replies the
  environment may give, and \<open>informs\<close> does so for the calls that cannot raise.\<close>

inductive exec ::
  "(request \<Rightarrow> vm \<Rightarrow> reply \<Rightarrow> bool) \<Rightarrow> (notice \<Rightarrow> vm \<Rightarrow> vm \<Rightarrow> bool) \<Rightarrow> libc \<Rightarrow> step \<Rightarrow> step \<Rightarrow> bool"
  for answers informs lib where
  exec_fetch: "exec answers informs lib (Next r s) (fetch lib r s)"
| exec_dispatch: "exec answers informs lib (Dispatch op r s) (dispatch_instr lib op r s)"
| exec_ask: "answers q s reply \<Longrightarrow> exec answers informs lib (Ask q s k) (k reply)"
| exec_tell: "informs n s s' \<Longrightarrow> exec answers informs lib (Tell n s k) (k s')"

inductive_simps exec_simps:
  "exec answers informs lib (Next r s) x"
  "exec answers informs lib (Return v s) x"
  "exec answers informs lib (Fails e) x"

end
