(* ===== verification/Interp_Props.thy ===== *)
theory Interp_Props
  imports Interp
begin

text \<open>
  Correctness of the bytecode interpreter: arithmetic on tagged integers, calls and returns,
  exception handlers.
\<close>

section \<open>Integers\<close>

lemma jumptable_length: "length (jumptable lib) = 146"
  by (simp add: jumptable_def)

lemma dispatch_nth: "n < 146 \<Longrightarrow> dispatch_instr lib (of_nat n) = jumptable lib ! n"
  by (simp add: dispatch_instr_def jumptable_length unat_of_nat)

lemma jumptable_arith:
  "jumptable lib ! 110 = ADDINT" "jumptable lib ! 111 = SUBINT" "jumptable lib ! 112 = MULINT"
  "jumptable lib ! 113 = DIVINT" "jumptable lib ! 114 = MODINT" "jumptable lib ! 115 = ANDINT"
  "jumptable lib ! 116 = ORINT" "jumptable lib ! 117 = XORINT" "jumptable lib ! 118 = LSLINT"
  "jumptable lib ! 119 = LSRINT" "jumptable lib ! 120 = ASRINT"
  by (simp_all add: jumptable_def)

lemma Val_long_int: "Val_long (word_of_int z) = word_of_int (2 * z + 1)"
  by (simp add: Val_long_def push_bit_eq_mult mult.commute)

lemma Long_val_int:
  assumes "- (2 ^ 62) \<le> z" "z < 2 ^ 62"
  shows "Long_val (Val_long (word_of_int z)) = word_of_int z" "sint (word_of_int z :: intnat) = z"
proof -
  show z: "sint (word_of_int z :: intnat) = z"
    using assms by (simp add: signed_of_int signed_take_bit_int_eq_self)
  show "Long_val (Val_long (word_of_int z)) = word_of_int z"
    by (rule Long_val_Val_long) (use assms z in \<open>simp_all add: Long_limits\<close>)
qed
lemma bit_odd_int: "bit (2 * a + 1 :: int) n \<longleftrightarrow> n = 0 \<or> bit a (n - 1)"
  by (cases n) (simp_all add: bit_0 bit_Suc)

lemma odd_bits:
  "(2 * a + 1) AND (2 * b + 1) = 2 * (a AND b) + (1 :: int)"
  "(2 * a + 1) OR (2 * b + 1) = 2 * (a OR b) + (1 :: int)"
  "((2 * a + 1) XOR (2 * b + 1)) OR 1 = 2 * (a XOR b) + (1 :: int)"
  by (auto simp: bit_eq_iff bit_odd_int bit_and_iff bit_or_iff bit_xor_iff bit_1_iff)

definition int_operations :: "(nat \<times> (int \<Rightarrow> int \<Rightarrow> int)) list" where
  "int_operations =
     [(110, (+)), (111, (-)), (112, (*)), (113, (sdiv)), (114, (smod)),
      (115, (AND)), (116, (OR)), (117, (XOR)),
      (118, \<lambda>a b. a * 2 ^ nat b), (119, \<lambda>a b. (a mod 2 ^ 63) div 2 ^ nat b), (120, \<lambda>a b. a div 2 ^ nat b)]"

lemma fetch_nth: "code s (pc r) = of_nat n \<Longrightarrow> n < 146 \<Longrightarrow> fetch lib r s = (jumptable lib ! n) (r\<lparr> pc := pc r + 4 \<rparr>) s"
  by (simp add: fetch_def operand_def dispatch_nth)

lemma or_1_int: "x OR 1 = 2 * (x div 2) + (1 :: int)"
  by (simp add: or_one_eq)

lemma div_2_pow: "2 * m div 2 ^ n div 2 = m div (2 :: int) ^ n"
proof -
  have "2 * m div 2 ^ n div 2 = 2 * m div (2 ^ n * 2)" by (rule zdiv_zmult2_eq [symmetric]) simp
  then show ?thesis by (simp add: mult.commute)
qed

lemma word_of_int_bits:
  "word_of_int x AND word_of_int y = (word_of_int (x AND y) :: u64)"
  "word_of_int x OR word_of_int y = (word_of_int (x OR y) :: u64)"
  "word_of_int x XOR word_of_int y = (word_of_int (x XOR y) :: u64)"
  by (simp_all add: of_int_and_eq of_int_or_eq of_int_xor_eq)

lemma word_of_int_or_1: "word_of_int x OR 1 = (word_of_int (2 * (x div 2) + 1) :: u64)"
  unfolding or_1_int [symmetric] word_of_int_bits(2) [symmetric] of_int_1 ..

lemma drop_bit_int: "drop_bit n w = word_of_int (drop_bit n (uint (w :: u64)))"
  by transfer simp

lemma signed_drop_bit_int: "signed_drop_bit n w = word_of_int (drop_bit n (sint (w :: u64)))"
  by transfer (simp add: take_bit_signed_take_bit)

lemma shift_right_odd:
  "signed_drop_bit n (word_of_int (2 * a + 1) - 1) OR 1 = Val_long (word_of_int (a div 2 ^ n))"
  if "- (2 ^ 62) \<le> a" "a < 2 ^ 62"
proof -
  let ?w = "word_of_int (2 * a) :: u64"
  have w: "word_of_int (2 * a + 1) - 1 = ?w" by simp
  have s: "sint ?w = 2 * a"
    using that by (simp only: signed_of_int) (simp add: signed_take_bit_int_eq_self)
  have "signed_drop_bit n ?w = word_of_int (2 * a div 2 ^ n)"
    unfolding signed_drop_bit_int s drop_bit_eq_div ..
  then show ?thesis
    unfolding w Val_long_int by (simp only: word_of_int_or_1 div_2_pow)
qed

lemma logical_shift_odd:
  "drop_bit n (word_of_int (2 * a + 1) - 1) OR 1 = Val_long (word_of_int (a mod 2 ^ 63 div 2 ^ n))"
proof -
  let ?w = "word_of_int (2 * a) :: u64"
  have w: "word_of_int (2 * a + 1) - 1 = ?w" by simp
  have u: "uint ?w = 2 * (a mod 2 ^ 63)"
    using mult_mod_right [of 2 a "2 ^ 63"] by (simp only: unsigned_of_int) (simp add: take_bit_eq_mod)
  have "drop_bit n ?w = word_of_int (2 * (a mod 2 ^ 63) div 2 ^ n)"
    unfolding drop_bit_int u drop_bit_eq_div ..
  then show ?thesis
    unfolding w Val_long_int by (simp only: word_of_int_or_1 div_2_pow)
qed

lemmas integer_instruction_defs =
  ADDINT_def SUBINT_def MULINT_def DIVINT_def MODINT_def ANDINT_def ORINT_def XORINT_def LSLINT_def LSRINT_def ASRINT_def


lemma Val_long_bits:
  "Val_long (word_of_int a) AND Val_long (word_of_int b) = Val_long (word_of_int (a AND b))"
  "Val_long (word_of_int a) OR Val_long (word_of_int b) = Val_long (word_of_int (a OR b))"
  "(Val_long (word_of_int a) XOR Val_long (word_of_int b)) OR 1 = Val_long (word_of_int (a XOR b))"
  unfolding Val_long_int word_of_int_bits word_of_int_bits(2) [where y = 1, unfolded of_int_1] odd_bits
  by (rule refl)+

lemma integer_instruction:
  assumes "(op, f) \<in> set int_operations" "accu r = Val_long (word_of_int a)" "stack r s 0 = Val_long (word_of_int b)"
    and "- (2 ^ 62) \<le> a" "a < 2 ^ 62" "- (2 ^ 62) \<le> b" "b < 2 ^ 62"
    and "op \<in> {113, 114} \<longrightarrow> b \<noteq> 0" "op \<in> {118, 119, 120} \<longrightarrow> 0 \<le> b \<and> b < 64"
  shows "(jumptable lib ! op) r s = Next (r\<lparr> accu := Val_long (word_of_int (f a b)), sp := sp r + 8 \<rparr>) s"
proof -
  note l = Long_val_int [OF assms(4,5)] Long_val_int [OF assms(6,7)]
  consider "op \<in> {110, 111, 112}" | "op \<in> {113, 114}" | "op \<in> {115, 116, 117}" | "op \<in> {118, 119, 120}"
    using assms(1) by (auto simp: int_operations_def)
  then show ?thesis
  proof cases
    case 1
    then show ?thesis using assms(1-3) l(1,3)
      by (auto simp: int_operations_def jumptable_arith integer_instruction_defs binary_def Val_long_def
          push_bit_eq_mult algebra_simps)
  next
    case 2
    have "(word_of_int b :: u64) = 0 \<longleftrightarrow> b = 0" using l(4) by (metis of_int_0 signed_0)
    with 2 show ?thesis using assms(1-3,8) l
      by (auto simp: int_operations_def jumptable_arith integer_instruction_defs divide_def)
  next
    case 3
    then show ?thesis using assms(1-3)
      by (auto simp: int_operations_def jumptable_arith integer_instruction_defs binary_def Val_long_bits)
  next
    case 4
    then have b: "0 \<le> b" "b < 64" using assms(9) by blast+
    have w: "(word_of_int b :: u64) < 64" "unat (word_of_int b :: u64) = nat b"
      using b by (simp_all add: word_less_def unsigned_of_int take_bit_int_eq_self flip: nat_uint_eq)
    have y: "push_bit (nat b) (Val_long (word_of_int a) - 1) + 1 = Val_long (word_of_int (a * 2 ^ nat b))"
      by (simp add: Val_long_def push_bit_eq_mult algebra_simps)
    note x = logical_shift_odd [of "nat b" a] shift_right_odd [OF assms(4,5), of "nat b"]
    from 4 show ?thesis using assms(1-3) l(3) w
      by (auto simp: int_operations_def jumptable_arith integer_instruction_defs shift_def x [folded Val_long_int] y
          simp del: of_int_div of_int_mult of_int_power)
  qed
qed

text \<open>C24: The arithmetic, logical and shift instructions compute, on tagged integers and dispatched by their
  opcode, the integer operation they stand for, wrapped to 63 bits; shifts are by 0 to 63 places and divisions by
  a non-zero integer, truncating towards zero.\<close>

theorem integer_instructions:
  assumes "(op, f) \<in> set int_operations" "code s (pc r) = of_nat op"
    and "accu r = Val_long (word_of_int a)" "stack r s 0 = Val_long (word_of_int b)"
    and "- (2 ^ 62) \<le> a" "a < 2 ^ 62" "- (2 ^ 62) \<le> b" "b < 2 ^ 62"
    and "op \<in> {113, 114} \<longrightarrow> b \<noteq> 0" "op \<in> {118, 119, 120} \<longrightarrow> 0 \<le> b \<and> b < 64"
  shows "fetch lib r s =
    Next (r\<lparr> pc := pc r + 4, accu := Val_long (word_of_int (f a b)), sp := sp r + 8 \<rparr>) s"
proof -
  have "op < 146" using assms(1) by (auto simp: int_operations_def)
  moreover have "stack (r\<lparr> pc := pc r + 4 \<rparr>) s 0 = Val_long (word_of_int b)" using assms(4) by (simp add: stack_def)
  ultimately show ?thesis
    using fetch_nth [OF assms(2)] integer_instruction [OF assms(1) _ _ assms(5-10), of "r\<lparr> pc := pc r + 4 \<rparr>"] assms(3)
    by simp
qed

definition int_comparisons :: "(nat \<times> (int \<Rightarrow> int \<Rightarrow> bool)) list" where
  "int_comparisons = [(121, (=)), (122, (\<noteq>)), (123, (<)), (124, (\<le>)), (125, (>)), (126, (\<ge>))]"

lemma jumptable_comparisons:
  "jumptable lib ! 121 = Integer_comparison (=)" "jumptable lib ! 122 = Integer_comparison (\<noteq>)"
  "jumptable lib ! 123 = Integer_comparison (\<lambda>a b. sint a < sint b)"
  "jumptable lib ! 124 = Integer_comparison (\<lambda>a b. sint a \<le> sint b)"
  "jumptable lib ! 125 = Integer_comparison (\<lambda>a b. sint a > sint b)"
  "jumptable lib ! 126 = Integer_comparison (\<lambda>a b. sint a \<ge> sint b)"
  "jumptable lib ! 131 = Integer_branch_comparison (=)" "jumptable lib ! 132 = Integer_branch_comparison (\<noteq>)"
  "jumptable lib ! 133 = Integer_branch_comparison (\<lambda>a b. sint a < sint b)"
  "jumptable lib ! 134 = Integer_branch_comparison (\<lambda>a b. sint a \<le> sint b)"
  "jumptable lib ! 135 = Integer_branch_comparison (\<lambda>a b. sint a > sint b)"
  "jumptable lib ! 136 = Integer_branch_comparison (\<lambda>a b. sint a \<ge> sint b)"
  by (simp_all add: jumptable_def)

lemma Val_long_compare:
  assumes "- (2 ^ 62) \<le> a" "a < 2 ^ 62"
  shows "sint (Val_long (word_of_int a)) = 2 * a + 1"
  unfolding Val_long_int using assms by (simp only: signed_of_int) (simp add: signed_take_bit_int_eq_self)

lemma integer_comparisons:
  assumes "(op, R) \<in> set int_comparisons" "code s (pc r) = of_nat op"
    and "accu r = Val_long (word_of_int a)" "stack r s 0 = Val_long (word_of_int b)"
    and "- (2 ^ 62) \<le> a" "a < 2 ^ 62" "- (2 ^ 62) \<le> b" "b < 2 ^ 62"
  shows "fetch lib r s = Next (r\<lparr> pc := pc r + 4, accu := Val_bool (R a b), sp := sp r + 8 \<rparr>) s"
proof -
  have "op < 146" using assms(1) by (auto simp: int_comparisons_def)
  note f = fetch_nth [OF assms(2) this]
  have "stack (r\<lparr> pc := pc r + 4 \<rparr>) s 0 = Val_long (word_of_int b)" using assms(4) by (simp add: stack_def)
  moreover have "Val_long (word_of_int a) = Val_long (word_of_int b) \<longleftrightarrow> a = b"
    using Val_long_compare [OF assms(5,6)] Val_long_compare [OF assms(7,8)] by (metis add_right_cancel mult_cancel_left zero_neq_numeral)
  ultimately show ?thesis
    using assms(1) unfolding f
    by (auto simp: int_comparisons_def jumptable_comparisons Integer_comparison_def binary_def Val_bool_def assms(3)
        Val_long_compare [OF assms(5,6)] Val_long_compare [OF assms(7,8)])
qed

text \<open>A conditional branch on an immediate integer goes to its target exactly when the comparison of the
  immediate with the integer in the accumulator holds, and else to the next instruction.\<close>

theorem integer_branches:
  assumes "(op, R) \<in> set int_comparisons" "code s (pc r) = of_nat (op + 10)"
    and "accu r = Val_long (word_of_int a)" "- (2 ^ 62) \<le> a" "a < 2 ^ 62"
  shows "fetch lib r s =
    Next (r\<lparr> pc := (if R (sint (code s (pc r + 4))) a then pc r + 8 + 4 * scast (code s (pc r + 8)) else pc r + 12) \<rparr>) s"
proof -
  have "op + 10 < 146" using assms(1) by (auto simp: int_comparisons_def)
  note f = fetch_nth [OF assms(2) this]
  note l = Long_val_int [OF assms(4,5)]
  have e: "scast (n :: cint) = (word_of_int a :: intnat) \<longleftrightarrow> sint n = a" for n
  proof
    assume "scast n = (word_of_int a :: intnat)"
    then show "sint n = a" using scast_int [of n] l(2) by argo
  qed (simp only: scast_eq)
  obtain tst where "jumptable lib ! (op + 10) = Integer_branch_comparison tst"
      "\<And>n. tst (scast (n :: cint)) (word_of_int a) \<longleftrightarrow> R (sint n) a"
    using assms(1) by (auto simp: int_comparisons_def jumptable_comparisons e l(2) scast_int)
  then show ?thesis
    unfolding f by (simp add: Integer_branch_comparison_def branch_if_def BRANCH_def operand_def assms(3) l(1) add.assoc)
qed

lemma word_offset_inj:
  assumes "i < 2 ^ 61" "j < 2 ^ 61" "a + 8 * of_nat i = a + 8 * (of_nat j :: u64)"
  shows "i = j"
proof -
  have "unat (8 * of_nat k :: u64) = 8 * k" if "k < 2 ^ 61" for k
    using that by (simp add: unat_word_ariths unat_of_nat)
  moreover have "(8 * of_nat i :: u64) = 8 * of_nat j" using assms(3) by simp
  ultimately show ?thesis using assms(1,2) by (metis mult_cancel1 zero_neq_numeral)
qed

lemma store_words_other:
  "(\<And>i. i < length ws \<Longrightarrow> x \<noteq> a + 8 * of_nat i) \<Longrightarrow> store_words h a ws x = h x"
proof (induction ws arbitrary: h a)
  case (Cons w ws)
  have "x \<noteq> (a + 8) + 8 * of_nat i" if "i < length ws" for i
    using Cons.prems [of "Suc i"] that by (simp add: algebra_simps)
  then have "store_words (h(a := w)) (a + 8) ws x = (h(a := w)) x" by (rule Cons.IH)
  moreover have "x \<noteq> a" using Cons.prems [of 0] by simp
  ultimately show ?case by simp
qed simp

lemma store_words_nth:
  "i < length ws \<Longrightarrow> length ws \<le> 2 ^ 61 \<Longrightarrow> store_words h a ws (a + 8 * of_nat i) = ws ! i"
proof (induction ws arbitrary: h a i)
  case (Cons w ws)
  show ?case
  proof (cases i)
    case 0
    have "a \<noteq> a + 8 + 8 * of_nat j" if "j < length ws" for j
      using word_offset_inj [of 0 "Suc j" a] that Cons.prems(2) by (auto simp: algebra_simps)
    then have "store_words (h(a := w)) (a + 8) ws a = (h(a := w)) a" by (rule store_words_other)
    then show ?thesis using 0 by simp
  next
    case (Suc j)
    have "store_words (h(a := w)) (a + 8) ws (a + 8 + 8 * of_nat j) = ws ! j"
      by (rule Cons.IH) (use Suc Cons.prems in simp_all)
    then show ?thesis using Suc by (simp add: algebra_simps)
  qed
qed simp

lemma word_block_store:
  "length ws \<le> 2 ^ 61 \<Longrightarrow> word_block (store_words h a ws) a (length ws) = ws"
  unfolding word_block_def by (rule nth_equalityI) (simp_all add: store_words_nth)

lemma word_block_4: "word_block h a 4 = [h a, h (a + 8), h (a + 16), h (a + 24)]"
  by (simp add: word_block_def upt_rec numeral_eq_Suc)

lemma word_block_nth: "i < n \<Longrightarrow> word_block h a n ! i = h (a + 8 * of_nat i)" "length (word_block h a n) = n"
  by (simp_all add: word_block_def)

lemma Long_val_extra: "sint Min_long \<le> sint x \<Longrightarrow> sint x \<le> sint Max_long \<Longrightarrow> Long_val (Val_long x) = x"
  by (rule Long_val_Val_long)

text \<open>C8: An exception handler pushed by \<open>PUSHTRAP\<close> is entered by a later \<open>RAISE\<close> with the stack pointer,
  environment, argument count and enclosing handler it was pushed with, provided its frame is still intact and on top;
  \<open>POPTRAP\<close> removes it.\<close>

theorem trap_handler:
  assumes "PUSHTRAP r s = Next r1 s1" "sint Min_long \<le> sint (extra_args r)" "sint (extra_args r) \<le> sint Max_long"
    and "trapsp s2 = trapsp s1" "word_block (mem s2) (trapsp s1) 4 = word_block (mem s1) (trapsp s1) 4"
    and "trapsp s2 < trap_barrier s2" "\<not> backtrace_active s2"
      "trapsp s2 < stack_high s2 - scast (initial_sp_offset r2)"
  shows "RAISE r2 s2 =
      Next (r2\<lparr> pc := pc r + 4 * scast (operand r s 0), sp := sp r, env := env r, extra_args := extra_args r \<rparr>)
        (s2\<lparr> trapsp := trapsp s \<rparr>) \<and>
    (sp r2 = trapsp s2 \<longrightarrow> \<not> something_to_do s2 \<longrightarrow>
      POPTRAP r2 s2 = Next (r2\<lparr> sp := sp r \<rparr>) (s2\<lparr> trapsp := trapsp s \<rparr>))"
proof -
  have t: "trapsp s1 = sp r - 32" and m: "mem s1 = store_words (mem s) (sp r - 32)
      [pc r + 4 * scast (operand r s 0), trapsp s, env r, Val_long (extra_args r)]"
    using assms(1) by (auto simp: PUSHTRAP_def)
  have w: "mem s2 (sp r - 32) = pc r + 4 * scast (operand r s 0)" "mem s2 (sp r - 24) = trapsp s"
      "mem s2 (sp r - 16) = env r" "mem s2 (sp r - 8) = Val_long (extra_args r)"
    using assms(5) by (simp_all add: t m word_block_4)
  note l = Long_val_extra [OF assms(2,3)]
  have "RAISE r2 s2 =
      Next (r2\<lparr> pc := pc r + 4 * scast (operand r s 0), sp := sp r, env := env r, extra_args := extra_args r \<rparr>)
        (s2\<lparr> trapsp := trapsp s \<rparr>)"
    using assms(4,6-8) t w l
    by (simp add: RAISE_def raise_exception_def unwind_def Let_def Trap_pc_def Trap_link_def stack_def not_le)
  then show ?thesis using assms(4) t w(2) by (simp add: POPTRAP_def Trap_link_def)
qed

text \<open>C37: Dividing by zero enters the current handler with a fresh block that holds the exception
  \<open>Division_by_zero\<close> of the program.\<close>

theorem division_by_zero:
  assumes "I \<in> {DIVINT, MODINT}" "stack r s 0 = Val_long 0" "p = young_ptr s - 16" "young_limit s \<le> p"
    and "external_raise s \<noteq> 0" "trapsp s < trap_barrier s" "\<not> backtrace_active s"
      "trapsp s < stack_high s - scast (initial_sp_offset r)"
    and "\<forall>a \<in> {trapsp s, trapsp s + 8, trapsp s + 16, trapsp s + 24}. a \<notin> {sp r, p, p + 8}"
    and "global_data s + 8 * ZERO_DIVIDE_EXN \<noteq> sp r"
  shows "\<exists>s'. I r s =
      Next (r\<lparr> pc := Trap_pc (mem s) (trapsp s), sp := trapsp s + 32, env := mem s (trapsp s + 16),
               extra_args := Long_val (mem s (trapsp s + 24)), accu := p + 8, saved_pc := 0 \<rparr>) s' \<and>
    trapsp s' = Trap_link (mem s) (trapsp s) \<and>
    Hd_val (mem s') (p + 8) = Make_header 1 0 Caml_black \<and>
    Field (mem s') (p + 8) 0 = Field (mem s) (global_data s) ZERO_DIVIDE_EXN"
proof -
  have z: "Long_val (Val_long 0) = 0" by (simp add: Long_val_def Val_long_def)
  have b: "Bhsize_wosize 1 = 16" by (simp add: Bhsize_wosize_def Bsize_wsize_def Whsize_wosize_def)
  show ?thesis
    using assms
    by (auto simp: DIVINT_def MODINT_def divide_def z Setup_for_c_call_def caml_raise_zero_divide_def
        caml_raise_constant_def Let_def b not_less caml_raise_def external_raised_def raise_exception_def unwind_def
        not_le Trap_pc_def Trap_link_def stack_def Field_def Field_set_def Hd_val_def)
qed

lemma word_block_store_part:
  assumes "i + n \<le> length ws" "length ws \<le> 2 ^ 61"
  shows "word_block (store_words h a ws) (a + 8 * of_nat i) n = take n (drop i ws)"
proof (rule nth_equalityI)
  fix j assume "j < length (word_block (store_words h a ws) (a + 8 * of_nat i) n)"
  then have j: "j < n" by (simp add: word_block_def)
  have "a + 8 * of_nat i + 8 * of_nat j = a + 8 * of_nat (i + j)" by (simp add: algebra_simps)
  then show "word_block (store_words h a ws) (a + 8 * of_nat i) n ! j = take n (drop i ws) ! j"
    using j assms store_words_nth [of "i + j" ws h a] by (simp add: word_block_def add.assoc)
qed (use assms in \<open>simp add: word_block_def\<close>)

lemma word_block_3: "word_block h a 3 = [h a, h (a + 8), h (a + 16)]"
  by (simp add: word_block_def upt_rec numeral_eq_Suc)

lemma check_stacks_room: "stack_threshold s \<le> sp r \<Longrightarrow> \<not> something_to_do s \<Longrightarrow> check_stacks lib r s = Next r s"
  by (auto simp: check_stacks_def CHECK_SIGNALS_def)

text \<open>C7: A call of a closure with one to three arguments passes the arguments in order, and the \<open>RETURN\<close> that
  finds the frame of the call intact comes back behind the call with its environment and argument count, the
  arguments popped.\<close>

theorem apply_return:
  assumes "1 \<le> n" "n \<le> 3" "stack_threshold s \<le> sp r - 24" "\<not> something_to_do s"
    and "sint Min_long \<le> sint (extra_args r)" "sint (extra_args r) \<le> sint Max_long"
    and "\<forall>i < n + 3. accu r \<noteq> sp r - 24 + 8 * of_nat i" "ret = sp r - 24 + 8 * of_nat n"
  shows "\<exists>s1. APPLYn n lib r s =
      Next (r\<lparr> sp := sp r - 24, pc := Code_val (mem s) (accu r), env := accu r, extra_args := of_nat n - 1 \<rparr>) s1 \<and>
    word_block (mem s1) (sp r - 24) n = word_block (mem s) (sp r) n \<and>
    (\<forall>r2 s2. sp r2 + 8 * scast (operand r2 s2 0) = ret \<longrightarrow> extra_args r2 = 0 \<longrightarrow>
       word_block (mem s2) ret 3 = word_block (mem s1) ret 3 \<longrightarrow>
       RETURN r2 s2 =
         Next (r2\<lparr> pc := pc r, env := env r, extra_args := extra_args r, sp := sp r + 8 * of_nat n \<rparr>) s2)"
proof -
  let ?frame = "[pc r, env r, Val_long (extra_args r)]" and ?args = "word_block (mem s) (sp r) n"
  define s1 where "s1 = s\<lparr> mem := store_words (mem s) (sp r - 24) (?args @ ?frame) \<rparr>"
  have len: "length ?args = n" by (simp add: word_block_def)
  have "mem s1 (accu r) = mem s (accu r)"
    unfolding s1_def using store_words_other [of "?args @ ?frame" "accu r" "sp r - 24" "mem s"] assms(7) by (simp add: len)
  then have "APPLYn n lib r s =
      Next (r\<lparr> sp := sp r - 24, pc := Code_val (mem s) (accu r), env := accu r, extra_args := of_nat n - 1 \<rparr>) s1"
    using assms(3,4) by (simp add: APPLYn_def Let_def check_stacks_room Code_val_def s1_def)
  moreover have "word_block (mem s1) (sp r - 24) n = ?args"
    using word_block_store_part [of 0 n "?args @ ?frame"] assms(2) by (simp add: s1_def len)
  moreover have "word_block (mem s1) ret 3 = ?frame"
    using word_block_store_part [of n 3 "?args @ ?frame"] assms(2) by (simp add: s1_def len assms(8))
  moreover have "RETURN r2 s2 = Next (r2\<lparr> pc := pc r, env := env r, extra_args := extra_args r, sp := sp r + 8 * of_nat n \<rparr>) s2"
    if a: "sp r2 + 8 * scast (operand r2 s2 0) = ret" "extra_args r2 = 0" "word_block (mem s2) ret 3 = ?frame" for r2 s2
    using a assms(8) Long_val_extra [OF assms(5,6)]
    by (simp add: RETURN_def Let_def return_to_caller_def stack_def word_block_3)
  ultimately show ?thesis by auto
qed

section \<open>Tail calls\<close>

lemma copy_words_down_other:
  "(\<And>i. i < n \<Longrightarrow> x \<noteq> dst + 8 * of_nat i) \<Longrightarrow> copy_words_down h dst src n x = h x"
  by (induction n arbitrary: h) auto

lemma copy_words_down_nth:
  "i < n \<Longrightarrow> d + n \<le> 2 ^ 61 \<Longrightarrow>
   copy_words_down h (src + 8 * of_nat d) src n (src + 8 * of_nat d + 8 * of_nat i) = h (src + 8 * of_nat i)"
proof (induction n arbitrary: h)
  case (Suc n)
  let ?dst = "src + 8 * of_nat d"
  let ?h = "h(?dst + 8 * of_nat n := h (src + 8 * of_nat n))"
  show ?case
  proof (cases "i = n")
    case True
    have "?dst + 8 * of_nat n \<noteq> ?dst + 8 * of_nat j" if "j < n" for j
      using word_offset_inj [of n j ?dst] that Suc.prems by auto
    then have "copy_words_down ?h ?dst src n (?dst + 8 * of_nat n) = ?h (?dst + 8 * of_nat n)"
      by (rule copy_words_down_other)
    then show ?thesis using True by simp
  next
    case False
    have "copy_words_down ?h ?dst src n (?dst + 8 * of_nat i) = ?h (src + 8 * of_nat i)"
      by (rule Suc.IH) (use False Suc.prems in simp_all)
    moreover have "src + 8 * of_nat i \<noteq> ?dst + 8 * of_nat n"
      using word_offset_inj [of i "d + n" src] False Suc.prems by (auto simp: algebra_simps)
    ultimately show ?thesis by simp
  qed
qed simp

lemma word_block_copy_down:
  "d + n \<le> 2 ^ 61 \<Longrightarrow>
   word_block (copy_words_down h (src + 8 * of_nat d) src n) (src + 8 * of_nat d) n = word_block h src n"
  unfolding word_block_def by (simp add: copy_words_down_nth)

lemma scast_of_nat: "(scast (n :: cint) :: u64) = of_nat (nat (sint n))" if "0 \<le> sint n"
  using that by simp

text \<open>C23: A tail call moves its arguments to the top of the frame it replaces, in order even where source and
  destination overlap, and changes no other word.\<close>

theorem appterm_slides:
  assumes "0 \<le> sint (operand r s 0)" "sint (operand r s 0) \<le> sint (operand r s 1)"
    and "n = nat (sint (operand r s 0))" "newsp = sp r + 8 * of_nat (nat (sint (operand r s 1)) - n)"
    and "stack_threshold s \<le> newsp" "\<not> something_to_do s" "\<forall>i < n. accu r \<noteq> newsp + 8 * of_nat i"
  shows "\<exists>s1. APPTERM lib r s =
      Next (r\<lparr> sp := newsp, pc := Code_val (mem s) (accu r), env := accu r,
               extra_args := extra_args r + (of_nat n - 1) \<rparr>) s1 \<and>
    word_block (mem s1) newsp n = word_block (mem s) (sp r) n \<and>
    (\<forall>a. (\<forall>i < n. a \<noteq> newsp + 8 * of_nat i) \<longrightarrow> mem s1 a = mem s a)"
proof -
  let ?d = "nat (sint (operand r s 1)) - n"
  define s1 where "s1 = s\<lparr> mem := copy_words_down (mem s) newsp (sp r) n \<rparr>"
  have lt: "sint (operand r s 1) < 2 ^ 31" using sint_lt [of "operand r s 1"] by simp
  have ops: "scast (operand r s 0) = (of_nat n :: u64)" "(scast (operand r s 1) :: u64) = of_nat ?d + of_nat n"
    using scast_of_nat [OF assms(1)] scast_of_nat [of "operand r s 1"] assms(1-3) by (simp_all flip: of_nat_add)
  have "sint (operand r s 0 - 1) = sint (operand r s 0) - 1" using assms(1) lt assms(2)
    by (simp add: sint_word_ariths signed_take_bit_int_eq_self)
  then have one: "(scast (operand r s 0 - 1) :: u64) = of_nat n - 1"
    using assms(1,3) by (simp add: scast_eq del: of_int_sint)
  have "sp r + 8 * scast (operand r s 1) - 8 * scast (operand r s 0) = newsp"
    unfolding ops by (simp add: assms(4) algebra_simps)
  moreover have o: "mem s1 a = mem s a" if "\<forall>i < n. a \<noteq> newsp + 8 * of_nat i" for a
    unfolding s1_def using copy_words_down_other [of n a newsp] that by simp
  ultimately have "APPTERM lib r s =
      Next (r\<lparr> sp := newsp, pc := Code_val (mem s) (accu r), env := accu r,
               extra_args := extra_args r + (of_nat n - 1) \<rparr>) s1"
    using assms(5-7) by (simp add: APPTERM_def Let_def check_stacks_room Code_val_def s1_def one assms(3))
  moreover have "word_block (mem s1) newsp n = word_block (mem s) (sp r) n"
    unfolding s1_def assms(4) using word_block_copy_down [of ?d n "mem s" "sp r"] lt assms(1-3) by simp
  ultimately show ?thesis using o by blast
qed

section \<open>Partial application\<close>

lemma word_block_Suc: "word_block h a (Suc n) = h a # word_block h (a + 8) n"
  by (simp add: word_block_def upt_conv_Cons map_Suc_upt [symmetric] algebra_simps del: upt_Suc)

lemma word_block_cong: "(\<And>i. i < n \<Longrightarrow> h (a + 8 * of_nat i) = h' (a + 8 * of_nat i)) \<Longrightarrow> word_block h a n = word_block h' a n"
  by (simp add: word_block_def)

lemma copy_words_store:
  "(\<And>i j. i < n \<Longrightarrow> j < n \<Longrightarrow> dst + 8 * of_nat i \<noteq> src + 8 * of_nat j) \<Longrightarrow>
   copy_words h dst src n = store_words h dst (word_block h src n)"
proof (induction n arbitrary: h dst src)
  case (Suc n)
  let ?h = "h(dst := h src)"
  have "(dst + 8) + 8 * of_nat i \<noteq> (src + 8) + 8 * of_nat j" if "i < n" "j < n" for i j
    using Suc.prems [of "Suc i" "Suc j"] that by (simp add: algebra_simps)
  then have "copy_words ?h (dst + 8) (src + 8) n = store_words ?h (dst + 8) (word_block ?h (src + 8) n)"
    by (rule Suc.IH)
  moreover have "word_block ?h (src + 8) n = word_block h (src + 8) n"
  proof (rule word_block_cong)
    fix j assume "j < n"
    then show "?h (src + 8 + 8 * of_nat j) = h (src + 8 + 8 * of_nat j)"
      using Suc.prems [of 0 "Suc j"] by (auto simp: algebra_simps)
  qed
  ultimately show ?case by (simp add: word_block_Suc)
qed (simp add: word_block_def)

lemma closure_contents:
  fixes h :: heap and hdr e c p q :: u64
  assumes "n < 2 ^ 60" "\<And>i j. i < n + 3 \<Longrightarrow> j < n + 3 \<Longrightarrow> p + 8 * of_nat i \<noteq> q + 8 * of_nat j"
  defines "h1 \<equiv> h(p := hdr, p + 16 := e)"
  defines "h2 \<equiv> (copy_words h1 (p + 24) q n)(p + 8 := c)"
  shows "word_block h2 p 3 = [hdr, c, e]" "word_block h2 (p + 24) n = word_block h q n"
    and "j < n + 3 \<Longrightarrow> h2 (q + 8 * of_nat j) = h (q + 8 * of_nat j)"
proof -
  have pq: "q + 8 * of_nat j \<noteq> p" "q + 8 * of_nat j \<noteq> p + 8" "q + 8 * of_nat j \<noteq> p + 16" if "j < n + 3" for j
    using assms(2) [of 0 j] assms(2) [of 1 j] assms(2) [of 2 j] that by auto
  have src: "word_block h1 q n = word_block h q n"
    by (rule word_block_cong) (use pq in \<open>auto simp: h1_def\<close>)
  have "(p + 24) + 8 * of_nat i \<noteq> q + 8 * of_nat j" if "i < n" "j < n + 3" for i j
    using assms(2) [of "i + 3" j] that by (simp add: algebra_simps)
  note d = this
  have h2: "h2 = (store_words h1 (p + 24) (word_block h q n))(p + 8 := c)"
    unfolding h2_def by (subst copy_words_store) (use d src in auto)
  have len: "length (word_block h q n) = n" by (simp add: word_block_def)
  have low: "store_words h1 (p + 24) (word_block h q n) (p + 8 * of_nat k) = h1 (p + 8 * of_nat k)" if "k < 3" for k
  proof (rule store_words_other)
    fix i assume "i < length (word_block h q n)"
    then show "p + 8 * of_nat k \<noteq> p + 24 + 8 * of_nat i"
      using word_offset_inj [of k "i + 3" p] that assms(1) by (auto simp: len algebra_simps)
  qed
  show "word_block h2 p 3 = [hdr, c, e]"
    using low [of 0] low [of 1] low [of 2] by (simp add: h2 h1_def word_block_3)
  have "word_block h2 (p + 24) n = word_block (store_words h1 (p + 24) (word_block h q n)) (p + 24) n"
  proof (rule word_block_cong)
    fix i assume "i < n"
    then have "p + 24 + 8 * of_nat i \<noteq> p + 8"
      using word_offset_inj [of "i + 3" 1 p] assms(1) by (auto simp: algebra_simps)
    then show "h2 (p + 24 + 8 * of_nat i) = store_words h1 (p + 24) (word_block h q n) (p + 24 + 8 * of_nat i)"
      by (simp add: h2)
  qed
  then show "word_block h2 (p + 24) n = word_block h q n"
    using word_block_store [of "word_block h q n" h1 "p + 24"] assms(1) by (simp add: len)
  assume j: "j < n + 3"
  have "store_words h1 (p + 24) (word_block h q n) (q + 8 * of_nat j) = h1 (q + 8 * of_nat j)"
    by (rule store_words_other) (metis d j len)
  then show "h2 (q + 8 * of_nat j) = h (q + 8 * of_nat j)" using pq [OF j] by (auto simp: h2 h1_def)
qed

lemma Alloc_small_gc_room:
  "young_limit s \<le> young_ptr s - Bhsize_wosize w \<Longrightarrow>
   Alloc_small_gc w tag r s k = (let s = take_young w tag s in k (young_ptr s + 8) r s)"
  by (auto simp: Alloc_small_gc_def)

lemma closure_size:
  assumes "n < 2 ^ 31"
  shows "Wosize_hd (Make_header (of_nat n + 2) Closure_tag Caml_black) = of_nat n + 2"
    "nat (sint (of_nat n :: cint)) = n" "(scast (of_nat n :: cint) :: u64) = of_nat n"
    "(ucast (of_nat n :: u64) :: cint) = of_nat n"
    "Tag_hd (Make_header (of_nat n + 2) Closure_tag Caml_black) = Closure_tag"
proof -
  have "of_nat n + 2 \<le> Max_wosize"
    using assms by (simp add: Max_wosize_def word_le_nat_alt unat_word_ariths unat_of_nat)
  then show "Wosize_hd (Make_header (of_nat n + 2) Closure_tag Caml_black) = of_nat n + 2"
    "Tag_hd (Make_header (of_nat n + 2) Closure_tag Caml_black) = Closure_tag"
    by (simp_all add: header_fields Closure_tag_def)
  have s: "sint (of_nat n :: cint) = int n"
    using assms by (simp add: signed_of_nat) (rule signed_take_bit_int_eq_self, simp_all)
  then show "nat (sint (of_nat n :: cint)) = n" "(scast (of_nat n :: cint) :: u64) = of_nat n"
    using scast_of_nat [of "of_nat n :: cint"] by simp_all
  show "(ucast (of_nat n :: u64) :: cint) = of_nat n"
    using assms by (simp add: ucast_eq unsigned_of_nat take_bit_eq_mod)
qed

lemma restart_pushes:
  assumes "env r = c" "Wosize_val (mem s) c = of_nat n + 2" "n < 2 ^ 31"
    and "\<And>i j. i < n + 2 \<Longrightarrow> j < n \<Longrightarrow> c + 8 * of_nat i \<noteq> sp r - 8 * of_nat n + 8 * of_nat j"
  shows "\<exists>s'. RESTART r s =
      Next (r\<lparr> sp := sp r - 8 * of_nat n, env := Field (mem s) c 1, extra_args := extra_args r + of_nat n \<rparr>) s' \<and>
    word_block (mem s') (sp r - 8 * of_nat n) n = word_block (mem s) (c + 16) n"
proof -
  let ?q = "sp r - 8 * of_nat n"
  define s' where "s' = s\<lparr> mem := store_words (mem s) ?q (word_block (mem s) (c + 16) n) \<rparr>"
  have "?q + 8 * of_nat i \<noteq> c + 16 + 8 * of_nat j" if "i < n" "j < n" for i j
    using assms(4) [of "j + 2" i] that by (auto simp: algebra_simps)
  then have cp: "copy_words (mem s) ?q (c + 16) n = store_words (mem s) ?q (word_block (mem s) (c + 16) n)"
    by (rule copy_words_store)
  have "store_words (mem s) ?q (word_block (mem s) (c + 16) n) (c + 8) = mem s (c + 8)"
    by (rule store_words_other) (use assms(4) [of 1] in \<open>auto simp: word_block_def\<close>)
  then have "RESTART r s =
      Next (r\<lparr> sp := ?q, env := Field (mem s) c 1, extra_args := extra_args r + of_nat n \<rparr>) s'"
    using assms(1,2) closure_size [OF assms(3)] by (simp add: RESTART_def Let_def s'_def cp Field_def)
  moreover have "word_block (mem s') ?q n = word_block (mem s) (c + 16) n"
    using word_block_store [of "word_block (mem s) (c + 16) n" "mem s" ?q] assms(3)
    by (simp add: s'_def word_block_nth(2))
  ultimately show ?thesis by blast
qed

lemma restart_closure:
  assumes "n < 2 ^ 31" "mem s p = Make_header (of_nat n + 2) Closure_tag Caml_black" "env r = p + 8"
    and "\<forall>i < n + 2. \<forall>j < n. p + 8 + 8 * of_nat i \<noteq> sp r - 8 * of_nat n + 8 * of_nat j"
  shows "\<exists>s'. RESTART r s =
      Next (r\<lparr> sp := sp r - 8 * of_nat n, env := mem s (p + 16), extra_args := extra_args r + of_nat n \<rparr>) s' \<and>
    word_block (mem s') (sp r - 8 * of_nat n) n = word_block (mem s) (p + 24) n"
proof -
  have "Wosize_val (mem s) (p + 8) = of_nat n + 2"
    using assms(2) closure_size(1) [of n] assms(1) by (simp add: Wosize_val_def Hd_val_def)
  then show ?thesis
    using restart_pushes [where c = "p + 8" and r = r and s = s and n = n] assms(1,3,4) by (simp add: Field_def add.assoc)
qed

text \<open>C6: Applying a function to too few arguments gives a closure that, when it is applied later, puts
  the missing arguments back: \<open>GRAB\<close> saves them with the environment in a block whose code pointer is the
  \<open>RESTART\<close> before it and returns to the caller, and \<open>RESTART\<close>, run with that block as environment while its
  contents are unchanged, pushes the same arguments, restores the environment and counts them.\<close>

theorem partial_application:
  assumes "extra_args r = of_nat e" "int e < sint (operand r s 0)" "n = e + 1" "p = young_ptr s - 8 * of_nat (n + 3)"
    and "young_limit s \<le> p" "\<forall>i < n + 3. \<forall>j < n + 3. p + 8 * of_nat i \<noteq> sp r + 8 * of_nat j"
  shows "\<exists>s1. GRAB r s =
      Next (r\<lparr> pc := stack r s (of_nat n), env := stack r s (of_nat n + 1),
               extra_args := Long_val (stack r s (of_nat n + 2)), sp := sp r + 8 * of_nat n + 24, accu := p + 8 \<rparr>) s1 \<and>
    Tag_val (mem s1) (p + 8) = Closure_tag \<and> Code_val (mem s1) (p + 8) = pc r - 8 \<and>
    (\<forall>r2 s2. env r2 = p + 8 \<longrightarrow> word_block (mem s2) p (n + 3) = word_block (mem s1) p (n + 3) \<longrightarrow>
       (\<forall>i < n + 2. \<forall>j < n. p + 8 + 8 * of_nat i \<noteq> sp r2 - 8 * of_nat n + 8 * of_nat j) \<longrightarrow>
       (\<exists>s3. RESTART r2 s2 =
           Next (r2\<lparr> sp := sp r2 - 8 * of_nat n, env := env r, extra_args := extra_args r2 + of_nat n \<rparr>) s3 \<and>
         word_block (mem s3) (sp r2 - 8 * of_nat n) n = word_block (mem s) (sp r) n))"
proof -
  let ?hdr = "Make_header (of_nat n + 2) Closure_tag Caml_black"
  have e: "e + 1 < 2 ^ 31" using assms(2) sint_lt [of "operand r s 0"] by simp
  then have n: "n < 2 ^ 60" and n2: "n < 2 ^ 31" using assms(3) by simp_all
  have "sint (extra_args r) = int e" unfolding assms(1) using e sint_of_nat_small [of e] by simp
  then have short: "\<not> sint (extra_args r) \<ge> sint (operand r s 0)" using assms(2) by simp
  have num: "1 + extra_args r = of_nat n" "unat (of_nat n :: u64) = n"
    using assms(1,3) by simp (use n in \<open>simp add: unat_of_nat\<close>)
  have p: "young_ptr s - Bhsize_wosize (of_nat n + 2) = p"
    by (simp add: assms(4) Bhsize_wosize_def Bsize_wsize_def Whsize_wosize_def algebra_simps)
  define h2 where "h2 = (copy_words ((mem s)(p := ?hdr, p + 16 := env r)) (p + 24) (sp r) n)(p + 8 := pc r - 8)"
  note cc = closure_contents [where n = n and p = p and q = "sp r" and h = "mem s" and hdr = ?hdr and e = "env r" and c = "pc r - 8",
      folded h2_def, OF n assms(6) [rule_format]]
  define s1 where "s1 = s\<lparr> young_ptr := p, mem := h2 \<rparr>"
  have "GRAB r s = return_to_caller (r\<lparr> pc := pc r + 4, accu := p + 8, sp := sp r + 8 * of_nat n \<rparr>) s1"
    using short assms(5)
    by (simp add: GRAB_def Let_def num Alloc_small_gc_room p take_young_def s1_def h2_def Field_set_def add.assoc)
  moreover have "mem s1 (sp r + 8 * of_nat n + 8 * of_nat k) = mem s (sp r + 8 * of_nat n + 8 * of_nat k)" if "k < 3" for k
    using cc(3) [of "n + k"] that by (simp add: s1_def algebra_simps)
  note this [of 0] this [of 1] this [of 2]
  ultimately have grab: "GRAB r s =
      Next (r\<lparr> pc := stack r s (of_nat n), env := stack r s (of_nat n + 1),
               extra_args := Long_val (stack r s (of_nat n + 2)), sp := sp r + 8 * of_nat n + 24, accu := p + 8 \<rparr>) s1"
    by (simp add: return_to_caller_def stack_def algebra_simps)
  have hd: "mem s1 p = ?hdr" "mem s1 (p + 8) = pc r - 8" "mem s1 (p + 16) = env r"
    using cc(1) by (simp_all add: s1_def word_block_3)
  have again: "\<exists>s3. RESTART r2 s2 =
        Next (r2\<lparr> sp := sp r2 - 8 * of_nat n, env := env r, extra_args := extra_args r2 + of_nat n \<rparr>) s3 \<and>
      word_block (mem s3) (sp r2 - 8 * of_nat n) n = word_block (mem s) (sp r) n"
    if r2: "env r2 = p + 8" "word_block (mem s2) p (n + 3) = word_block (mem s1) p (n + 3)"
      "\<forall>i < n + 2. \<forall>j < n. p + 8 + 8 * of_nat i \<noteq> sp r2 - 8 * of_nat n + 8 * of_nat j" for r2 s2
  proof -
    have same: "mem s2 (p + 8 * of_nat i) = mem s1 (p + 8 * of_nat i)" if "i < n + 3" for i
      using r2(2) that by (metis word_block_nth(1))
    have "word_block (mem s2) (p + 24) n = word_block (mem s1) (p + 24) n"
      by (rule word_block_cong) (use same [of "_ + 3"] in \<open>simp add: algebra_simps\<close>)
    then show ?thesis
      using restart_closure [OF n2 _ r2(1,3), of s2] same [of 0] same [of 2] hd cc(2) by (simp add: s1_def)
  qed
  have "Tag_val (mem s1) (p + 8) = Closure_tag"
    using hd(1) closure_size(5) [OF n2] by (simp add: Tag_val_def Hd_val_def)
  then show ?thesis using grab hd(2) again by (simp add: Code_val_def)
qed

section \<open>Method lookup\<close>

text \<open>The tag of method \<open>k\<close> of a method table.\<close>

definition method_tag :: "heap \<Rightarrow> value_t \<Rightarrow> nat \<Rightarrow> int" where
  "method_tag h meths k = sint (Field h meths (of_nat (2 * k + 3)))"

lemma sint_cint_of_nat: "m < 2 ^ 31 \<Longrightarrow> sint (of_nat m :: cint) = int m"
  by (simp add: signed_of_nat) (rule signed_take_bit_int_eq_self, simp_all)

lemma method_index:
  assumes "a < b" "b < 2 ^ 28"
  defines "k \<equiv> (a + b + 1) div 2"
  shows "signed_drop_bit 1 (of_nat (2 * a + 3) + of_nat (2 * b + 3)) OR 1 = (of_nat (2 * k + 3) :: cint)"
    "sint (of_nat (2 * a + 3) :: cint) = int (2 * a + 3)" "(scast (of_nat (2 * a + 3) :: cint) :: u64) = of_nat (2 * a + 3)"
    "(of_nat (2 * k + 3) :: cint) - 2 = of_nat (2 * (k - 1) + 3)" "a < k" "k \<le> b"
proof -
  show k: "a < k" "k \<le> b" using assms(1) by (simp_all add: k_def)
  show a: "sint (of_nat (2 * a + 3) :: cint) = int (2 * a + 3)" by (rule sint_cint_of_nat) (use assms(1,2) in simp)
  show "(scast (of_nat (2 * a + 3) :: cint) :: u64) = of_nat (2 * a + 3)"
    by (rule closure_size(3)) (use assms(1,2) in simp)
  show "(of_nat (2 * k + 3) :: cint) - 2 = of_nat (2 * (k - 1) + 3)"
    using k(1) by (cases k) (simp_all add: algebra_simps)
  let ?w = "of_nat (2 * a + 3) + of_nat (2 * b + 3) :: cint"
  have "?w = of_nat (2 * (a + b + 3))" by simp
  then have "sint ?w = 2 * int (a + b + 3)" by (simp only:) (subst sint_cint_of_nat, use assms(1,2) in simp_all)
  then have "sint (signed_drop_bit 1 ?w) = int (a + b + 3)" by (simp add: sint_signed_drop_bit_eq drop_bit_eq_div)
  then have "signed_drop_bit 1 ?w = word_of_int (int (a + b + 3))" by (metis of_int_sint scast_id)
  then have "signed_drop_bit 1 ?w OR 1 = word_of_int (int (a + b + 3) OR 1)" by (simp add: of_int_or_eq)
  also have "int (a + b + 3) OR 1 = int (2 * k + 3)"
    unfolding or_1_int k_def by presburger
  finally show "signed_drop_bit 1 ?w OR 1 = of_nat (2 * k + 3)" by simp
qed

lemma method_search_finds:
  assumes "a \<le> b" "b < 2 ^ 28" "\<And>i j. a \<le> i \<Longrightarrow> i < j \<Longrightarrow> j \<le> b \<Longrightarrow> method_tag h meths i < method_tag h meths j"
    and "a \<le> m" "m \<le> b" "sint tag = method_tag h meths m"
  shows "method_search h meths tag (of_nat (2 * a + 3)) (of_nat (2 * b + 3)) = Some (of_nat (2 * m + 3))"
  using assms
proof (induction "b - a" arbitrary: a b rule: less_induct)
  case less
  have sb: "sint (of_nat (2 * x + 3) :: cint) = int (2 * x + 3)" if "x \<le> b" for x
    by (rule sint_cint_of_nat) (use that less.prems(2) in simp)
  show ?case
  proof (cases "a = b")
    case True
    then show ?thesis using less.prems(4,5) by (subst method_search.simps) simp
  next
    case False
    then have ab: "a < b" using less.prems(1) by simp
    define k where "k = (a + b + 1) div 2"
    note mi = method_index [OF ab less.prems(2), folded k_def]
    have step: "method_search h meths tag (of_nat (2 * a + 3)) (of_nat (2 * b + 3)) =
       (if sint tag < method_tag h meths k
        then method_search h meths tag (of_nat (2 * a + 3)) (of_nat (2 * (k - 1) + 3))
        else method_search h meths tag (of_nat (2 * k + 3)) (of_nat (2 * b + 3)))"
      using closure_size(3) [of "2 * k + 3"] sb [of a] sb [of b] mi(1,4-6) ab less.prems(2)
      by (subst method_search.simps) (simp add: method_tag_def Let_def)
    show ?thesis
    proof (cases "sint tag < method_tag h meths k")
      case True
      then have "m < k" using less.prems(3,6) mi(5,6) by (metis less.prems(4,5) linorder_not_less nless_le order_less_asym)
      then show ?thesis unfolding step using True mi(5,6) less.prems
        by (simp only: if_True) (rule less.hyps, auto)
    next
      case f: False
      then have "k \<le> m" using less.prems(3) [of m k] less.prems(4-6) mi(6) by (metis linorder_not_less)
      then show ?thesis unfolding step using f mi(5,6) less.prems
        by (simp only: if_False) (rule less.hyps, auto)
    qed
  qed
qed

lemma ucast_cint_of_nat: "(ucast (of_nat k :: u64) :: cint) = of_nat k"
  by transfer simp

lemma method_search_table:
  assumes "n \<le> 2 ^ 28" "m < n" "\<forall>j < n. \<forall>i < j. method_tag h meths i < method_tag h meths j" "sint tag = method_tag h meths m"
  shows "method_search h meths tag 3 (ucast (Val_long (of_nat n))) = Some (of_nat (2 * m + 3))"
proof -
  have "Val_long (of_nat n) = of_nat (2 * n + 1)" by (simp add: Val_long_def push_bit_eq_mult)
  moreover have "2 * n + 1 = 2 * (n - 1) + 3" using assms(2) by simp
  ultimately have u: "ucast (Val_long (of_nat n)) = (of_nat (2 * (n - 1) + 3) :: cint)"
    using closure_size(4) [of "2 * n + 1"] assms(1) by simp
  have "method_search h meths tag (of_nat (2 * 0 + 3)) (of_nat (2 * (n - 1) + 3)) = Some (of_nat (2 * m + 3))"
    by (rule method_search_finds) (use assms in auto)
  then show ?thesis unfolding u by simp
qed

lemma GETPUBMET_unfold:
  "GETPUBMET r s =
     (let meths = Field (mem s) (accu r) 0;
          h = (mem s)(sp r - 8 := accu r);
          ofs = scast (operand r s 1) AND Field h meths 1
      in if h (meths + 24 + ofs) = Val_int (operand r s 0)
         then Next (r\<lparr> accu := h (meths + 16 + ofs), pc := pc r + 8, sp := sp r - 8 \<rparr>) (s\<lparr> mem := h \<rparr>)
         else case method_search h meths (Val_int (operand r s 0)) 3 (ucast (Field h meths 0)) of
                None \<Rightarrow> Diverges
              | Some li \<Rightarrow>
                  Next (r\<lparr> accu := Field h meths (scast (li - 1)), pc := pc r + 8, sp := sp r - 8 \<rparr>)
                    (s\<lparr> mem := h, code := (code s)(pc r + 4 := ucast (scast (li - 3) * 8 :: u64)) \<rparr>))"
  by (simp add: GETPUBMET_def push_then_def Let_def operand_def split: option.split)

text \<open>C10: Looking up a public method in a table sorted by tag finds the method whose tag the instruction
  names, whether the cached position hits or not.  The masked cache may designate any entry of the table, or, left by
  another class, a position \<open>c\<close> beyond the public methods, as long as the word there is not the tag; the table is
  padded with methods there, which are blocks.  The search ends, and only the cache of the instruction is written.\<close>

theorem getpubmet_correct:
  assumes "Field (mem s) (accu r) 0 = meths" "n \<le> 2 ^ 28" "Field (mem s) meths 0 = Val_long (of_nat n)"
    and "\<forall>j < n. \<forall>i < j. method_tag (mem s) meths i < method_tag (mem s) meths j"
    and "m < n" "Field (mem s) meths (of_nat (2 * m + 3)) = Val_int (operand r s 0)"
    and "scast (operand r s 1) AND Field (mem s) meths 1 = 16 * of_nat c"
    and "n \<le> c \<longrightarrow> Field (mem s) meths (of_nat (2 * c + 3)) \<noteq> Val_int (operand r s 0) \<and> sp r - 8 \<noteq> meths + 8 * of_nat (2 * c + 3)"
    and "\<forall>i < 2 * n + 2. sp r - 8 \<noteq> meths + 8 * of_nat i"
  shows "\<exists>s'. GETPUBMET r s =
      Next (r\<lparr> accu := Field (mem s) meths (of_nat (2 * m + 2)), pc := pc r + 8, sp := sp r - 8 \<rparr>) s' \<and>
    mem s' = (mem s)(sp r - 8 := accu r) \<and>
    code s' = (code s)(pc r + 4 := (if c = m then operand r s 1 else of_nat (16 * m)))"
proof -
  define h where "h = (mem s)(sp r - 8 := accu r)"
  have f: "Field h meths (of_nat i) = Field (mem s) meths (of_nat i)" if "i < 2 * n + 2" for i
    using assms(9) that by (auto simp: h_def Field_def)
  have t: "method_tag h meths i = method_tag (mem s) meths i" if "i < n" for i
    using f [of "2 * i + 3"] that by (simp add: method_tag_def)
  have f0: "Field h meths 0 = Val_long (of_nat n)" "Field h meths 1 = Field (mem s) meths 1"
    using f [of 0] f [of 1] assms(3) by simp_all
  have cm: "mem s (meths + 24 + 16 * of_nat c) = Val_int (operand r s 0) \<longleftrightarrow> c = m"
  proof
    assume "mem s (meths + 24 + 16 * of_nat c) = Val_int (operand r s 0)"
    then have f: "Field (mem s) meths (of_nat (2 * c + 3)) = Val_int (operand r s 0)" by (simp add: Field_def algebra_simps)
    then have "c < n" using assms(8) by linarith
    moreover have "method_tag (mem s) meths c = method_tag (mem s) meths m" using f assms(6) by (simp add: method_tag_def)
    ultimately show "c = m" using assms(4,5) by (metis less_irrefl nat_neq_iff)
  qed (use assms(6) in \<open>simp add: Field_def algebra_simps\<close>)
  have hc: "h (meths + 24 + 16 * of_nat c) = mem s (meths + 24 + 16 * of_nat c)"
    using f [of "2 * c + 3"] assms(8) by (cases "c < n") (auto simp: h_def Field_def algebra_simps)
  have "sint (Val_int (operand r s 0)) = method_tag h meths m" using t [OF assms(5)] assms(6) by (simp only: method_tag_def)
  then have search: "method_search h meths (Val_int (operand r s 0)) 3 (ucast (Val_long (of_nat n))) = Some (of_nat (2 * m + 3))"
    using assms(4) t by (intro method_search_table [OF assms(2,5)]) auto
  have li: "(of_nat (2 * m + 3) :: cint) - 1 = of_nat (2 * m + 2)" "(of_nat (2 * m + 3) :: cint) - 3 = of_nat (2 * m)"
    by simp_all
  have m: "(scast (of_nat (2 * m + 2) :: cint) :: u64) = of_nat (2 * m + 2)" "(scast (of_nat (2 * m) :: cint) :: u64) = of_nat (2 * m)"
    by (rule closure_size(3), use assms(2,5) in simp)+
  have hm: "Field h meths (of_nat (2 * m + 2)) = Field (mem s) meths (of_nat (2 * m + 2))"
    by (rule f) (use assms(5) in simp)
  have c8: "ucast (of_nat (2 * m) * 8 :: u64) = (of_nat (16 * m) :: cint)"
    using ucast_cint_of_nat [of "16 * m"] by simp
  have r: "GETPUBMET r s =
      (if c = m then Next (r\<lparr> accu := Field (mem s) meths (of_nat (2 * m + 2)), pc := pc r + 8, sp := sp r - 8 \<rparr>) (s\<lparr> mem := h \<rparr>)
       else Next (r\<lparr> accu := Field (mem s) meths (of_nat (2 * m + 2)), pc := pc r + 8, sp := sp r - 8 \<rparr>)
        (s\<lparr> mem := h, code := (code s)(pc r + 4 := of_nat (16 * m)) \<rparr>))"
    unfolding GETPUBMET_unfold assms(1) h_def [symmetric] Let_def f0 assms(7) hc cm search option.case li m c8 hm
    using hm by (cases "c = m") (simp_all add: Field_def algebra_simps)
  show ?thesis
    unfolding r by (cases "c = m") (auto simp: h_def operand_def)
qed

end
