(* ===== verification/Stacks.thy ===== *)
theory Stacks
  imports Interp_Props
begin

text \<open>
  Correctness of the growth of the interpreter's stack (\<open>byterun/stacks.c\<close>): the trap frames are linked
  by absolute addresses, which \<open>caml_realloc_stack\<close> moves with the stack.
\<close>

section \<open>The chain of trap frames\<close>

text \<open>The frames of a stack of \<open>N\<close> words at \<open>base\<close>, as the increasing list of their word offsets ended by
  \<open>N\<close>; the link word of a frame holds the address of the next one relative to \<open>target\<close>.\<close>

fun trap_chain :: "heap \<Rightarrow> u64 \<Rightarrow> u64 \<Rightarrow> nat \<Rightarrow> nat list \<Rightarrow> bool" where
  "trap_chain h base target N [] \<longleftrightarrow> False"
| "trap_chain h base target N [n] \<longleftrightarrow> n = N"
| "trap_chain h base target N (t # u # ts) \<longleftrightarrow>
     t + 1 < u \<and> h (base + 8 * of_nat (t + 1)) = target + 8 * of_nat u \<and> trap_chain h base target N (u # ts)"

lemma trap_chain_bounds: "trap_chain h b g N ts \<Longrightarrow> x \<in> set ts \<Longrightarrow> hd ts \<le> x \<and> x \<le> N"
proof (induction h b g N ts arbitrary: x rule: trap_chain.induct)
  case (3 h b g N t u ts)
  have "t + 1 < u" "trap_chain h b g N (u # ts)" using "3.prems"(1) by simp_all
  then show ?case using "3.IH" [of u] "3.IH" [of x] "3.prems"(2) by auto
qed auto

lemma trap_chain_cong:
  "trap_chain h b g N ts \<Longrightarrow> (\<And>t. t \<in> set ts \<Longrightarrow> h' (b + 8 * of_nat (t + 1)) = h (b + 8 * of_nat (t + 1))) \<Longrightarrow>
   trap_chain h' b g N ts"
  by (induction h b g N ts rule: trap_chain.induct) auto

lemma offset_less:
  fixes a :: u64
  assumes "unat a + 8 * N < 2 ^ 64" "i \<le> N" "j \<le> N"
  shows "a + 8 * of_nat i < a + 8 * of_nat j \<longleftrightarrow> i < j"
proof -
  have "unat (a + 8 * of_nat k) = unat a + 8 * k" if "k \<le> N" for k
    using assms(1) that by (simp add: unat_word_ariths unat_of_nat)
  then show ?thesis using assms(2,3) by (simp add: word_less_nat_alt)
qed

lemma shift_trap_links_chain:
  assumes "trap_chain h q' q N ts" "unat q' + 8 * N < 2 ^ 64" "N < 2 ^ 60"
  shows "\<exists>h'. shift_trap_links (q' + 8 * of_nat N) (q' - q) (q' + 8 * of_nat (hd ts)) h = Some h' \<and>
    trap_chain h' q' q' N ts \<and> (\<forall>a. (\<forall>t \<in> set (butlast ts). a \<noteq> q' + 8 * of_nat (t + 1)) \<longrightarrow> h' a = h a)"
  using assms
proof (induction ts arbitrary: h rule: induct_list012)
  case (2 n)
  then show ?case by (subst shift_trap_links.simps) simp
next
  case (3 t u ts)
  let ?p = "q' + 8 * of_nat (t + 1)"
  define h1 where "h1 = h(?p := q' + 8 * of_nat u)"
  have b: "t + 1 < u" "u \<le> N" "h ?p = q + 8 * of_nat u" "trap_chain h q' q N (u # ts)"
    using "3.prems"(1) trap_chain_bounds [of h q' q N "u # ts" u] by auto
  have later: "?p \<noteq> q' + 8 * of_nat (x + 1)" if "x \<in> set (u # ts)" for x
    using word_offset_inj [of "t + 1" "x + 1" q'] trap_chain_bounds [OF b(4) that] b(1,2) "3.prems"(3) by auto
  have "trap_chain h1 q' q N (u # ts)"
    by (rule trap_chain_cong [OF b(4)]) (unfold h1_def, rule fun_upd_other, metis later)
  then obtain h' where h': "shift_trap_links (q' + 8 * of_nat N) (q' - q) (q' + 8 * of_nat u) h1 = Some h'"
      "trap_chain h' q' q' N (u # ts)" "\<forall>a. (\<forall>t \<in> set (butlast (u # ts)). a \<noteq> q' + 8 * of_nat (t + 1)) \<longrightarrow> h' a = h1 a"
    using "3.IH"(2) "3.prems"(2,3) by auto
  have "q' + 8 * of_nat t < q' + 8 * of_nat N"
    using offset_less [OF "3.prems"(2), of t N] b(1,2) by simp
  moreover have e: "q' + 8 * of_nat t + 8 = ?p" "q + 8 * of_nat u + (q' - q) = q' + 8 * of_nat u"
    by (simp_all add: algebra_simps)
  moreover have h1p: "h1 ?p = q' + 8 * of_nat u" by (simp add: h1_def)
  ultimately have "shift_trap_links (q' + 8 * of_nat N) (q' - q) (q' + 8 * of_nat t) h = Some h'"
    by (subst shift_trap_links.simps)
      (simp only: Trap_link_def Let_def e b(3) if_True h1_def [symmetric] h1p h'(1))
  moreover have "h' ?p = q' + 8 * of_nat u"
    using h'(3) later by (metis fun_upd_same h1_def in_set_butlastD)
  ultimately show ?case using h'(2,3) b(1) by (auto simp: h1_def)
qed simp

lemma trap_chain_link: "trap_chain h b g N ts \<Longrightarrow> t \<in> set (butlast ts) \<Longrightarrow> t + 1 < N"
proof (induction h b g N ts rule: trap_chain.induct)
  case (3 h b g N t' u ts)
  then show ?case using trap_chain_bounds [of h b g N "u # ts" u] by auto
qed auto

lemma trap_chain_move:
  "trap_chain h b g N ts \<Longrightarrow> (\<And>t. t \<in> set (butlast ts) \<Longrightarrow> h' (b' + 8 * of_nat (t + 1)) = h (b + 8 * of_nat (t + 1))) \<Longrightarrow>
   trap_chain h' b' g N ts"
  by (induction h b g N ts rule: trap_chain.induct) auto

section \<open>Growing the stack\<close>

lemma moved_stack_chain:
  assumes "extern_sp s = q" "stack_high s = q + 8 * of_nat N" "N < 2 ^ 60"
    and "trap_chain (mem s) q q N ts" "trapsp s = q + 8 * of_nat (hd ts)"
    and "q' = new_low + 8 * sz - 8 * of_nat N" "unat q' + 8 * N < 2 ^ 64"
  shows "\<exists>s'. moved_stack new_low sz s = Some s' \<and>
    stack_low s' = new_low \<and> stack_high s' = new_low + 8 * sz \<and> extern_sp s' = q' \<and>
    stack_threshold s' = new_low + Stack_threshold \<and> something_to_do s' = something_to_do s \<and>
    trapsp s' = q' + 8 * of_nat (hd ts) \<and> trap_chain (mem s') q' q' N ts \<and>
    (\<forall>j < N. j \<notin> Suc ` set (butlast ts) \<longrightarrow> mem s' (q' + 8 * of_nat j) = mem s (q + 8 * of_nat j)) \<and>
    (\<forall>a. (\<forall>j < N. a \<noteq> q' + 8 * of_nat j) \<longrightarrow> mem s' a = mem s a)"
proof -
  let ?b = "word_block (mem s) q N" and ?high = "new_low + 8 * sz"
  define h where "h = store_words (mem s) q' ?b"
  have len: "length ?b = N" by (simp add: word_block_nth)
  have N: "unat (stack_high s - extern_sp s) div 8 = N"
    using assms(1-3) by (simp add: unat_word_ariths unat_of_nat)
  have high: "?high = q' + 8 * of_nat N" using assms(6) by simp
  have cp: "h (q' + 8 * of_nat j) = mem s (q + 8 * of_nat j)" if "j < N" for j
    using store_words_nth [of j ?b "mem s" q'] that assms(3) by (simp add: h_def len word_block_nth)
  have lt: "t + 1 < N" if "t \<in> set (butlast ts)" for t
    using assms(4) that by (rule trap_chain_link)
  have "trap_chain h q' q N ts"
    by (rule trap_chain_move [OF assms(4)]) (rule cp [OF lt])
  then obtain h' where h': "shift_trap_links ?high (q' - q) (q' + 8 * of_nat (hd ts)) h = Some h'"
      "trap_chain h' q' q' N ts" "\<forall>a. (\<forall>t \<in> set (butlast ts). a \<noteq> q' + 8 * of_nat (t + 1)) \<longrightarrow> h' a = h a"
    using shift_trap_links_chain assms(3,7) high by metis
  have sh: "?high - (stack_high s - extern_sp s) = q'" "?high - (stack_high s - trapsp s) = q' + 8 * of_nat (hd ts)"
      "?high - stack_high s = q' - q"
    using assms(1,2,5) high by (simp_all add: algebra_simps)
  define s' where "s' = s\<lparr> mem := h', stack_low := new_low, stack_high := ?high,
      stack_threshold := new_low + Stack_threshold, extern_sp := q', trapsp := q' + 8 * of_nat (hd ts),
      trap_barrier := ?high - (stack_high s - trap_barrier s) \<rparr>"
  have "moved_stack new_low sz s = Some s'"
    using h'(1) sh N assms(1) by (simp add: moved_stack_def Let_def h_def s'_def Stack_threshold_def)
  moreover have "mem s' (q' + 8 * of_nat j) = mem s (q + 8 * of_nat j)" if j: "j < N" "j \<notin> Suc ` set (butlast ts)" for j
  proof -
    have "q' + 8 * of_nat j \<noteq> q' + 8 * of_nat (t + 1)" if "t \<in> set (butlast ts)" for t
      using word_offset_inj [of j "t + 1" q'] lt [OF that] that j assms(3) by auto
    then have "h' (q' + 8 * of_nat j) = h (q' + 8 * of_nat j)" using h'(3) by blast
    then show ?thesis using cp [OF j(1)] by (simp add: s'_def)
  qed
  moreover have "mem s' a = mem s a" if a: "\<forall>j < N. a \<noteq> q' + 8 * of_nat j" for a
  proof -
    have "h' a = h a" using h'(3) a lt by blast
    then show ?thesis using store_words_other [of ?b a q' "mem s"] a by (simp add: s'_def h_def len)
  qed
  ultimately show ?thesis using h'(2) by (auto simp: s'_def)
qed

lemma grown_stack_size_doubles:
  assumes "0 < S" "S < 2 ^ 60" "unat m \<le> 2 ^ 59" "n < 2 ^ 60" "1 \<le> k" "n \<le> S * 2 ^ k" "\<forall>j. 1 \<le> j \<longrightarrow> j < k \<longrightarrow> S * 2 ^ j < n"
  shows "grown_stack_size m (of_nat n) (of_nat S) = Some (if S * 2 ^ (k - 1) < unat m then Some (of_nat (S * 2 ^ k)) else None)"
  using assms(5,1,2,6,7)
proof (induction k arbitrary: S rule: dec_induct)
  case base
  have "m \<le> of_nat S \<longleftrightarrow> \<not> S < unat m" using base by (simp add: word_le_nat_alt unat_of_nat not_less)
  moreover have "\<not> of_nat S * 2 < (of_nat n :: u64)" if "S < unat m"
    using base that assms(3,4) by (simp add: word_less_nat_alt unat_word_ariths unat_of_nat)
  ultimately show ?case by (subst grown_stack_size.simps) (simp add: Let_def mult.commute)
next
  case (step k)
  have m: "m \<le> of_nat S \<longleftrightarrow> \<not> S < unat m" using step.prems by (simp add: word_le_nat_alt unat_of_nat not_less)
  have up: "S \<le> S * 2 ^ k" by simp
  show ?case
  proof (cases "S < unat m")
    case True
    have "S * 2 < n" using step.prems(4) [rule_format, of 1] step.hyps(1) by simp
    then have l: "of_nat S * 2 < (of_nat n :: u64)"
      using True assms(3,4) by (simp add: word_less_nat_alt unat_word_ariths unat_of_nat)
    have "S * 2 * 2 ^ j < n" if "1 \<le> j" "j < k" for j using step.prems(4) [rule_format, of "Suc j"] that by (simp add: ac_simps)
    then have "grown_stack_size m (of_nat n) (of_nat (S * 2)) =
        Some (if S * 2 * 2 ^ (k - 1) < unat m then Some (of_nat (S * 2 * 2 ^ k)) else None)"
      using step.prems True assms(3) by (intro step.IH) (auto simp: ac_simps)
    moreover have "S * 2 * 2 ^ (k - 1) = S * 2 ^ k" using step.hyps(1) by (cases k) simp_all
    ultimately have "grown_stack_size m (of_nat n) (of_nat S * 2) = Some (if S * 2 ^ k < unat m then Some (of_nat (S * 2 ^ Suc k)) else None)"
      by (simp only: of_nat_mult of_nat_numeral power_Suc mult.assoc mult.left_commute)
    then show ?thesis using m True l by (subst grown_stack_size.simps) (simp add: Let_def)
  next
    case False
    then have "\<not> S * 2 ^ k < unat m" using up by linarith
    then show ?thesis using m False by (subst grown_stack_size.simps) simp
  qed
qed

lemma realloc_moves:
  assumes "extern_sp s = q" "stack_high s = q + 8 * of_nat N" "N < 2 ^ 59"
    and "trap_chain (mem s) q q N ts" "trapsp s = q + 8 * of_nat (hd ts)" "N + req \<le> z" "z < 2 ^ 60"
    and malloc_block: "\<forall>z. unat z < 2 ^ 63 \<longrightarrow> malloc lib z \<noteq> 0 \<and> unat (malloc lib z) + unat z < 2 ^ 64"
    and "grown_stack_size (max_stack_size s) (signed_drop_bit 3 (stack_high s - extern_sp s) + of_nat req)
      (signed_drop_bit 3 (stack_high s - stack_low s)) = Some (Some (of_nat z))"
  shows "\<exists>s'. caml_realloc_stack lib (of_nat req) r s cont = cont s' \<and> stack_high s' - stack_low s' = 8 * of_nat z \<and>
    stack_high s' = extern_sp s' + 8 * of_nat N \<and> unat (stack_low s') + 8 * req \<le> unat (extern_sp s') \<and>
    trapsp s' = extern_sp s' + 8 * of_nat (hd ts) \<and> trap_chain (mem s') (extern_sp s') (extern_sp s') N ts \<and>
    (\<forall>j < N. j \<notin> Suc ` set (butlast ts) \<longrightarrow> mem s' (extern_sp s' + 8 * of_nat j) = mem s (q + 8 * of_nat j)) \<and>
    (\<forall>a. (\<forall>j < N. a \<noteq> extern_sp s' + 8 * of_nat j) \<longrightarrow> mem s' a = mem s a)"
proof -
  let ?z = "of_nat z :: u64" and ?low = "malloc lib (of_nat z * 8)"
  have u: "unat ?z = z" "unat (?z * 8) = z * 8" using assms(7) by (simp_all add: unat_word_ariths unat_of_nat)
  have bl: "unat ?low + 8 * z < 2 ^ 64" "?low \<noteq> 0" using malloc_block [rule_format, of "?z * 8"] u assms(7) by simp_all
  define q' where "q' = ?low + 8 * ?z - 8 * of_nat N"
  have qz: "q' = ?low + 8 * of_nat (z - N)" using assms(6) by (simp add: q'_def algebra_simps of_nat_diff)
  then have uq: "unat q' = unat ?low + 8 * (z - N)"
    using bl(1) assms(7) by (simp add: unat_word_ariths unat_of_nat)
  have fits: "unat q' + 8 * N < 2 ^ 64" using uq bl(1) assms(6) by linarith
  obtain s' where s': "moved_stack ?low ?z s = Some s'" "stack_low s' = ?low" "stack_high s' = ?low + 8 * ?z" "extern_sp s' = q'"
    "trapsp s' = q' + 8 * of_nat (hd ts)" "trap_chain (mem s') q' q' N ts"
    "\<forall>j < N. j \<notin> Suc ` set (butlast ts) \<longrightarrow> mem s' (q' + 8 * of_nat j) = mem s (q + 8 * of_nat j)"
    "\<forall>a. (\<forall>j < N. a \<noteq> q' + 8 * of_nat j) \<longrightarrow> mem s' a = mem s a"
    using moved_stack_chain [OF assms(1,2) _ assms(4,5) q'_def fits] assms(3) by auto
  moreover have "caml_realloc_stack lib (of_nat req) r s cont = cont s'"
    using assms(9) bl(2) s'(1) by (simp add: caml_realloc_stack_def)
  ultimately show ?thesis using uq assms(6) by (intro exI [of _ s']) (auto simp: q'_def)
qed

text \<open>C9: Growing the stack doubles its size \<open>k\<close> times, \<open>k\<close> being the least positive number for which the stack in use and the
  space asked for fit.  It raises \<open>Stack_overflow\<close> exactly when the size before the last doubling has already reached the
  maximum.  Otherwise it ends with the whole stack at the end of a new block of that size: the words of the stack are the
  same except for the links of the trap frames, the trap frames form the same chain at their new addresses, no other
  memory changes, and the space asked for lies free below the stack pointer.\<close>

theorem realloc_stack_correct:
  assumes "extern_sp s = q" "stack_high s = q + 8 * of_nat N" "N < 2 ^ 59" "q - stack_low s = 8 * of_nat M" "M < 2 ^ 59"
    and "0 < N + M" "req < 2 ^ 59" "unat (max_stack_size s) \<le> 2 ^ 59"
    and "trap_chain (mem s) q q N ts" "trapsp s = q + 8 * of_nat (hd ts)"
    and malloc_block: "\<forall>z. unat z < 2 ^ 63 \<longrightarrow> malloc lib z \<noteq> 0 \<and> unat (malloc lib z) + unat z < 2 ^ 64"
    and k: "1 \<le> k" "N + req \<le> (N + M) * 2 ^ k" "\<forall>j. 1 \<le> j \<longrightarrow> j < k \<longrightarrow> (N + M) * 2 ^ j < N + req"
  shows "if (N + M) * 2 ^ (k - 1) < unat (max_stack_size s)
    then \<exists>s' q'. caml_realloc_stack lib (of_nat req) r s cont = cont s' \<and>
      stack_high s' - stack_low s' = 8 * of_nat ((N + M) * 2 ^ k) \<and>
      extern_sp s' = q' \<and> stack_high s' = q' + 8 * of_nat N \<and> unat (stack_low s') + 8 * req \<le> unat q' \<and>
      trapsp s' = q' + 8 * of_nat (hd ts) \<and> trap_chain (mem s') q' q' N ts \<and>
      (\<forall>j < N. j \<notin> Suc ` set (butlast ts) \<longrightarrow> mem s' (q' + 8 * of_nat j) = mem s (q + 8 * of_nat j)) \<and>
      (\<forall>a. (\<forall>j < N. a \<noteq> q' + 8 * of_nat j) \<longrightarrow> mem s' a = mem s a)
    else caml_realloc_stack lib (of_nat req) r s cont = caml_raise_stack_overflow r s"
proof -
  have d: "signed_drop_bit 3 (8 * of_nat x :: u64) = of_nat x" if "x < 2 ^ 60" for x
  proof -
    have "sint (of_nat (8 * x) :: u64) = int (8 * x)" by (rule sint_of_nat_small) (use that in simp)
    then show ?thesis by (simp add: signed_drop_bit_int drop_bit_eq_div)
  qed
  have "stack_high s - stack_low s = 8 * of_nat (N + M)" using assms(2,4) by (simp add: algebra_simps)
  then have sz: "signed_drop_bit 3 (stack_high s - stack_low s) = of_nat (N + M)" using d [of "N + M"] assms(3,5) by simp
  have nd: "signed_drop_bit 3 (stack_high s - extern_sp s) + of_nat req = of_nat (N + req)"
    using d [of N] assms(1-3) by simp
  define z where "z = (N + M) * 2 ^ k"
  have res: "grown_stack_size (max_stack_size s) (of_nat (N + req)) (of_nat (N + M)) =
      Some (if (N + M) * 2 ^ (k - 1) < unat (max_stack_size s) then Some (of_nat z) else None)"
    unfolding z_def using grown_stack_size_doubles [OF assms(6) _ assms(8) _ k] assms(3,5,7) by simp
  show ?thesis
  proof (cases "(N + M) * 2 ^ (k - 1) < unat (max_stack_size s)")
    case False
    then show ?thesis using res by (simp add: caml_realloc_stack_def sz nd)
  next
    case True
    have "z = 2 * ((N + M) * 2 ^ (k - 1))" using k(1) by (cases k) (simp_all add: z_def)
    moreover have "(N + M) * 2 ^ (k - 1) < 2 ^ 59" using True assms(8) by (rule less_le_trans)
    ultimately have "z < 2 ^ 60" by simp
    moreover have "N + req \<le> z" using k(2) by (simp add: z_def)
    ultimately have z: "N + req \<le> z" "z < 2 ^ 60" by simp_all
    have grown: "grown_stack_size (max_stack_size s) (of_nat (N + req)) (of_nat (N + M)) = Some (Some (of_nat z))" using res True by simp
    obtain s' where "caml_realloc_stack lib (of_nat req) r s cont = cont s'" "stack_high s' - stack_low s' = 8 * of_nat z"
      "stack_high s' = extern_sp s' + 8 * of_nat N" "unat (stack_low s') + 8 * req \<le> unat (extern_sp s')"
      "trapsp s' = extern_sp s' + 8 * of_nat (hd ts)" "trap_chain (mem s') (extern_sp s') (extern_sp s') N ts"
      "\<forall>j < N. j \<notin> Suc ` set (butlast ts) \<longrightarrow> mem s' (extern_sp s' + 8 * of_nat j) = mem s (q + 8 * of_nat j)"
      "\<forall>a. (\<forall>j < N. a \<noteq> extern_sp s' + 8 * of_nat j) \<longrightarrow> mem s' a = mem s a"
      using realloc_moves [OF assms(1-3) assms(9,10) z malloc_block, of r cont] grown sz nd by auto
    then show ?thesis using True by (auto simp: z_def)
  qed
qed

end
