(* ===== verification/Interp_Examples.thy ===== *)
theory Interp_Examples
  imports Stacks
begin

text \<open>
  The properties of the interpreter applied to a concrete machine.
\<close>

section \<open>Examples\<close>

text \<open>A machine with a given memory and bytecode: the stack at \<open>0x8000\<close> to \<open>0x9000\<close> with a trap frame at
  \<open>0x8F80\<close>.\<close>

definition demo_vm :: "heap \<Rightarrow> (u64 \<Rightarrow> cint) \<Rightarrow> vm" where
  "demo_vm h c =
     memory.extend (one_page_memory\<lparr> mem := h \<rparr>)
       \<lparr> code = c, start_code = 0x1000, saved_code = \<lambda>_. 0, global_data = 0x3000, stack_low = 0x8000,
         stack_high = 0x9000, stack_threshold = 0x8800, extern_sp = 0x8F00, trapsp = 0x8F80, trap_barrier = 0x9008,
         max_stack_size = 0x1000, event_count = 0, backtrace_active = False, callback_depth = 0, exn_bucket = 0,
         local_roots = 0, external_raise = 0x100, oom_bucket = 0x2008 \<rparr>"

definition demo_regs :: regs where
  "demo_regs =
     \<lparr> pc = 0x1000, sp = 0x8F00, accu = 9, env = 0x4000, extra_args = 0, saved_pc = 0, initial_sp_offset = 0,
       initial_local_roots = 0, initial_external_raise = 0 \<rparr>"

definition demo_libc :: libc where "demo_libc = \<lparr> malloc = \<lambda>_. 0x100000, calloc = \<lambda>_. True, realloc = \<lambda>_. True \<rparr>"

lemmas demo_defs = demo_vm_def demo_regs_def demo_libc_def one_page_memory_def one_block_freelist_def freelist.defs
  memory.defs stack_def operand_def Long_limits

lemma word_block_small: "word_block h a 1 = [h a]" "word_block h a (Suc 0) = [h a]" "word_block h a 2 = [h a, h (a + 8)]"
  by (simp_all add: word_block_def upt_rec numeral_eq_Suc)

theorem integer_instructions_witness:
  "fetch demo_libc demo_regs (demo_vm (\<lambda>_. 7) (\<lambda>_. 110)) =
    Next (demo_regs\<lparr> pc := pc demo_regs + 4, accu := Val_long (word_of_int (4 + 3)), sp := sp demo_regs + 8 \<rparr>)
      (demo_vm (\<lambda>_. 7) (\<lambda>_. 110))"
  by (rule integer_instructions [where op = 110 and f = "(+)"])
    (simp_all add: int_operations_def demo_defs Val_long_def)


theorem integer_branches_witness:
  "fetch demo_libc demo_regs (demo_vm (\<lambda>_. 0) (\<lambda>a. if a = 0x1000 then 133 else 3)) =
    Next (demo_regs\<lparr> pc := (if sint (code (demo_vm (\<lambda>_. 0) (\<lambda>a. if a = 0x1000 then 133 else 3)) (pc demo_regs + 4)) < 4
        then pc demo_regs + 8 + 4 * scast (code (demo_vm (\<lambda>_. 0) (\<lambda>a. if a = 0x1000 then 133 else 3)) (pc demo_regs + 8))
        else pc demo_regs + 12) \<rparr>) (demo_vm (\<lambda>_. 0) (\<lambda>a. if a = 0x1000 then 133 else 3))"
  by (rule integer_branches [where op = 123 and R = "(<)"])
    (simp_all add: int_comparisons_def demo_defs Val_long_def)

theorem trap_handler_witness:
  "\<exists>r1 s1. PUSHTRAP demo_regs (demo_vm (\<lambda>_. 1) (\<lambda>_. 5)) = Next r1 s1 \<and>
    RAISE r1 s1 =
      Next (r1\<lparr> pc := pc demo_regs + 4 * scast (operand demo_regs (demo_vm (\<lambda>_. 1) (\<lambda>_. 5)) 0), sp := sp demo_regs,
                env := env demo_regs, extra_args := extra_args demo_regs \<rparr>)
        (s1\<lparr> trapsp := trapsp (demo_vm (\<lambda>_. 1) (\<lambda>_. 5)) \<rparr>)"
proof -
  obtain r1 s1 where p: "PUSHTRAP demo_regs (demo_vm (\<lambda>_. 1) (\<lambda>_. 5)) = Next r1 s1" by (simp add: PUSHTRAP_def)
  then have "trapsp s1 = 0x8EE0" "trap_barrier s1 = 0x9008" "\<not> backtrace_active s1" "stack_high s1 = 0x9000"
      "initial_sp_offset r1 = 0"
    by (auto simp: PUSHTRAP_def demo_defs)
  then show ?thesis
    using trap_handler [OF p, of s1 r1] p by (simp add: demo_regs_def Long_limits)
qed

theorem division_by_zero_witness:
  "\<exists>s'. DIVINT demo_regs (demo_vm (\<lambda>_. 1) (\<lambda>_. 0)) =
      Next (demo_regs\<lparr> pc := Trap_pc (mem (demo_vm (\<lambda>_. 1) (\<lambda>_. 0))) (trapsp (demo_vm (\<lambda>_. 1) (\<lambda>_. 0))),
          sp := trapsp (demo_vm (\<lambda>_. 1) (\<lambda>_. 0)) + 32,
          env := mem (demo_vm (\<lambda>_. 1) (\<lambda>_. 0)) (trapsp (demo_vm (\<lambda>_. 1) (\<lambda>_. 0)) + 16),
          extra_args := Long_val (mem (demo_vm (\<lambda>_. 1) (\<lambda>_. 0)) (trapsp (demo_vm (\<lambda>_. 1) (\<lambda>_. 0)) + 24)),
          accu := 0x1EFF0 + 8, saved_pc := 0 \<rparr>) s' \<and>
    trapsp s' = Trap_link (mem (demo_vm (\<lambda>_. 1) (\<lambda>_. 0))) (trapsp (demo_vm (\<lambda>_. 1) (\<lambda>_. 0))) \<and>
    Hd_val (mem s') (0x1EFF0 + 8) = Make_header 1 0 Caml_black \<and>
    Field (mem s') (0x1EFF0 + 8) 0 =
      Field (mem (demo_vm (\<lambda>_. 1) (\<lambda>_. 0))) (global_data (demo_vm (\<lambda>_. 1) (\<lambda>_. 0))) ZERO_DIVIDE_EXN"
  by (rule division_by_zero) (simp_all add: demo_defs Val_long_def ZERO_DIVIDE_EXN_def)

theorem apply_return_witness:
  "\<exists>s1. APPLYn 1 demo_libc (demo_regs\<lparr> accu := 0x5000 \<rparr>) (demo_vm (\<lambda>_. 1) (\<lambda>_. 1)) =
      Next (demo_regs\<lparr> accu := 0x5000, sp := 0x8EE8, pc := 1, env := 0x5000, extra_args := 0 \<rparr>) s1 \<and>
    word_block (mem s1) 0x8EE8 1 = [1]"
  using apply_return [where n = 1 and r = "demo_regs\<lparr> accu := 0x5000 \<rparr>" and s = "demo_vm (\<lambda>_. 1) (\<lambda>_. 1)" and
      ret = "0x8EF0" and lib = demo_libc]
  by (auto simp: demo_defs Code_val_def word_block_small all_less_small)

theorem appterm_slides_witness:
  "\<exists>s1. APPTERM demo_libc demo_regs (demo_vm (\<lambda>a. a) (\<lambda>a. if a = 0x1000 then 2 else 3)) =
      Next (demo_regs\<lparr> sp := 0x8F08, pc := Code_val (mem (demo_vm (\<lambda>a. a) (\<lambda>a. if a = 0x1000 then 2 else 3))) (accu demo_regs),
          env := accu demo_regs, extra_args := extra_args demo_regs + (of_nat 2 - 1) \<rparr>) s1 \<and>
    word_block (mem s1) 0x8F08 2 =
      word_block (mem (demo_vm (\<lambda>a. a) (\<lambda>a. if a = 0x1000 then 2 else 3))) (sp demo_regs) 2 \<and>
    (\<forall>a. (\<forall>i < 2. a \<noteq> 0x8F08 + 8 * of_nat i) \<longrightarrow>
       mem s1 a = mem (demo_vm (\<lambda>a. a) (\<lambda>a. if a = 0x1000 then 2 else 3)) a)"
  by (rule appterm_slides) (simp_all add: demo_defs all_less_small)

theorem partial_application_witness:
  "\<exists>s1. GRAB demo_regs (demo_vm (\<lambda>a. a) (\<lambda>_. 2)) =
      Next (demo_regs\<lparr> pc := 0x8F08, env := 0x8F10, extra_args := Long_val 0x8F18, sp := 0x8F20, accu := 0x1EFE8 \<rparr>) s1 \<and>
    Tag_val (mem s1) 0x1EFE8 = Closure_tag \<and> Code_val (mem s1) 0x1EFE8 = 0xFF8"
  using partial_application [where e = 0 and n = 1 and r = demo_regs and s = "demo_vm (\<lambda>a. a) (\<lambda>_. 2)" and p = "0x1EFE0"]
  by (auto simp: demo_defs all_less_small)

text \<open>A class with two public methods: tags 5 and 7.\<close>

definition demo_class :: heap where
  "demo_class a =
     (if a = 9 then 0x6000 else if a = 0x6000 then 5 else if a = 0x6008 then 16 else if a = 0x6018 then 11
      else if a = 0x6028 then 15 else 0)"

theorem getpubmet_correct_witness:
  "\<exists>s'. GETPUBMET demo_regs (demo_vm demo_class (\<lambda>a. if a = 0x1000 then 7 else 0)) =
      Next (demo_regs\<lparr> accu := Field (mem (demo_vm demo_class (\<lambda>a. if a = 0x1000 then 7 else 0))) 0x6000 (of_nat (2 * 1 + 2)),
          pc := pc demo_regs + 8, sp := sp demo_regs - 8 \<rparr>) s' \<and>
    mem s' = (mem (demo_vm demo_class (\<lambda>a. if a = 0x1000 then 7 else 0)))(sp demo_regs - 8 := accu demo_regs) \<and>
    code s' = (code (demo_vm demo_class (\<lambda>a. if a = 0x1000 then 7 else 0)))
      (pc demo_regs + 4 := (if 0 = (1 :: nat) then operand demo_regs (demo_vm demo_class (\<lambda>a. if a = 0x1000 then 7 else 0)) 1
                            else of_nat (16 * 1)))"
proof (rule getpubmet_correct [where n = 2])
  show "\<forall>j < 2. \<forall>i < j. method_tag (mem (demo_vm demo_class (\<lambda>a. if a = 0x1000 then 7 else 0))) 0x6000 i <
      method_tag (mem (demo_vm demo_class (\<lambda>a. if a = 0x1000 then 7 else 0))) 0x6000 j"
    by (simp add: all_less_small method_tag_def demo_defs demo_class_def Field_def)
  show "\<forall>i < 2 * 2 + 2. sp demo_regs - 8 \<noteq> 0x6000 + 8 * of_nat i"
    by (simp add: demo_defs all_less_small)
qed (simp_all add: demo_defs demo_class_def Field_def Val_long_def Val_int_def)

theorem realloc_stack_correct_witness:
  "\<exists>s' q'. caml_realloc_stack demo_libc (of_nat 256) demo_regs (demo_vm (\<lambda>_. 0x9000) (\<lambda>_. 0)) (Next demo_regs) =
      Next demo_regs s' \<and> stack_high s' - stack_low s' = 8 * 1024 \<and> extern_sp s' = q' \<and> stack_high s' = q' + 8 * 32 \<and>
    trapsp s' = q' + 8 * 16 \<and> trap_chain (mem s') q' q' 32 [16, 32]"
  using realloc_stack_correct [where s = "demo_vm (\<lambda>_. 0x9000) (\<lambda>_. 0)" and q = "0x8F00" and N = 32 and M = 480 and req = 256 and
      ts = "[16, 32]" and k = 1 and lib = demo_libc and r = demo_regs and cont = "Next demo_regs"]
  by (auto simp: demo_defs)

end
