(* ===== verification/Globroots.thy ===== *)
theory Globroots
  imports Memory
begin

text \<open>
  The registry of global roots (\<open>byterun/globroots.c\<close>): three sets of root addresses, each kept as a skip
  list.  The cells of a list are a map from addresses to \<^emph>\<open>struct global_root\<close>; the header of the list is one of
  them, as in the code, which casts it to a cell.  The address of a new cell is what \<open>malloc\<close> returns.
\<close>

section \<open>Skip lists\<close>

record global_root =
  gr_root :: u64
  gr_forward :: "nat \<Rightarrow> u64"

definition NUM_LEVELS :: nat where "NUM_LEVELS = 17"

record global_root_list =
  gl_self :: u64
  gl_cells :: "u64 \<Rightarrow> global_root"
  gl_level :: nat

partial_function (option) random_level_loop :: "u32 \<Rightarrow> nat \<Rightarrow> nat option" where
  "random_level_loop r level =
     (if r AND 0xC0000000 = 0xC0000000 then random_level_loop (push_bit 2 r) (level + 1) else Some level)"

declare random_level_loop.simps [code]

definition random_level :: "u32 \<Rightarrow> (u32 \<times> nat) option" where
  "random_level random_seed =
     (let r = random_seed * 69069 + 25173 in map_option (Pair r) (random_level_loop r 0))"

partial_function (option) root_walk :: "(u64 \<Rightarrow> global_root) \<Rightarrow> nat \<Rightarrow> u64 \<Rightarrow> u64 \<Rightarrow> u64 option" where
  "root_walk c i r e =
     (let f = gr_forward (c e) i
      in if f = 0 \<or> gr_root (c f) \<ge> r then Some e else root_walk c i r f)"

declare root_walk.simps [code]

fun root_search :: "(u64 \<Rightarrow> global_root) \<Rightarrow> u64 \<Rightarrow> nat \<Rightarrow> u64 \<Rightarrow> (nat \<Rightarrow> u64) \<Rightarrow> ((nat \<Rightarrow> u64) \<times> u64) option" where
  "root_search c r 0 e update =
     (case root_walk c 0 r e of None \<Rightarrow> None | Some e \<Rightarrow> Some (update(0 := e), e))"
| "root_search c r (Suc i) e update =
     (case root_walk c (Suc i) r e of None \<Rightarrow> None | Some e \<Rightarrow> root_search c r i e (update(Suc i := e)))"

definition set_forward :: "u64 \<Rightarrow> nat \<Rightarrow> u64 \<Rightarrow> (u64 \<Rightarrow> global_root) \<Rightarrow> (u64 \<Rightarrow> global_root)" where
  "set_forward x i f c = c(x := (c x)\<lparr> gr_forward := (gr_forward (c x))(i := f) \<rparr>)"

fun link_levels :: "nat \<Rightarrow> u64 \<Rightarrow> (nat \<Rightarrow> u64) \<Rightarrow> (u64 \<Rightarrow> global_root) \<Rightarrow> (u64 \<Rightarrow> global_root)" where
  "link_levels 0 e update c = c"
| "link_levels (Suc i) e update c =
     (let c = link_levels i e update c;
          c = set_forward e i (gr_forward (c (update i)) i) c
      in set_forward (update i) i e c)"

definition caml_insert_global_root ::
  "libc \<Rightarrow> u64 \<Rightarrow> global_root_list \<times> u32 \<Rightarrow> (global_root_list \<times> u32) outcome" where
  "caml_insert_global_root lib r = (\<lambda>(l, random_seed).
     and_then (returning (root_search (gl_cells l) r (gl_level l) (gl_self l) (\<lambda>_. 0)))
     (\<lambda>(update, e).
        (let e = gr_forward (gl_cells l e) 0
         in if e \<noteq> 0 \<and> gr_root (gl_cells l e) = r then Value (l, random_seed)
            else
              and_then (returning (random_level random_seed))
              (\<lambda>(random_seed, new_level).
                 (let update = (\<lambda>i. if gl_level l < i \<and> i \<le> new_level then gl_self l else update i);
                      l = (if new_level > gl_level l then l\<lparr> gl_level := new_level \<rparr> else l);
                      e = malloc lib (16 + 8 * of_nat new_level)
                  in if e = 0 then Raised Out_of_memory
                     else
                       (let c = (gl_cells l)(e := (gl_cells l e)\<lparr> gr_root := r \<rparr>)
                        in Value (l\<lparr> gl_cells := link_levels (new_level + 1) e update c \<rparr>, random_seed)))))))"

fun unlink_levels :: "nat \<Rightarrow> u64 \<Rightarrow> (nat \<Rightarrow> u64) \<Rightarrow> (u64 \<Rightarrow> global_root) \<Rightarrow> (u64 \<Rightarrow> global_root)" where
  "unlink_levels 0 e update c = c"
| "unlink_levels (Suc i) e update c =
     (let c = unlink_levels i e update c
      in if gr_forward (c (update i)) i = e then set_forward (update i) i (gr_forward (c e) i) c else c)"

fun lower_level :: "(nat \<Rightarrow> u64) \<Rightarrow> nat \<Rightarrow> nat" where
  "lower_level fw 0 = 0"
| "lower_level fw (Suc n) = (if fw (Suc n) = 0 then lower_level fw n else Suc n)"

definition caml_delete_global_root :: "u64 \<Rightarrow> global_root_list \<Rightarrow> global_root_list option" where
  "caml_delete_global_root r l =
     (case root_search (gl_cells l) r (gl_level l) (gl_self l) (\<lambda>_. 0) of
        None \<Rightarrow> None
      | Some (update, e) \<Rightarrow>
          (let e = gr_forward (gl_cells l e) 0
           in if e = 0 \<or> gr_root (gl_cells l e) \<noteq> r then Some l
              else
                (let c = unlink_levels (gl_level l + 1) e update (gl_cells l)
                 in Some (l\<lparr> gl_cells := c, gl_level := lower_level (gr_forward (c (gl_self l))) (gl_level l) \<rparr>))))"

text \<open>The roots in the order in which the code visits them.\<close>

partial_function (option) root_addresses :: "(u64 \<Rightarrow> global_root) \<Rightarrow> u64 \<Rightarrow> u64 list option" where
  "root_addresses c gr =
     (if gr = 0 then Some []
      else Option.bind (root_addresses c (gr_forward (c gr) 0)) (\<lambda>rs. Some (gr_root (c gr) # rs)))"

declare root_addresses.simps [code]

definition registered :: "global_root_list \<Rightarrow> u64 list option" where
  "registered l = root_addresses (gl_cells l) (gr_forward (gl_cells l (gl_self l)) 0)"

definition caml_iterate_global_roots ::
  "(value_t \<Rightarrow> u64 \<Rightarrow> 's \<Rightarrow> 's) \<Rightarrow> ('s \<Rightarrow> heap) \<Rightarrow> global_root_list \<Rightarrow> 's \<Rightarrow> 's option" where
  "caml_iterate_global_roots f memory_of l st =
     map_option (\<lambda>rs. fold (\<lambda>r st. f (memory_of st r) r st) rs st) (registered l)"

definition caml_empty_global_roots :: "global_root_list \<Rightarrow> global_root_list option" where
  "caml_empty_global_roots l =
     (case registered l of
        None \<Rightarrow> None
      | Some _ \<Rightarrow>
          Some (l\<lparr> gl_cells := (gl_cells l)(gl_self l := (gl_cells l (gl_self l))
                      \<lparr> gr_forward := (\<lambda>i. if i \<le> gl_level l then 0 else gr_forward (gl_cells l (gl_self l)) i) \<rparr>),
                   gl_level := 0 \<rparr>))"

section \<open>The three lists\<close>

record global_roots = memory +
  caml_global_roots :: global_root_list
  caml_global_roots_young :: global_root_list
  caml_global_roots_old :: global_root_list
  random_seed :: u32

definition insert_young :: "libc \<Rightarrow> u64 \<Rightarrow> global_roots \<Rightarrow> global_roots outcome" where
  "insert_young lib r st =
     and_then (caml_insert_global_root lib r (caml_global_roots_young st, random_seed st))
     (\<lambda>(l, seed). Value (st\<lparr> caml_global_roots_young := l, random_seed := seed \<rparr>))"

definition insert_old :: "libc \<Rightarrow> u64 \<Rightarrow> global_roots \<Rightarrow> global_roots outcome" where
  "insert_old lib r st =
     and_then (caml_insert_global_root lib r (caml_global_roots_old st, random_seed st))
     (\<lambda>(l, seed). Value (st\<lparr> caml_global_roots_old := l, random_seed := seed \<rparr>))"

definition delete_young :: "u64 \<Rightarrow> global_roots \<Rightarrow> global_roots outcome" where
  "delete_young r st =
     and_then (returning (caml_delete_global_root r (caml_global_roots_young st)))
     (\<lambda>l. Value (st\<lparr> caml_global_roots_young := l \<rparr>))"

definition delete_old :: "u64 \<Rightarrow> global_roots \<Rightarrow> global_roots outcome" where
  "delete_old r st =
     and_then (returning (caml_delete_global_root r (caml_global_roots_old st)))
     (\<lambda>l. Value (st\<lparr> caml_global_roots_old := l \<rparr>))"

definition caml_register_global_root ::
  "libc \<Rightarrow> u64 \<Rightarrow> ('a) global_roots_scheme \<Rightarrow> ('a) global_roots_scheme outcome" where
  "caml_register_global_root lib r st =
     and_then (caml_insert_global_root lib r (caml_global_roots st, random_seed st))
     (\<lambda>(l, seed). Value (st\<lparr> caml_global_roots := l, random_seed := seed \<rparr>))"

definition caml_remove_global_root ::
  "u64 \<Rightarrow> ('a) global_roots_scheme \<Rightarrow> ('a) global_roots_scheme outcome" where
  "caml_remove_global_root r st =
     and_then (returning (caml_delete_global_root r (caml_global_roots st))) (\<lambda>l. Value (st\<lparr> caml_global_roots := l \<rparr>))"

text \<open>The choice of a list by the value \<open>v\<close> of a root, a block: \<open>young\<close> when it is young, \<open>old\<close> when it lies in the
  major heap.\<close>

definition by_generation ::
  "value_t \<Rightarrow> (global_roots \<Rightarrow> global_roots outcome) \<Rightarrow> (global_roots \<Rightarrow> global_roots outcome) \<Rightarrow>
   global_roots \<Rightarrow> global_roots outcome" where
  "by_generation v young old st =
     (if Is_young v st then young st
      else and_then (returning (Is_in_heap (pages st) v)) (\<lambda>in_heap. if in_heap then old st else Value st))"

definition caml_register_generational_global_root :: "libc \<Rightarrow> u64 \<Rightarrow> global_roots \<Rightarrow> global_roots outcome" where
  "caml_register_generational_global_root lib r st =
     (let v = mem st r
      in if Is_block v then by_generation v (insert_young lib r) (insert_old lib r) st else Value st)"

definition caml_remove_generational_global_root :: "u64 \<Rightarrow> global_roots \<Rightarrow> global_roots outcome" where
  "caml_remove_generational_global_root r st =
     (let v = mem st r
      in if Is_block v then by_generation v (delete_young r) (delete_old r) st else Value st)"

definition caml_modify_generational_global_root :: "libc \<Rightarrow> u64 \<Rightarrow> value_t \<Rightarrow> global_roots \<Rightarrow> global_roots outcome" where
  "caml_modify_generational_global_root lib r newval st =
     (let oldval = mem st r
      in and_then
           (if Is_block newval \<and> Is_young newval st \<and> Is_block oldval
            then returning (Is_in_heap (pages st) oldval) else Value False)
           (\<lambda>old_to_young.
              and_then
                (if old_to_young then and_then (delete_old r st) (insert_young lib r)
                 else if \<not> Is_block oldval \<and> Is_block newval
                 then by_generation newval (insert_young lib r) (insert_old lib r) st
                 else if Is_block oldval \<and> \<not> Is_block newval
                 then by_generation oldval (delete_young r) (delete_old r) st
                 else Value st)
                (\<lambda>st. Value (st\<lparr> mem := (mem st)(r := newval) \<rparr>))))"

definition caml_scan_global_roots ::
  "(value_t \<Rightarrow> u64 \<Rightarrow> global_roots \<Rightarrow> global_roots) \<Rightarrow> global_roots \<Rightarrow> global_roots option" where
  "caml_scan_global_roots f st =
     Option.bind (caml_iterate_global_roots f mem (caml_global_roots st) st)
     (\<lambda>st. Option.bind (caml_iterate_global_roots f mem (caml_global_roots_young st) st)
     (\<lambda>st. caml_iterate_global_roots f mem (caml_global_roots_old st) st))"

text \<open>The loop that inserts the young roots into the old ones with the operation \<open>ins\<close>; the \<open>i\<close>-th insertion allocates with \<open>libs i\<close>.\<close>

fun insert_all ::
  "(libc \<Rightarrow> u64 \<Rightarrow> 'l \<times> u32 \<Rightarrow> ('l \<times> u32) outcome) \<Rightarrow> (nat \<Rightarrow> libc) \<Rightarrow> u64 list \<Rightarrow> nat \<Rightarrow>
   'l \<times> u32 \<Rightarrow> ('l \<times> u32) outcome" where
  "insert_all ins libs [] i ls = Value ls"
| "insert_all ins libs (r # rs) i ls = and_then (ins (libs i) r ls) (insert_all ins libs rs (i + 1))"

definition caml_scan_global_young_roots ::
  "(nat \<Rightarrow> libc) \<Rightarrow> (value_t \<Rightarrow> u64 \<Rightarrow> global_roots \<Rightarrow> global_roots) \<Rightarrow> global_roots \<Rightarrow> global_roots outcome" where
  "caml_scan_global_young_roots libs f st =
     and_then (returning (caml_iterate_global_roots f mem (caml_global_roots st) st))
     (\<lambda>st. and_then (returning (caml_iterate_global_roots f mem (caml_global_roots_young st) st))
     (\<lambda>st. and_then (returning (registered (caml_global_roots_young st)))
     (\<lambda>rs. and_then (insert_all caml_insert_global_root libs rs 0 (caml_global_roots_old st, random_seed st))
     (\<lambda>(old, seed). and_then (returning (caml_empty_global_roots (caml_global_roots_young st)))
     (\<lambda>young. Value (st\<lparr> caml_global_roots_old := old, caml_global_roots_young := young, random_seed := seed \<rparr>))))))"

section \<open>Chains\<close>

fun chain :: "(u64 \<Rightarrow> u64) \<Rightarrow> u64 \<Rightarrow> u64 list \<Rightarrow> bool" where
  "chain fw e [] \<longleftrightarrow> fw e = 0"
| "chain fw e (x # xs) \<longleftrightarrow> fw e = x \<and> x \<noteq> 0 \<and> chain fw x xs"

lemma chain_next: "chain fw e xs \<Longrightarrow> fw e = (case xs of [] \<Rightarrow> 0 | x # _ \<Rightarrow> x)"
  by (cases xs) auto

lemma sorted_find:
  "sorted_wrt (\<lambda>a b. f a < (f b :: 'k :: linorder)) xs \<Longrightarrow>
   r \<in> f ` set xs \<longleftrightarrow> (case dropWhile (\<lambda>x. f x < r) xs of [] \<Rightarrow> False | x # _ \<Rightarrow> f x = r)"
  by (induction xs) auto

lemma chain_suffix: "chain fw e (xs @ ys) \<Longrightarrow> chain fw (last (e # xs)) ys"
  by (induction xs arbitrary: e) auto

lemma chain_cong: "chain fw e xs \<Longrightarrow> (\<And>x. x \<in> set (e # xs) \<Longrightarrow> fw' x = fw x) \<Longrightarrow> chain fw' e xs"
  by (induction xs arbitrary: e) auto

lemma chain_insert:
  "chain fw e (xs @ ys) \<Longrightarrow> distinct (e # xs @ ys) \<Longrightarrow> n \<noteq> 0 \<Longrightarrow> n \<notin> set (e # xs @ ys) \<Longrightarrow>
   chain (fw(last (e # xs) := n, n := fw (last (e # xs)))) e (xs @ n # ys)"
proof (induction xs arbitrary: e)
  case Nil
  then show ?case by (cases ys) (auto elim!: chain_cong)
next
  case (Cons x xs)
  then have "e \<noteq> last (x # xs)" "e \<noteq> n" by auto
  with Cons show ?case by auto
qed

lemma chain_remove:
  "chain fw e (xs @ x # ys) \<Longrightarrow> distinct (e # xs @ x # ys) \<Longrightarrow> chain (fw(last (e # xs) := fw x)) e (xs @ ys)"
proof (induction xs arbitrary: e)
  case Nil
  then show ?case by (cases ys) (auto elim!: chain_cong)
next
  case (Cons y xs)
  then have "e \<noteq> last (y # xs)" by auto
  with Cons show ?case by auto
qed

section \<open>Well-formed skip lists\<close>

definition root_key :: "global_root_list \<Rightarrow> u64 \<Rightarrow> u64" where "root_key l e = gr_root (gl_cells l e)"

definition sl_wf :: "global_root_list \<Rightarrow> (nat \<Rightarrow> u64 list) \<Rightarrow> bool" where
  "sl_wf l ns \<longleftrightarrow>
     (\<forall>i. chain (\<lambda>e. gr_forward (gl_cells l e) i) (gl_self l) (ns i) \<and>
          sorted_wrt (\<lambda>a b. root_key l a < root_key l b) (ns i) \<and>
          set (ns (Suc i)) \<subseteq> set (ns i) \<and> (gl_level l < i \<longrightarrow> ns i = [])) \<and>
     gl_self l \<notin> set (ns 0)"

lemma sl_wf_levels: "sl_wf l ns \<Longrightarrow> set (ns i) \<subseteq> set (ns 0)"
  by (induction i) (auto simp: sl_wf_def)

lemma sorted_key_distinct: "sorted_wrt (\<lambda>a b. f a < (f b :: 'k :: order)) xs \<Longrightarrow> distinct xs"
  by (induction xs) auto

lemma sl_wf_distinct: "sl_wf l ns \<Longrightarrow> distinct (gl_self l # ns i)"
proof -
  assume w: "sl_wf l ns"
  then have "sorted_wrt (\<lambda>a b. root_key l a < root_key l b) (ns i)" by (simp add: sl_wf_def)
  then have "distinct (ns i)" by (rule sorted_key_distinct)
  then show "distinct (gl_self l # ns i)" using w sl_wf_levels [OF w, of i] by (auto simp: sl_wf_def)
qed

text \<open>The last cell of level \<open>i\<close> whose root is less than \<open>r\<close>, or the header.\<close>

definition pred_cell :: "global_root_list \<Rightarrow> (nat \<Rightarrow> u64 list) \<Rightarrow> u64 \<Rightarrow> nat \<Rightarrow> u64" where
  "pred_cell l ns r i = last (gl_self l # takeWhile (\<lambda>e. root_key l e < r) (ns i))"

lemma root_walk_chain:
  "chain (\<lambda>e. gr_forward (c e) i) e xs \<Longrightarrow>
   root_walk c i r e = Some (last (e # takeWhile (\<lambda>x. gr_root (c x) < r) xs))"
proof (induction xs arbitrary: e)
  case Nil
  then show ?case by (subst root_walk.simps) simp
next
  case (Cons x xs)
  then show ?case by (subst root_walk.simps) (auto simp: Let_def not_less)
qed


lemma root_walk_level:
  assumes "sl_wf l ns" "e = gl_self l \<or> e \<in> set (ns i) \<and> root_key l e < r"
  shows "root_walk (gl_cells l) i r e = Some (pred_cell l ns r i)"
  using assms(2)
proof
  have c: "chain (\<lambda>e. gr_forward (gl_cells l e) i) (gl_self l) (ns i)" using assms(1) by (simp add: sl_wf_def)
  {
    assume "e = gl_self l"
    then show ?thesis using root_walk_chain [OF c] by (simp add: pred_cell_def root_key_def)
  next
    assume e: "e \<in> set (ns i) \<and> root_key l e < r"
    then obtain pre post where n: "ns i = pre @ e # post" by (meson split_list)
    have "sorted_wrt (\<lambda>a b. root_key l a < root_key l b) (ns i)" using assms(1) by (simp add: sl_wf_def)
    then have less: "\<forall>x \<in> set pre. root_key l x < r" using e by (auto simp: n sorted_wrt_append)
    have "chain (\<lambda>e. gr_forward (gl_cells l e) i) e post"
      using chain_suffix [of "\<lambda>e. gr_forward (gl_cells l e) i" "gl_self l" "pre @ [e]" post] c n by simp
    then have "root_walk (gl_cells l) i r e = Some (last (e # takeWhile (\<lambda>x. root_key l x < r) post))"
      using root_walk_chain [of "gl_cells l" i e post r] by (simp add: root_key_def)
    then show ?thesis using less e by (simp add: pred_cell_def n takeWhile_append2)
  }
qed

lemma pred_cell_below:
  assumes "sl_wf l ns"
  shows "pred_cell l ns r (Suc i) = gl_self l \<or>
    pred_cell l ns r (Suc i) \<in> set (ns i) \<and> root_key l (pred_cell l ns r (Suc i)) < r"
proof -
  let ?t = "takeWhile (\<lambda>e. root_key l e < r) (ns (Suc i))"
  have "last ?t \<in> set (ns i) \<and> root_key l (last ?t) < r" if "?t \<noteq> []"
    using last_in_set [OF that] assms set_takeWhileD [of "last ?t" "\<lambda>e. root_key l e < r" "ns (Suc i)"]
    by (auto simp: sl_wf_def)
  then show ?thesis by (auto simp: pred_cell_def)
qed

lemma root_search_finds:
  assumes "sl_wf l ns" "e = gl_self l \<or> e \<in> set (ns i) \<and> root_key l e < r"
  shows "root_search (gl_cells l) r i e upd =
    Some (\<lambda>j. if j \<le> i then pred_cell l ns r j else upd j, pred_cell l ns r 0)"
  using assms(2)
proof (induction i arbitrary: e upd)
  case 0
  then show ?case using root_walk_level [OF assms(1), of e 0 r] by (auto simp: fun_eq_iff)
next
  case (Suc i)
  have "root_search (gl_cells l) r (Suc i) e upd =
      root_search (gl_cells l) r i (pred_cell l ns r (Suc i)) (upd(Suc i := pred_cell l ns r (Suc i)))"
    using root_walk_level [OF assms(1) Suc.prems] by simp
  also have "\<dots> = Some (\<lambda>j. if j \<le> i then pred_cell l ns r j else (upd(Suc i := pred_cell l ns r (Suc i))) j, pred_cell l ns r 0)"
    by (rule Suc.IH [OF pred_cell_below [OF assms(1)]])
  also have "(\<lambda>j. if j \<le> i then pred_cell l ns r j else (upd(Suc i := pred_cell l ns r (Suc i))) j) =
      (\<lambda>j. if j \<le> Suc i then pred_cell l ns r j else upd j)"
    by (auto simp: fun_eq_iff le_Suc_eq)
  finally show ?case .
qed

text \<open>The first cell from \<open>r\<close> on, which the code compares with \<open>r\<close>.\<close>

lemma pred_cell_next:
  assumes "sl_wf l ns"
  shows "gr_forward (gl_cells l (pred_cell l ns r i)) i =
    (case dropWhile (\<lambda>e. root_key l e < r) (ns i) of [] \<Rightarrow> 0 | x # _ \<Rightarrow> x)"
proof -
  let ?P = "\<lambda>e. root_key l e < r"
  have "chain (\<lambda>e. gr_forward (gl_cells l e) i) (gl_self l) (takeWhile ?P (ns i) @ dropWhile ?P (ns i))"
    using assms by (simp add: sl_wf_def)
  then have "chain (\<lambda>e. gr_forward (gl_cells l e) i) (pred_cell l ns r i) (dropWhile ?P (ns i))"
    unfolding pred_cell_def by (rule chain_suffix)
  then show ?thesis by (rule chain_next)
qed

lemma sl_wf_nonzero: "sl_wf l ns \<Longrightarrow> x \<in> set (ns i) \<Longrightarrow> x \<noteq> 0"
proof -
  have "chain fw e xs \<Longrightarrow> x \<in> set xs \<Longrightarrow> x \<noteq> 0" for fw e xs by (induction xs arbitrary: e) auto
  then show "sl_wf l ns \<Longrightarrow> x \<in> set (ns i) \<Longrightarrow> x \<noteq> 0" by (auto simp: sl_wf_def)
qed

lemma sl_wf_present:
  fixes r :: u64
  assumes "sl_wf l ns"
  defines "e \<equiv> gr_forward (gl_cells l (pred_cell l ns r 0)) 0"
  shows "e \<noteq> 0 \<and> root_key l e = r \<longleftrightarrow> r \<in> root_key l ` set (ns 0)"
    and "e \<noteq> 0 \<and> root_key l e = r \<Longrightarrow> e \<in> set (ns 0)"
proof -
  let ?dw = "dropWhile (\<lambda>e. root_key l e < r) (ns 0)"
  have e: "e = (case ?dw of [] \<Rightarrow> 0 | x # _ \<Rightarrow> x)" unfolding e_def by (rule pred_cell_next [OF assms(1)])
  have "sorted_wrt (\<lambda>a b. root_key l a < root_key l b) (ns 0)" using assms(1) by (simp add: sl_wf_def)
  note f = sorted_find [OF this, of r]
  have nz: "x \<noteq> 0 \<and> x \<in> set (ns 0)" if "x \<in> set ?dw" for x
    using sl_wf_nonzero [OF assms(1), of x 0] set_dropWhileD [OF that] by simp
  show "e \<noteq> 0 \<and> root_key l e = r \<longleftrightarrow> r \<in> root_key l ` set (ns 0)"
    unfolding f e using nz by (cases ?dw) (simp_all del: dropWhile_eq_Nil_conv)
  show "e \<in> set (ns 0)" if "e \<noteq> 0 \<and> root_key l e = r"
    using that nz unfolding e by (cases ?dw) (simp_all del: dropWhile_eq_Nil_conv)
qed


section \<open>Insertion\<close>

lemma set_forward_simps:
  "gr_root (set_forward x i f c y) = gr_root (c y)"
  "gr_forward (set_forward x i f c y) j = (if y = x \<and> j = i then f else gr_forward (c y) j)"
  by (auto simp: set_forward_def)

lemma link_levels_root: "gr_root (link_levels n e upd c x) = gr_root (c x)"
  by (induction n) (simp_all add: Let_def set_forward_simps)

lemma link_levels_forward:
  "(\<And>i. i < n \<Longrightarrow> upd i \<noteq> e) \<Longrightarrow>
   gr_forward (link_levels n e upd c x) i =
     (if i < n then if x = upd i then e else if x = e then gr_forward (c (upd i)) i else gr_forward (c x) i
      else gr_forward (c x) i)"
proof (induction n arbitrary: x)
  case (Suc n)
  then show ?case by (auto simp: Let_def set_forward_simps less_Suc_eq)
qed simp

lemma random_level_loop_returns:
  "m \<le> 16 \<Longrightarrow> \<exists>k. random_level_loop (push_bit (2 * m) r) n = Some k \<and> k \<le> n + (16 - m)"
proof (induction "16 - m" arbitrary: m n)
  case 0
  then have "push_bit (2 * m) r = 0" by (auto intro!: bit_eqI simp: bit_simps)
  then show ?case by (subst random_level_loop.simps) simp
next
  case (Suc d)
  have "push_bit 2 (push_bit (2 * m) r) = push_bit (2 * (m + 1)) r" by (simp add: add.commute)
  moreover have "m + 1 \<le> 16" "d = 16 - (m + 1)" using Suc.hyps(2) by simp_all
  then obtain k where "random_level_loop (push_bit (2 * (m + 1)) r) (n + 1) = Some k" "k \<le> (n + 1) + (16 - (m + 1))"
    using Suc.hyps(1) [of "m + 1" "n + 1"] by blast
  ultimately show ?case using Suc.hyps(2) by (subst random_level_loop.simps) auto
qed

lemma random_level_bound: "\<exists>seed' k. random_level seed = Some (seed', k) \<and> k < NUM_LEVELS"
  using random_level_loop_returns [of 0 "seed * 69069 + 25173" 0]
  by (auto simp: random_level_def Let_def NUM_LEVELS_def less_Suc_eq_le)


definition inserted :: "global_root_list \<Rightarrow> (nat \<Rightarrow> u64 list) \<Rightarrow> u64 \<Rightarrow> u64 \<Rightarrow> nat \<Rightarrow> (nat \<Rightarrow> u64 list)" where
  "inserted l ns r e k i =
     (if i \<le> k then takeWhile (\<lambda>x. root_key l x < r) (ns i) @ e # dropWhile (\<lambda>x. root_key l x < r) (ns i) else ns i)"

lemma set_inserted: "set (inserted l ns r e k i) = (if i \<le> k then insert e (set (ns i)) else set (ns i))"
  by (auto simp: inserted_def dest: set_takeWhileD set_dropWhileD)
     (metis Un_iff set_append takeWhile_dropWhile_id)

lemma sorted_split:
  assumes "sorted_wrt (\<lambda>a b. f a < (f b :: 'k :: linorder)) xs" "r \<notin> f ` set xs" "f e = r"
  shows "sorted_wrt (\<lambda>a b. f a < f b) (takeWhile (\<lambda>x. f x < r) xs @ e # dropWhile (\<lambda>x. f x < r) xs)"
  using assms by (induction xs) (auto dest: set_takeWhileD set_dropWhileD)

lemma link_levels_wf:
  fixes r :: u64
  assumes "sl_wf l ns" "r \<notin> root_key l ` set (ns 0)" "e \<noteq> 0" "e \<noteq> gl_self l" "e \<notin> set (ns 0)"
    and "\<And>i. i \<le> k \<Longrightarrow> upd i = pred_cell l ns r i"
  defines "l' \<equiv> l\<lparr> gl_level := max (gl_level l) k,
      gl_cells := link_levels (k + 1) e upd ((gl_cells l)(e := (gl_cells l e)\<lparr> gr_root := r \<rparr>)) \<rparr>"
  shows "sl_wf l' (inserted l ns r e k)" "root_key l' e = r" "x \<noteq> e \<Longrightarrow> root_key l' x = root_key l x"
proof -
  let ?P = "\<lambda>x. root_key l x < r" and ?c = "(gl_cells l)(e := (gl_cells l e)\<lparr> gr_root := r \<rparr>)"
  show ke: "root_key l' e = r" and kx: "x \<noteq> e \<Longrightarrow> root_key l' x = root_key l x" for x
    by (simp_all add: root_key_def l'_def link_levels_root del: link_levels.simps)
  have pe: "pred_cell l ns r i \<noteq> e" for i
    using assms(4,5) sl_wf_levels [OF assms(1), of i] set_takeWhileD [of e ?P "ns i"]
    by (auto simp: pred_cell_def dest!: last_in_set dest: set_takeWhileD)
  have fw: "gr_forward (gl_cells l' x) i =
      (if i \<le> k then if x = pred_cell l ns r i then e
         else if x = e then gr_forward (gl_cells l (pred_cell l ns r i)) i else gr_forward (gl_cells l x) i
       else gr_forward (gl_cells l x) i)" for x i
    using link_levels_forward [of "k + 1" upd e ?c x i] assms(6) pe by (simp add: l'_def less_Suc_eq_le del: link_levels.simps)
  have lev: "chain (\<lambda>x. gr_forward (gl_cells l' x) i) (gl_self l) (inserted l ns r e k i)" for i
  proof (cases "i \<le> k")
    case True
    have c1: "chain (\<lambda>x. gr_forward (gl_cells l x) i) (gl_self l) (takeWhile ?P (ns i) @ dropWhile ?P (ns i))"
      using assms(1) by (simp add: sl_wf_def)
    have c2: "distinct (gl_self l # takeWhile ?P (ns i) @ dropWhile ?P (ns i))"
      using sl_wf_distinct [OF assms(1), of i] by simp
    have c3: "e \<notin> set (gl_self l # takeWhile ?P (ns i) @ dropWhile ?P (ns i))"
      using assms(4,5) sl_wf_levels [OF assms(1), of i] by auto
    have "chain ((\<lambda>x. gr_forward (gl_cells l x) i)(pred_cell l ns r i := e,
        e := gr_forward (gl_cells l (pred_cell l ns r i)) i)) (gl_self l) (inserted l ns r e k i)"
      unfolding inserted_def pred_cell_def if_P [OF True] by (rule chain_insert [OF c1 c2 assms(3) c3])
    then show ?thesis by (rule chain_cong) (use True pe in \<open>auto simp: fw\<close>)
  next
    case False
    then show ?thesis using assms(1) by (simp add: fw inserted_def sl_wf_def)
  qed
  have srt: "sorted_wrt (\<lambda>a b. root_key l' a < root_key l' b) (inserted l ns r e k i)" for i
  proof -
    have ni: "e \<notin> set (ns i)" "r \<notin> root_key l ` set (ns i)"
      using assms(2,5) sl_wf_levels [OF assms(1), of i] by auto
    then have same: "\<forall>x \<in> set (ns i). root_key l' x = root_key l x" using kx by metis
    have "sorted_wrt (\<lambda>a b. root_key l a < root_key l b) (ns i)" using assms(1) by (simp add: sl_wf_def)
    then have s: "sorted_wrt (\<lambda>a b. root_key l' a < root_key l' b) (ns i)"
      by (rule sorted_wrt_mono_rel [rotated]) (use same in auto)
    have "r \<notin> root_key l' ` set (ns i)" using ni(2) same by auto
    moreover have "takeWhile (\<lambda>x. root_key l' x < r) (ns i) = takeWhile ?P (ns i)"
        "dropWhile (\<lambda>x. root_key l' x < r) (ns i) = dropWhile ?P (ns i)"
      by (rule takeWhile_cong dropWhile_cong, use same in \<open>simp_all\<close>)+
    ultimately show ?thesis using sorted_split [OF s _ ke] s by (simp add: inserted_def)
  qed
  have sub: "set (inserted l ns r e k (Suc i)) \<subseteq> set (inserted l ns r e k i)" for i
    using assms(1) by (auto simp: set_inserted sl_wf_def)
  have top: "inserted l ns r e k i = []" if "gl_level l' < i" for i
    using assms(1) that by (simp add: inserted_def sl_wf_def l'_def)
  have hd: "gl_self l' = gl_self l" by (simp add: l'_def)
  have "gl_self l \<notin> set (inserted l ns r e k 0)" using assms(1,4) by (simp add: set_inserted sl_wf_def)
  then show "sl_wf l' (inserted l ns r e k)" unfolding sl_wf_def hd using lev srt sub top by blast
qed

lemma image_insert_fresh:
  "f' e = r \<Longrightarrow> (\<And>x. x \<noteq> e \<Longrightarrow> f' x = f x) \<Longrightarrow> e \<notin> A \<Longrightarrow> f' ` insert e A = insert r (f ` A)"
  by (metis (no_types, lifting) image_cong image_insert)

lemma caml_insert_global_root_correct:
  assumes w: "sl_wf l ns" and fresh: "\<And>z. malloc lib z \<noteq> 0 \<and> malloc lib z \<notin> insert (gl_self l) (set (ns 0))"
  shows "\<exists>l' seed' ns'. caml_insert_global_root lib r (l, seed) = Value (l', seed') \<and> sl_wf l' ns' \<and>
    gl_self l' = gl_self l \<and> root_key l' ` set (ns' 0) = insert r (root_key l ` set (ns 0)) \<and>
    set (ns' 0) \<subseteq> set (ns 0) \<union> range (malloc lib)"
proof -
  let ?upd = "\<lambda>j. if j \<le> gl_level l then pred_cell l ns r j else 0"
  let ?e = "gr_forward (gl_cells l (pred_cell l ns r 0)) 0"
  have s: "root_search (gl_cells l) r (gl_level l) (gl_self l) (\<lambda>_. 0) = Some (?upd, pred_cell l ns r 0)"
    using root_search_finds [OF w] by simp
  note p = sl_wf_present [OF w, of r]
  show ?thesis
  proof (cases "r \<in> root_key l ` set (ns 0)")
    case True
    then have "caml_insert_global_root lib r (l, seed) = Value (l, seed)"
      using p(1) by (simp add: caml_insert_global_root_def s Let_def root_key_def)
    then show ?thesis using w True by blast
  next
    case False
    obtain seed' k where k: "random_level seed = Some (seed', k)" using random_level_bound by blast
    let ?a = "malloc lib (16 + 8 * of_nat k)"
    let ?u = "\<lambda>i. if gl_level l < i \<and> i \<le> k then gl_self l else ?upd i"
    have u: "?u i = pred_cell l ns r i" if "i \<le> k" for i
      using that w by (auto simp: pred_cell_def sl_wf_def)
    define l' where "l' = l\<lparr> gl_level := max (gl_level l) k,
      gl_cells := link_levels (k + 1) ?a ?u ((gl_cells l)(?a := (gl_cells l ?a)\<lparr> gr_root := r \<rparr>)) \<rparr>"
    have a: "?a \<noteq> 0" "?a \<noteq> gl_self l" "?a \<notin> set (ns 0)" using fresh by auto
    have v: "caml_insert_global_root lib r (l, seed) = Value (l', seed')"
      using False p(1) a(1)
      by (auto simp: caml_insert_global_root_def s k Let_def root_key_def max_def l'_def simp del: link_levels.simps)
    have wf: "sl_wf l' (inserted l ns r ?a k)" "root_key l' ?a = r"
      "\<And>x. x \<noteq> ?a \<Longrightarrow> root_key l' x = root_key l x"
      using link_levels_wf [OF w False a u] unfolding l'_def by auto
    have self: "gl_self l' = gl_self l" by (simp add: l'_def)
    have keys: "root_key l' ` set (inserted l ns r ?a k 0) = insert r (root_key l ` set (ns 0))"
      using image_insert_fresh [of "root_key l'" ?a r "root_key l" "set (ns 0)"] wf(2,3) a(3) by (simp add: set_inserted)
    have "set (inserted l ns r ?a k 0) \<subseteq> set (ns 0) \<union> range (malloc lib)" unfolding set_inserted by auto
    then show ?thesis using v wf(1) self keys by blast
  qed
qed

section \<open>Deletion\<close>

lemma unlink_levels_root: "gr_root (unlink_levels n e upd c x) = gr_root (c x)"
  by (induction n) (simp_all add: Let_def set_forward_simps)

lemma unlink_levels_forward:
  "gr_forward (unlink_levels n e upd c x) i =
     (if i < n \<and> x = upd i \<and> gr_forward (c x) i = e then gr_forward (c e) i else gr_forward (c x) i)"
  by (induction n arbitrary: x) (auto simp: Let_def set_forward_simps less_Suc_eq)

lemma lower_level_above: "lower_level fw n < i \<Longrightarrow> i \<le> n \<Longrightarrow> fw i = 0"
  by (induction n) (auto simp: le_Suc_eq split: if_splits)

lemma sorted_drop_key:
  assumes "sorted_wrt (\<lambda>a b. f a < (f b :: 'k :: linorder)) xs"
  shows "(case dropWhile (\<lambda>x. f x < f e) xs of [] \<Rightarrow> False | x # _ \<Rightarrow> x = e) \<longleftrightarrow> e \<in> set xs"
    and "e \<in> set xs \<Longrightarrow> xs = takeWhile (\<lambda>x. f x < f e) xs @ e # tl (dropWhile (\<lambda>x. f x < f e) xs)"
  using assms by (induction xs) auto

lemma sorted_key_inj: "sorted_wrt (\<lambda>a b. f a < (f b :: 'k :: order)) xs \<Longrightarrow> inj_on f (set xs)"
  by (induction xs) (auto simp: image_iff)

lemma filter_neq: "e \<notin> set xs \<Longrightarrow> e \<notin> set ys \<Longrightarrow> filter (\<lambda>x. x \<noteq> e) (xs @ e # ys) = xs @ ys"
  by (simp add: filter_id_conv) (metis (mono_tags, lifting) filter_True)

lemma unlink_levels_wf:
  assumes "sl_wf l ns" "e \<in> set (ns 0)" and "\<And>i. i \<le> gl_level l \<Longrightarrow> upd i = pred_cell l ns (root_key l e) i"
  defines "c \<equiv> unlink_levels (gl_level l + 1) e upd (gl_cells l)"
  defines "l' \<equiv> l\<lparr> gl_cells := c, gl_level := lower_level (gr_forward (c (gl_self l))) (gl_level l) \<rparr>"
  shows "sl_wf l' (\<lambda>i. filter (\<lambda>x. x \<noteq> e) (ns i))" and "root_key l' = root_key l"
proof -
  let ?P = "\<lambda>x. root_key l x < root_key l e" and ?ns = "\<lambda>i. filter (\<lambda>x. x \<noteq> e) (ns i)"
  show keys: "root_key l' = root_key l"
    by (simp add: fun_eq_iff root_key_def l'_def c_def unlink_levels_root del: unlink_levels.simps)
  have srt: "sorted_wrt (\<lambda>a b. root_key l a < root_key l b) (ns i)" for i using assms(1) by (simp add: sl_wf_def)
  have nz: "e \<noteq> 0" using sl_wf_nonzero [OF assms(1,2)] .
  have hit: "gr_forward (gl_cells l (pred_cell l ns (root_key l e) i)) i = e \<longleftrightarrow> e \<in> set (ns i)" for i
    unfolding pred_cell_next [OF assms(1)] sorted_drop_key(1) [OF srt [of i], of e, symmetric]
    using nz by (auto split: list.splits simp del: dropWhile_eq_Nil_conv)
  have fw: "gr_forward (c x) i = (if x = pred_cell l ns (root_key l e) i \<and> e \<in> set (ns i)
      then gr_forward (gl_cells l e) i else gr_forward (gl_cells l x) i)" for x i
    using hit [of i] assms(1,3)
    by (cases "i \<le> gl_level l") (auto simp: c_def unlink_levels_forward sl_wf_def simp del: unlink_levels.simps)
  have lev: "chain (\<lambda>x. gr_forward (c x) i) (gl_self l) (?ns i)" for i
  proof (cases "e \<in> set (ns i)")
    case True
    let ?t = "takeWhile ?P (ns i)" and ?d = "tl (dropWhile ?P (ns i))"
    note n = sorted_drop_key(2) [OF srt True]
    have d: "distinct (gl_self l # ?t @ e # ?d)" using sl_wf_distinct [OF assms(1), of i] n by simp
    have "chain (\<lambda>x. gr_forward (gl_cells l x) i) (gl_self l) (?t @ e # ?d)"
      using assms(1) n by (simp add: sl_wf_def)
    then have "chain ((\<lambda>x. gr_forward (gl_cells l x) i)(pred_cell l ns (root_key l e) i := gr_forward (gl_cells l e) i))
        (gl_self l) (?t @ ?d)"
      unfolding pred_cell_def by (rule chain_remove [OF _ d])
    moreover have "?ns i = ?t @ ?d"
      using arg_cong [OF n, of "filter (\<lambda>x. x \<noteq> e)"] filter_neq [of e ?t ?d] d by simp
    ultimately show ?thesis by (auto simp: fw True elim!: chain_cong)
  next
    case False
    then have "?ns i = ns i" by (auto simp: filter_id_conv)
    with False show ?thesis using assms(1) by (simp add: fw sl_wf_def)
  qed
  have top: "?ns i = []" if "gl_level l' < i" for i
  proof (cases "i \<le> gl_level l")
    case True
    then have "gr_forward (c (gl_self l)) i = 0" using that lower_level_above by (simp add: l'_def)
    with lev [of i] show ?thesis by (cases "?ns i") auto
  qed (use assms(1) in \<open>simp add: sl_wf_def\<close>)
  have "set (?ns (Suc i)) \<subseteq> set (?ns i)" for i using assms(1) by (auto simp: sl_wf_def)
  moreover have "sorted_wrt (\<lambda>a b. root_key l a < root_key l b) (?ns i)" for i using srt by (rule sorted_wrt_filter)
  moreover have "gl_self l \<notin> set (?ns 0)" using assms(1) by (simp add: sl_wf_def)
  moreover have "gl_self l' = gl_self l" "gl_cells l' = c" by (simp_all add: l'_def)
  ultimately show "sl_wf l' ?ns" unfolding sl_wf_def keys using lev top by simp
qed

lemma caml_delete_global_root_correct:
  assumes w: "sl_wf l ns"
  shows "\<exists>l' ns'. caml_delete_global_root r l = Some l' \<and> sl_wf l' ns' \<and> gl_self l' = gl_self l \<and>
    root_key l' ` set (ns' 0) = root_key l ` set (ns 0) - {r} \<and> set (ns' 0) \<subseteq> set (ns 0)"
proof -
  let ?upd = "\<lambda>j. if j \<le> gl_level l then pred_cell l ns r j else 0"
  let ?e = "gr_forward (gl_cells l (pred_cell l ns r 0)) 0"
  have s: "root_search (gl_cells l) r (gl_level l) (gl_self l) (\<lambda>_. 0) = Some (?upd, pred_cell l ns r 0)"
    using root_search_finds [OF w] by simp
  note p = sl_wf_present [OF w, of r]
  show ?thesis
  proof (cases "r \<in> root_key l ` set (ns 0)")
    case False
    then have "caml_delete_global_root r l = Some l"
      using p(1) by (auto simp: caml_delete_global_root_def s Let_def root_key_def)
    then show ?thesis using w False by blast
  next
    case True
    then have e: "?e \<noteq> 0" "root_key l ?e = r" "?e \<in> set (ns 0)" using p by blast+
    define c where "c = unlink_levels (gl_level l + 1) ?e ?upd (gl_cells l)"
    define l' where "l' = l\<lparr> gl_cells := c, gl_level := lower_level (gr_forward (c (gl_self l))) (gl_level l) \<rparr>"
    have v: "caml_delete_global_root r l = Some l'"
      using e by (simp add: caml_delete_global_root_def s Let_def root_key_def l'_def c_def del: unlink_levels.simps)
    have wf: "sl_wf l' (\<lambda>i. filter (\<lambda>x. x \<noteq> ?e) (ns i))" "root_key l' = root_key l"
      using unlink_levels_wf [OF w e(3), of ?upd] unfolding l'_def c_def e(2) by simp_all
    have "inj_on (root_key l) (set (ns 0))"
      using w sorted_key_inj [of "root_key l" "ns 0"] by (simp add: sl_wf_def)
    then have "root_key l ` set (filter (\<lambda>x. x \<noteq> ?e) (ns 0)) = root_key l ` set (ns 0) - {r}"
      using e(2,3) by (auto simp: inj_on_def)
    moreover have "gl_self l' = gl_self l" by (simp add: l'_def)
    ultimately show ?thesis using v wf by (intro exI [of _ l'] exI [of _ "\<lambda>i. filter (\<lambda>x. x \<noteq> ?e) (ns i)"]) auto
  qed
qed

lemma caml_insert_present:
  assumes w: "sl_wf l ns" and r: "r \<in> root_key l ` set (ns 0)"
  shows "caml_insert_global_root lib r (l, seed) = Value (l, seed)"
proof -
  obtain upd where "root_search (gl_cells l) r (gl_level l) (gl_self l) (\<lambda>_. 0) = Some (upd, pred_cell l ns r 0)"
    using root_search_finds [OF w] by simp
  then show ?thesis using sl_wf_present [OF w, of r] r by (simp add: caml_insert_global_root_def Let_def root_key_def)
qed

lemma caml_delete_absent:
  assumes w: "sl_wf l ns" and r: "r \<notin> root_key l ` set (ns 0)"
  shows "caml_delete_global_root r l = Some l"
proof -
  obtain upd where "root_search (gl_cells l) r (gl_level l) (gl_self l) (\<lambda>_. 0) = Some (upd, pred_cell l ns r 0)"
    using root_search_finds [OF w] by simp
  then show ?thesis using sl_wf_present [OF w, of r] r by (auto simp: caml_delete_global_root_def Let_def root_key_def)
qed

section \<open>Scanning and emptying\<close>

lemma root_addresses_chain: "chain (\<lambda>e. gr_forward (c e) 0) e xs \<Longrightarrow>
  root_addresses c (gr_forward (c e) 0) = Some (map (\<lambda>x. gr_root (c x)) xs)"
proof (induction xs arbitrary: e)
  case Nil
  then show ?case by (subst root_addresses.simps) simp
next
  case (Cons x xs)
  then show ?case using Cons.IH [of x] by (subst root_addresses.simps) simp
qed

lemma registered_correct: "sl_wf l ns \<Longrightarrow> registered l = Some (map (root_key l) (ns 0))"
  unfolding registered_def root_key_def by (rule root_addresses_chain) (simp add: sl_wf_def)

lemma caml_empty_global_roots_correct:
  assumes "sl_wf l ns"
  shows "\<exists>l'. caml_empty_global_roots l = Some l' \<and> sl_wf l' (\<lambda>_. []) \<and> gl_self l' = gl_self l"
proof -
  have "gr_forward (gl_cells l (gl_self l)) i = 0" if "gl_level l < i" for i
    using assms that by (auto simp: sl_wf_def dest!: spec [of _ i])
  then show ?thesis using registered_correct [OF assms] by (auto simp: caml_empty_global_roots_def sl_wf_def)
qed

section \<open>The contract of a registry\<close>

text \<open>
  A skip list holds a set \<open>R\<close> of roots in cells that all lie in \<open>C\<close>; an allocator serves an insertion when it answers
  addresses outside \<open>C\<close>.
\<close>

definition sl_holds :: "global_root_list \<Rightarrow> u64 set \<Rightarrow> u64 set \<Rightarrow> bool" where
  "sl_holds l C R \<longleftrightarrow> (\<exists>ns. sl_wf l ns \<and> insert (gl_self l) (set (ns 0)) \<subseteq> C \<and> R = root_key l ` set (ns 0))"

definition mallocs_outside :: "libc \<Rightarrow> u64 set \<Rightarrow> bool" where
  "mallocs_outside lib C \<longleftrightarrow> (\<forall>z. malloc lib z \<noteq> 0 \<and> malloc lib z \<notin> C)"

text \<open>The cells in use: the header and the cells linked at level 0.\<close>

partial_function (option) linked_cells :: "(u64 \<Rightarrow> global_root) \<Rightarrow> u64 \<Rightarrow> u64 list option" where
  "linked_cells c gr =
     (if gr = 0 then Some [] else Option.bind (linked_cells c (gr_forward (c gr) 0)) (\<lambda>es. Some (gr # es)))"

declare linked_cells.simps [code]

definition live_cells :: "global_root_list \<Rightarrow> u64 set" where
  "live_cells l =
     insert (gl_self l) (case linked_cells (gl_cells l) (gr_forward (gl_cells l (gl_self l)) 0) of None \<Rightarrow> {} | Some es \<Rightarrow> set es)"

lemma linked_cells_chain: "chain (\<lambda>e. gr_forward (c e) 0) e xs \<Longrightarrow> linked_cells c (gr_forward (c e) 0) = Some xs"
proof (induction xs arbitrary: e)
  case Nil
  then show ?case by (subst linked_cells.simps) simp
next
  case (Cons x xs)
  then show ?case using Cons.IH [of x] by (subst linked_cells.simps) simp
qed

lemma live_cells_wf: "sl_wf l ns \<Longrightarrow> live_cells l = insert (gl_self l) (set (ns 0))"
  using linked_cells_chain [of "gl_cells l" "gl_self l" "ns 0"] by (simp add: live_cells_def sl_wf_def)

lemma sl_holds_live: "sl_holds l C R \<Longrightarrow> sl_holds l (live_cells l) R \<and> live_cells l \<subseteq> C"
  unfolding sl_holds_def using live_cells_wf by blast

text \<open>Allocations with no deallocation between them: the answers lie outside \<open>C\<close> and differ from each other.\<close>

definition mallocs_apart :: "nat \<Rightarrow> (nat \<Rightarrow> libc) \<Rightarrow> u64 set \<Rightarrow> bool" where
  "mallocs_apart n libs C \<longleftrightarrow> (\<forall>i < n. mallocs_outside (libs i) C) \<and>
     (\<forall>j < n. \<forall>i < j. \<forall>y z. malloc (libs i) y \<noteq> malloc (libs j) z)"

lemma mallocs_apart_outside: "mallocs_apart n libs C \<Longrightarrow> 0 < n \<Longrightarrow> mallocs_outside (libs 0) C"
  by (simp add: mallocs_apart_def)

lemma mallocs_apart_next:
  "mallocs_apart (Suc n) libs C \<Longrightarrow> mallocs_apart n (\<lambda>i. libs (i + 1)) (C \<union> range (malloc (libs 0)))"
  unfolding mallocs_apart_def mallocs_outside_def by (auto simp: all_conj_distrib) (metis Suc_less_eq zero_less_Suc)+

datatype root_op = Insert_root u64 | Delete_root u64

fun root_ops ::
  "(libc \<Rightarrow> u64 \<Rightarrow> 'l \<times> u32 \<Rightarrow> ('l \<times> u32) outcome) \<Rightarrow> (u64 \<Rightarrow> 'l \<Rightarrow> 'l option) \<Rightarrow> (nat \<Rightarrow> libc) \<Rightarrow> root_op list \<Rightarrow>
   'l \<times> u32 \<Rightarrow> ('l \<times> u32) outcome" where
  "root_ops ins del libs [] ls = Value ls"
| "root_ops ins del libs (Insert_root r # ops) ls =
     and_then (ins (libs 0) r ls) (root_ops ins del (\<lambda>i. libs (i + 1)) ops)"
| "root_ops ins del libs (Delete_root r # ops) (l, seed) =
     and_then (returning (del r l)) (\<lambda>l. root_ops ins del libs ops (l, seed))"

fun root_op_set :: "root_op \<Rightarrow> u64 set \<Rightarrow> u64 set" where
  "root_op_set (Insert_root r) R = insert r R"
| "root_op_set (Delete_root r) R = R - {r}"

text \<open>In the course of the operations every allocation answers an address that is not in use at that time; an address that
  a deletion has released may be answered again.\<close>

fun allocs_fresh ::
  "('l \<Rightarrow> u64 set) \<Rightarrow> (libc \<Rightarrow> u64 \<Rightarrow> 'l \<times> u32 \<Rightarrow> ('l \<times> u32) outcome) \<Rightarrow> (u64 \<Rightarrow> 'l \<Rightarrow> 'l option) \<Rightarrow> (nat \<Rightarrow> libc) \<Rightarrow>
   root_op list \<Rightarrow> 'l \<times> u32 \<Rightarrow> bool" where
  "allocs_fresh cells ins del libs [] ls \<longleftrightarrow> True"
| "allocs_fresh cells ins del libs (Insert_root r # ops) ls \<longleftrightarrow>
     mallocs_outside (libs 0) (cells (fst ls)) \<and>
     (case ins (libs 0) r ls of Value ls \<Rightarrow> allocs_fresh cells ins del (\<lambda>i. libs (i + 1)) ops ls | _ \<Rightarrow> True)"
| "allocs_fresh cells ins del libs (Delete_root r # ops) (l, seed) \<longleftrightarrow>
     (case del r l of Some l \<Rightarrow> allocs_fresh cells ins del libs ops (l, seed) | None \<Rightarrow> True)"

locale root_registry =
  fixes ins :: "libc \<Rightarrow> u64 \<Rightarrow> 'l \<times> u32 \<Rightarrow> ('l \<times> u32) outcome"
    and del :: "u64 \<Rightarrow> 'l \<Rightarrow> 'l option"
    and contents :: "'l \<Rightarrow> u64 list option"
    and holds :: "'l \<Rightarrow> u64 set \<Rightarrow> u64 set \<Rightarrow> bool"
    and cells :: "'l \<Rightarrow> u64 set"
  assumes ins_holds: "holds l C R \<Longrightarrow> mallocs_outside lib C \<Longrightarrow>
      \<exists>l' seed'. ins lib r (l, seed) = Value (l', seed') \<and> holds l' (C \<union> range (malloc lib)) (insert r R)"
    and del_holds: "holds l C R \<Longrightarrow> \<exists>l'. del r l = Some l' \<and> holds l' C (R - {r})"
    and contents_holds: "holds l C R \<Longrightarrow> finite R \<and> contents l = Some (sorted_list_of_set R)"
    and cells_holds: "holds l C R \<Longrightarrow> holds l (cells l) R \<and> cells l \<subseteq> C"
begin

lemma ops_refine:
  "holds l C R \<Longrightarrow> allocs_fresh cells ins del libs ops (l, seed) \<Longrightarrow>
   \<exists>l' seed' C'. root_ops ins del libs ops (l, seed) = Value (l', seed') \<and> holds l' C' (fold root_op_set ops R)"
proof (induction ops arbitrary: libs l seed C R)
  case Nil
  then show ?case by auto
next
  case (Cons op ops)
  show ?case
  proof (cases op)
    case (Insert_root r)
    then have "mallocs_outside (libs 0) (cells l)" using Cons.prems(2) by simp
    then obtain l' seed' where i: "ins (libs 0) r (l, seed) = Value (l', seed')"
      "holds l' (cells l \<union> range (malloc (libs 0))) (insert r R)"
      using ins_holds [OF cells_holds [OF Cons.prems(1), THEN conjunct1]] by blast
    show ?thesis using Cons.IH [OF i(2)] Cons.prems(2) i(1) by (simp add: Insert_root)
  next
    case (Delete_root r)
    obtain l' where d: "del r l = Some l'" "holds l' C (R - {r})" using del_holds [OF Cons.prems(1)] by blast
    show ?thesis using Cons.IH [OF d(2)] Cons.prems(2) d(1) by (simp add: Delete_root)
  qed
qed

lemma ops_contents:
  assumes "holds l C R" "allocs_fresh cells ins del libs ops (l, seed)"
  shows "\<exists>l' seed'. root_ops ins del libs ops (l, seed) = Value (l', seed') \<and>
    contents l' = Some (sorted_list_of_set (fold root_op_set ops R))"
  using ops_refine [OF assms] contents_holds by blast

lemma all_refine:
  "holds l C R \<Longrightarrow> mallocs_apart (length rs) (\<lambda>j. libs (i + j)) C \<Longrightarrow>
   \<exists>l' seed' C'. insert_all ins libs rs i (l, seed) = Value (l', seed') \<and> holds l' C' (R \<union> set rs)"
proof (induction rs arbitrary: i l seed C R)
  case (Cons r rs)
  then have ap: "mallocs_apart (Suc (length rs)) (\<lambda>j. libs (i + j)) C" by simp
  obtain l' seed' where i: "ins (libs i) r (l, seed) = Value (l', seed')"
    "holds l' (C \<union> range (malloc (libs i))) (insert r R)"
    using ins_holds [OF Cons.prems(1) mallocs_apart_outside [OF ap], of r seed] by auto
  have "mallocs_apart (length rs) (\<lambda>j. libs (i + 1 + j)) (C \<union> range (malloc (libs i)))"
    using mallocs_apart_next [OF ap] by (simp add: add.commute add.left_commute)
  from Cons.IH [OF i(2) this] show ?case using i(1) by simp
qed auto

end

interpretation skip_list: root_registry caml_insert_global_root caml_delete_global_root registered sl_holds live_cells
proof
  fix l :: global_root_list and C R lib r seed
  assume "sl_holds l C R"
  from this obtain ns where n: "sl_wf l ns" "insert (gl_self l) (set (ns 0)) \<subseteq> C" "R = root_key l ` set (ns 0)"
    by (auto simp: sl_holds_def)
  show "sl_holds l (live_cells l) R \<and> live_cells l \<subseteq> C" using \<open>sl_holds l C R\<close> by (rule sl_holds_live)
  show "\<exists>l'. caml_delete_global_root r l = Some l' \<and> sl_holds l' C (R - {r})"
    using caml_delete_global_root_correct [OF n(1), of r] n unfolding sl_holds_def by auto blast
  have s: "sorted_wrt (<) (map (root_key l) (ns 0))" using n(1) by (simp add: sl_wf_def sorted_wrt_map)
  show "finite R \<and> registered l = Some (sorted_list_of_set R)"
    using registered_correct [OF n(1)] s n(3)
      sorted_list_of_set.idem_if_sorted_distinct [of "map (root_key l) (ns 0)"]
    by (simp add: strict_sorted_iff)
  assume "mallocs_outside lib C"
  then have "\<And>z. malloc lib z \<noteq> 0 \<and> malloc lib z \<notin> insert (gl_self l) (set (ns 0))"
    using n(2) unfolding mallocs_outside_def by blast
  from caml_insert_global_root_correct [OF n(1) this, of r seed] obtain l' seed' ns' where
    "caml_insert_global_root lib r (l, seed) = Value (l', seed')" "sl_wf l' ns'" "gl_self l' = gl_self l"
    "root_key l' ` set (ns' 0) = insert r R" "set (ns' 0) \<subseteq> set (ns 0) \<union> range (malloc lib)"
    using n(3) by auto
  then show "\<exists>l' seed'. caml_insert_global_root lib r (l, seed) = Value (l', seed') \<and>
      sl_holds l' (C \<union> range (malloc lib)) (insert r R)"
    using n(2) unfolding sl_holds_def by (intro exI [of _ l'] exI [of _ seed'] conjI exI [of _ ns']) auto
qed

section \<open>Generational roots\<close>

definition roots_hold :: "global_roots \<Rightarrow> u64 set \<Rightarrow> u64 set \<Rightarrow> u64 set \<Rightarrow> u64 set \<Rightarrow> bool" where
  "roots_hold st C G Y O' \<longleftrightarrow> pt_wf (pages st) \<and> sl_holds (caml_global_roots st) C G \<and>
     sl_holds (caml_global_roots_young st) C Y \<and> sl_holds (caml_global_roots_old st) C O'"

text \<open>A generational root is tracked when a minor collection scans it if it holds a young block and a major
  collection scans it if it holds a block of the major heap.\<close>

definition root_tracked :: "global_roots \<Rightarrow> u64 set \<Rightarrow> u64 set \<Rightarrow> u64 \<Rightarrow> bool" where
  "root_tracked st Y O' r \<longleftrightarrow>
     (let v = mem st r
      in Is_block v \<longrightarrow> (Is_young v st \<longrightarrow> r \<in> Y) \<and> (Is_in_heap (pages st) v = Some True \<longrightarrow> r \<in> Y \<union> O'))"

definition traced_value :: "value_t \<Rightarrow> global_roots \<Rightarrow> bool" where
  "traced_value v st \<longleftrightarrow> (Is_block v \<longrightarrow> Is_young v st \<or> Is_in_heap (pages st) v = Some True)"

lemma sl_holds_mono: "sl_holds l C R \<Longrightarrow> C \<subseteq> C' \<Longrightarrow> sl_holds l C' R"
  unfolding sl_holds_def by blast

lemma insert_young_holds:
  assumes "roots_hold st C G Y O'" "mallocs_outside lib (live_cells (caml_global_roots_young st))"
  obtains l seed where "insert_young lib r st = Value (st\<lparr> caml_global_roots_young := l, random_seed := seed \<rparr>)"
    "roots_hold (st\<lparr> caml_global_roots_young := l, random_seed := seed \<rparr>) (C \<union> range (malloc lib)) G (insert r Y) O'"
  using skip_list.ins_holds [of "caml_global_roots_young st" "live_cells (caml_global_roots_young st)" Y lib r "random_seed st"] assms
    sl_holds_live [of "caml_global_roots_young st" C Y] sl_holds_mono [of _ _ _ "C \<union> range (malloc lib)"]
  by (fastforce simp: roots_hold_def insert_young_def)

lemma insert_old_holds:
  assumes "roots_hold st C G Y O'" "r \<notin> O' \<longrightarrow> mallocs_outside lib (live_cells (caml_global_roots_old st))"
  obtains l seed where "insert_old lib r st = Value (st\<lparr> caml_global_roots_old := l, random_seed := seed \<rparr>)"
    "roots_hold (st\<lparr> caml_global_roots_old := l, random_seed := seed \<rparr>) (C \<union> range (malloc lib)) G Y (insert r O')"
proof (cases "r \<in> O'")
  case True
  then have "caml_insert_global_root lib r (caml_global_roots_old st, random_seed st) = Value (caml_global_roots_old st, random_seed st)"
    using assms(1) caml_insert_present by (auto simp: roots_hold_def sl_holds_def)
  with that [where l = "caml_global_roots_old st" and seed = "random_seed st"] True assms(1) sl_holds_mono [of _ C _ "C \<union> range (malloc lib)"] show thesis
    by (auto simp: roots_hold_def insert_old_def insert_absorb)
next
  case False
  then show thesis
    using skip_list.ins_holds [of "caml_global_roots_old st" "live_cells (caml_global_roots_old st)" O' lib r "random_seed st"] assms that
      sl_holds_live [of "caml_global_roots_old st" C O'] sl_holds_mono [of _ _ _ "C \<union> range (malloc lib)"]
    by (fastforce simp: roots_hold_def insert_old_def)
qed

lemma delete_young_holds:
  assumes "roots_hold st C G Y O'"
  obtains l where "delete_young r st = Value (st\<lparr> caml_global_roots_young := l \<rparr>)"
    "roots_hold (st\<lparr> caml_global_roots_young := l \<rparr>) C G (Y - {r}) O'"
  using skip_list.del_holds [of "caml_global_roots_young st" C Y r] assms by (auto simp: roots_hold_def delete_young_def)

lemma delete_old_holds:
  assumes "roots_hold st C G Y O'"
  obtains l where "delete_old r st = Value (st\<lparr> caml_global_roots_old := l \<rparr>)"
    "roots_hold (st\<lparr> caml_global_roots_old := l \<rparr>) C G Y (O' - {r})"
  using skip_list.del_holds [of "caml_global_roots_old st" C O' r] assms by (auto simp: roots_hold_def delete_old_def)

text \<open>What an operation on the lists leaves alone.\<close>

definition same_memory :: "global_roots \<Rightarrow> global_roots \<Rightarrow> bool" where
  "same_memory st st' \<longleftrightarrow> mem st' = mem st \<and> pages st' = pages st \<and> young_start st' = young_start st \<and>
     young_end st' = young_end st"

lemma same_memory_lists:
  "same_memory st st"
  "same_memory st (st\<lparr> caml_global_roots_young := l, random_seed := seed \<rparr>)"
  "same_memory st (st\<lparr> caml_global_roots_old := l, random_seed := seed \<rparr>)"
  "same_memory st (st\<lparr> caml_global_roots_young := l \<rparr>)"
  "same_memory st (st\<lparr> caml_global_roots_old := l \<rparr>)"
  "same_memory st (st\<lparr> caml_global_roots_old := l, caml_global_roots_young := l', random_seed := seed \<rparr>)"
  by (simp_all add: same_memory_def)

lemma by_generation_insert:
  assumes h: "roots_hold st C G Y O'" "mallocs_outside lib (live_cells (caml_global_roots_young st))"
    "r \<notin> O' \<longrightarrow> mallocs_outside lib (live_cells (caml_global_roots_old st))"
  shows "\<exists>st'. by_generation v (insert_young lib r) (insert_old lib r) st = Value st' \<and> same_memory st st' \<and>
    roots_hold st' (C \<union> range (malloc lib)) G (if Is_young v st then insert r Y else Y)
      (if \<not> Is_young v st \<and> Is_in_heap (pages st) v = Some True then insert r O' else O')"
proof -
  have p: "pt_wf (pages st)" using h(1) by (simp add: roots_hold_def)
  obtain b where b: "Is_in_heap (pages st) v = Some b" using Is_in_heap_total [OF p] by blast
  have "roots_hold st (C \<union> range (malloc lib)) G Y O'"
    using h(1) sl_holds_mono [of _ C _ "C \<union> range (malloc lib)"] by (auto simp: roots_hold_def)
  moreover obtain yl ys where "insert_young lib r st = Value (st\<lparr> caml_global_roots_young := yl, random_seed := ys \<rparr>)"
    "roots_hold (st\<lparr> caml_global_roots_young := yl, random_seed := ys \<rparr>) (C \<union> range (malloc lib)) G (insert r Y) O'"
    by (rule insert_young_holds [OF h(1,2)])
  moreover obtain ol os where "insert_old lib r st = Value (st\<lparr> caml_global_roots_old := ol, random_seed := os \<rparr>)"
    "roots_hold (st\<lparr> caml_global_roots_old := ol, random_seed := os \<rparr>) (C \<union> range (malloc lib)) G Y (insert r O')"
    by (rule insert_old_holds [OF h(1,3)])
  ultimately show ?thesis using b by (simp add: by_generation_def same_memory_lists)
qed

lemma by_generation_delete:
  assumes h: "roots_hold st C G Y O'"
  shows "\<exists>st'. by_generation v (delete_young r) (delete_old r) st = Value st' \<and> same_memory st st' \<and>
    roots_hold st' C G (if Is_young v st then Y - {r} else Y)
      (if \<not> Is_young v st \<and> Is_in_heap (pages st) v = Some True then O' - {r} else O')"
proof -
  have p: "pt_wf (pages st)" using h(1) by (simp add: roots_hold_def)
  obtain b where b: "Is_in_heap (pages st) v = Some b" using Is_in_heap_total [OF p] by blast
  moreover obtain yl where "delete_young r st = Value (st\<lparr> caml_global_roots_young := yl \<rparr>)"
    "roots_hold (st\<lparr> caml_global_roots_young := yl \<rparr>) C G (Y - {r}) O'"
    by (rule delete_young_holds [OF h])
  moreover obtain ol where "delete_old r st = Value (st\<lparr> caml_global_roots_old := ol \<rparr>)"
    "roots_hold (st\<lparr> caml_global_roots_old := ol \<rparr>) C G Y (O' - {r})"
    by (rule delete_old_holds [OF h])
  ultimately show ?thesis using h by (simp add: by_generation_def same_memory_lists)
qed

lemma empty_holds:
  assumes "sl_holds l C R"
  shows "\<exists>l'. caml_empty_global_roots l = Some l' \<and> sl_holds l' C {}"
proof -
  obtain ns where n: "sl_wf l ns" "gl_self l \<in> C" using assms by (auto simp: sl_holds_def)
  obtain l' where l': "caml_empty_global_roots l = Some l'" "sl_wf l' (\<lambda>_. [])" "gl_self l' = gl_self l"
    using caml_empty_global_roots_correct [OF n(1)] by blast
  then have "sl_holds l' C {}" unfolding sl_holds_def using n(2) by (intro exI [of _ "\<lambda>_. []"]) simp
  with l'(1) show ?thesis by blast
qed

lemma scan_fold_keeps:
  assumes "\<And>v r st. P st \<Longrightarrow> P (f v r st)"
  shows "P st \<Longrightarrow> P (fold (\<lambda>r st. f (mem st r) r st) rs st)"
  using assms by (induction rs arbitrary: st) auto

text \<open>The cells in use by the three lists, and the state in which a root is not in the old list.\<close>

definition roots_cells :: "global_roots \<Rightarrow> u64 set" where
  "roots_cells st = live_cells (caml_global_roots st) \<union> live_cells (caml_global_roots_young st) \<union> live_cells (caml_global_roots_old st)"

definition unlinked_old :: "u64 \<Rightarrow> global_roots \<Rightarrow> global_roots" where
  "unlinked_old r st =
     (case caml_delete_global_root r (caml_global_roots_old st) of None \<Rightarrow> st | Some l \<Rightarrow> st\<lparr> caml_global_roots_old := l \<rparr>)"

lemma unlinked_old_fresh:
  assumes "roots_hold st C G Y O'" "mallocs_outside lib (roots_cells (unlinked_old r st))"
  shows "mallocs_outside lib (live_cells (caml_global_roots_young st))"
    "r \<notin> O' \<longrightarrow> mallocs_outside lib (live_cells (caml_global_roots_old st))"
proof -
  show "mallocs_outside lib (live_cells (caml_global_roots_young st))"
    using assms(2) by (auto simp: mallocs_outside_def roots_cells_def unlinked_old_def split: option.splits)
  have "caml_delete_global_root r (caml_global_roots_old st) = Some (caml_global_roots_old st)" if "r \<notin> O'"
    using assms(1) that caml_delete_absent by (auto simp: roots_hold_def sl_holds_def)
  then show "r \<notin> O' \<longrightarrow> mallocs_outside lib (live_cells (caml_global_roots_old st))"
    using assms(2) by (auto simp: mallocs_outside_def roots_cells_def unlinked_old_def)
qed

lemma modify_generational_cases:
  assumes h: "roots_hold st C G Y O'" "mallocs_outside lib (roots_cells (unlinked_old r st))" and t: "traced_value (mem st r) st"
    and k: "root_tracked st Y O' r"
  obtains st' C' Y' O'' where
    "caml_modify_generational_global_root lib r v st = Value (st'\<lparr> mem := (mem st')(r := v) \<rparr>)"
    "same_memory st st'" "roots_hold st' C' G Y' O''" "Y' - {r} = Y - {r}" "O'' - {r} = O' - {r}"
    "Is_block v \<longrightarrow> Is_young v st \<longrightarrow> r \<in> Y'" "Is_block v \<longrightarrow> Is_in_heap (pages st) v = Some True \<longrightarrow> r \<in> Y' \<union> O''"
proof -
  let ?old = "mem st r" and ?m = "\<lambda>st'. Value (st'\<lparr> mem := (mem st')(r := v) \<rparr>)"
  have p: "pt_wf (pages st)" using h(1) by (simp add: roots_hold_def)
  obtain b where b: "Is_in_heap (pages st) ?old = Some b" using Is_in_heap_total [OF p] by blast
  consider (young) "Is_block v" "Is_young v st" "Is_block ?old" b
    | (boxed) "\<not> Is_block ?old" "Is_block v"
    | (unboxed) "Is_block ?old" "\<not> Is_block v"
    | (kept) "Is_block ?old \<longleftrightarrow> Is_block v" "\<not> (Is_block v \<and> Is_young v st \<and> Is_block ?old \<and> b)"
    by blast
  then show thesis
  proof cases
    case young
    obtain l where d: "delete_old r st = Value (st\<lparr> caml_global_roots_old := l \<rparr>)"
      "roots_hold (st\<lparr> caml_global_roots_old := l \<rparr>) C G Y (O' - {r})" by (rule delete_old_holds [OF h(1)])
    let ?st = "st\<lparr> caml_global_roots_old := l \<rparr>"
    have f: "mallocs_outside lib (live_cells (caml_global_roots_young ?st))" using unlinked_old_fresh(1) [OF h] by simp
    obtain yl s where i: "insert_young lib r ?st = Value (?st\<lparr> caml_global_roots_young := yl, random_seed := s \<rparr>)"
      "roots_hold (?st\<lparr> caml_global_roots_young := yl, random_seed := s \<rparr>) (C \<union> range (malloc lib)) G (insert r Y) (O' - {r})"
      by (rule insert_young_holds [OF d(2) f])
    have "caml_modify_generational_global_root lib r v st = ?m (?st\<lparr> caml_global_roots_young := yl, random_seed := s \<rparr>)"
      using young b d(1) i(1) by (simp add: caml_modify_generational_global_root_def Let_def)
    from that [OF this _ i(2)] show ?thesis by (simp add: same_memory_def)
  next
    case boxed
    obtain st' where "by_generation v (insert_young lib r) (insert_old lib r) st = Value st'" "same_memory st st'"
      "roots_hold st' (C \<union> range (malloc lib)) G (if Is_young v st then insert r Y else Y)
        (if \<not> Is_young v st \<and> Is_in_heap (pages st) v = Some True then insert r O' else O')"
      using by_generation_insert [OF h(1) unlinked_old_fresh [OF h]] by blast
    with that [of st', OF _ _ this(3)] show ?thesis using boxed by (auto simp: caml_modify_generational_global_root_def Let_def)
  next
    case unboxed
    obtain st' where "by_generation ?old (delete_young r) (delete_old r) st = Value st'" "same_memory st st'"
      "roots_hold st' C G (if Is_young ?old st then Y - {r} else Y)
        (if \<not> Is_young ?old st \<and> Is_in_heap (pages st) ?old = Some True then O' - {r} else O')"
      using by_generation_delete [OF h(1)] by blast
    with that [of st', OF _ _ this(3)] show ?thesis using unboxed by (auto simp: caml_modify_generational_global_root_def Let_def)
  next
    case kept
    then have "caml_modify_generational_global_root lib r v st = ?m st"
      using b by (auto simp: caml_modify_generational_global_root_def Let_def)
    from that [OF this same_memory_lists(1) h(1)] show ?thesis
      using kept t k b by (auto simp: traced_value_def root_tracked_def Let_def)
  qed
qed

text \<open>C5: Any sequence of registrations and removals of roots on a well-formed skip list terminates without an error,
  provided that each allocation succeeds and answers an address that is not a cell of the list at that time; it may
  answer the address of a cell freed before.  The scan of the resulting list then visits each root of the abstract set
  exactly once, in increasing order of address.\<close>

theorem global_roots_refine:
  assumes "sl_holds l C R" "allocs_fresh live_cells caml_insert_global_root caml_delete_global_root libs ops (l, seed)"
  shows "\<exists>l' seed'. root_ops caml_insert_global_root caml_delete_global_root libs ops (l, seed) = Value (l', seed') \<and>
    registered l' = Some (sorted_list_of_set (fold root_op_set ops R))"
  using assms by (rule skip_list.ops_contents)

text \<open>C39: The level of a skip list stays below \<open>NUM_LEVELS\<close>, so that neither \<open>update\<close> nor the header's \<open>forward\<close> is
  indexed out of its bounds: the level drawn for a new cell is less than \<open>NUM_LEVELS\<close> for every seed.
\<close>

theorem insert_level_bounded:
  assumes "gl_level l < NUM_LEVELS" "caml_insert_global_root lib r (l, seed) = Value (l', seed')"
  shows "gl_level l' < NUM_LEVELS"
proof -
  obtain s k where "random_level seed = Some (s, k)" "k < NUM_LEVELS" using random_level_bound by blast
  then show ?thesis using assms
    by (cases "root_search (gl_cells l) r (gl_level l) (gl_self l) (\<lambda>_. 0)")
       (auto simp: caml_insert_global_root_def Let_def split: if_splits simp del: link_levels.simps)
qed

text \<open>C20: Let a generational root hold an integer or a block of the minor or major heap.  Then
  \<open>caml_modify_generational_global_root\<close> gives it the new value and keeps every generational root tracked: a root that
  holds a young block is in the young list and one that holds a block of the major heap is in one of the two lists.  The
  allocation must succeed and answer an address that is not in use, where the cell that the code frees before it counts
  as free.  A root whose old value lies in neither heap is in no list and is not covered.\<close>

theorem modify_generational_tracked:
  assumes "roots_hold st C G Y O'" "mallocs_outside lib (roots_cells (unlinked_old r st))"
    and "traced_value (mem st r) st" "root_tracked st Y O' r"
  shows "\<exists>st' C' Y' O''. caml_modify_generational_global_root lib r v st = Value st' \<and>
    mem st' = (mem st)(r := v) \<and> roots_hold st' C' G Y' O'' \<and> root_tracked st' Y' O'' r \<and>
    (\<forall>q. root_tracked st Y O' q \<longrightarrow> root_tracked st' Y' O'' q)"
proof -
  obtain st' C' Y' O'' where m:
    "caml_modify_generational_global_root lib r v st = Value (st'\<lparr> mem := (mem st')(r := v) \<rparr>)"
    "same_memory st st'" "roots_hold st' C' G Y' O''" "Y' - {r} = Y - {r}" "O'' - {r} = O' - {r}"
    "Is_block v \<longrightarrow> Is_young v st \<longrightarrow> r \<in> Y'" "Is_block v \<longrightarrow> Is_in_heap (pages st) v = Some True \<longrightarrow> r \<in> Y' \<union> O''"
    by (rule modify_generational_cases [OF assms, of v])
  let ?st = "st'\<lparr> mem := (mem st')(r := v) \<rparr>"
  have r: "root_tracked ?st Y' O'' r" using m(2,6,7) by (auto simp: root_tracked_def Let_def same_memory_def Is_young_def)
  have "q \<in> Y' \<longleftrightarrow> q \<in> Y" "q \<in> O'' \<longleftrightarrow> q \<in> O'" if "q \<noteq> r" for q using m(4,5) that by blast+
  then have "root_tracked ?st Y' O'' q" if "root_tracked st Y O' q" for q
    using that r m(2) by (cases "q = r") (auto simp: root_tracked_def Let_def same_memory_def Is_young_def)
  moreover have "roots_hold ?st C' G Y' O''" "mem ?st = (mem st)(r := v)"
    using m(2,3) by (simp_all add: roots_hold_def same_memory_def)
  ultimately show ?thesis using m(1) r by blast
qed

text \<open>A generational root is listed by its value: it is in a list only if its present value is of that generation.\<close>

definition listed_by_value :: "global_roots \<Rightarrow> u64 set \<Rightarrow> u64 set \<Rightarrow> u64 \<Rightarrow> bool" where
  "listed_by_value st Y O' r \<longleftrightarrow>
     (let v = mem st r
      in (r \<in> Y \<longrightarrow> Is_block v \<and> Is_young v st) \<and>
         (r \<in> O' \<longrightarrow> Is_block v \<and> \<not> Is_young v st \<and> Is_in_heap (pages st) v = Some True))"

text \<open>C40: \<open>caml_remove_generational_global_root\<close> unregisters a root that is listed by its value: afterwards the root is in
  neither list, every other root is where it was and the memory is the same.\<close>

theorem remove_generational_root:
  assumes "roots_hold st C G Y O'" "listed_by_value st Y O' r"
  shows "\<exists>st'. caml_remove_generational_global_root r st = Value st' \<and> roots_hold st' C G (Y - {r}) (O' - {r}) \<and> mem st' = mem st"
proof (cases "Is_block (mem st r)")
  case True
  let ?Y = "if Is_young (mem st r) st then Y - {r} else Y"
    and ?O = "if \<not> Is_young (mem st r) st \<and> Is_in_heap (pages st) (mem st r) = Some True then O' - {r} else O'"
  have "?Y = Y - {r}" "?O = O' - {r}" using assms(2) by (auto simp: listed_by_value_def Let_def)
  then show ?thesis
    using by_generation_delete [OF assms(1), of "mem st r" r] True
    by (auto simp: caml_remove_generational_global_root_def same_memory_def)
next
  case False
  then have "Y - {r} = Y" "O' - {r} = O'" using assms(2) by (auto simp: listed_by_value_def Let_def)
  then show ?thesis using False assms(1) by (simp add: caml_remove_generational_global_root_def)
qed

text \<open>C38: The scan for a minor collection applies the action to the roots of unknown age and then to the young roots,
  each once and in increasing order of address, and leaves the young list empty and every young root in the old one.
\<close>

theorem scan_global_young_roots_correct:
  assumes "roots_hold st C G Y O'" "mallocs_apart (card Y) libs C"
    and "\<And>v r st. pages (f v r st) = pages st \<and> caml_global_roots (f v r st) = caml_global_roots st \<and>
      caml_global_roots_young (f v r st) = caml_global_roots_young st \<and>
      caml_global_roots_old (f v r st) = caml_global_roots_old st"
  shows "\<exists>st' C'. caml_scan_global_young_roots libs f st = Value st' \<and> roots_hold st' C' G {} (O' \<union> Y) \<and>
    mem st' = mem (fold (\<lambda>r st. f (mem st r) r st) (sorted_list_of_set G @ sorted_list_of_set Y) st)"
proof -
  let ?scan = "\<lambda>R st. fold (\<lambda>r st. f (mem st r) r st) (sorted_list_of_set R) st"
  have keep: "pages (?scan R s) = pages s \<and> caml_global_roots (?scan R s) = caml_global_roots s \<and>
      caml_global_roots_young (?scan R s) = caml_global_roots_young s \<and>
      caml_global_roots_old (?scan R s) = caml_global_roots_old s" for R s
    by (rule scan_fold_keeps) (use assms(3) in auto)
  note h = assms(1) [unfolded roots_hold_def]
  let ?st = "?scan Y (?scan G st)"
  obtain l seed C' where o: "insert_all caml_insert_global_root libs (sorted_list_of_set Y) 0
      (caml_global_roots_old st, random_seed ?st) = Value (l, seed)" "sl_holds l C' (O' \<union> Y)"
    using skip_list.all_refine [of "caml_global_roots_old st" C O' "sorted_list_of_set Y" libs 0 "random_seed ?st"]
      h assms(2) skip_list.contents_holds [of "caml_global_roots_young st" C Y] by auto
  obtain y where y: "caml_empty_global_roots (caml_global_roots_young st) = Some y" "sl_holds y C {}"
    using empty_holds h by blast
  have c: "registered (caml_global_roots st) = Some (sorted_list_of_set G)"
    "registered (caml_global_roots_young st) = Some (sorted_list_of_set Y)"
    using h skip_list.contents_holds by blast+
  let ?st' = "?st\<lparr> caml_global_roots_old := l, caml_global_roots_young := y, random_seed := seed \<rparr>"
  have "caml_scan_global_young_roots libs f st = Value ?st'"
    by (simp add: caml_scan_global_young_roots_def caml_iterate_global_roots_def keep c o(1) y(1))
  moreover have "roots_hold ?st' (C \<union> C') G {} (O' \<union> Y)"
    using h sl_holds_mono [OF o(2), of "C \<union> C'"] sl_holds_mono [OF y(2), of "C \<union> C'"]
      sl_holds_mono [of "caml_global_roots st" C G "C \<union> C'"] by (simp add: roots_hold_def keep)
  ultimately show ?thesis by auto
qed

section \<open>A registry at work\<close>

definition demo_list :: "u64 \<Rightarrow> global_root_list" where
  "demo_list a = \<lparr> gl_self = a, gl_cells = (\<lambda>_. \<lparr> gr_root = 0, gr_forward = (\<lambda>_. 0) \<rparr>), gl_level = 0 \<rparr>"

definition demo_lib :: "u64 \<Rightarrow> libc" where
  "demo_lib a = \<lparr> malloc = (\<lambda>_. a), calloc = (\<lambda>_. True), realloc = (\<lambda>_. True) \<rparr>"

lemma demo_list_holds: "a \<in> C \<Longrightarrow> sl_holds (demo_list a) C {}"
  unfolding sl_holds_def by (intro exI [of _ "\<lambda>_. []"]) (simp add: sl_wf_def demo_list_def)

lemma sl_holds_empty: "sl_holds l C {} \<Longrightarrow> live_cells l = {gl_self l}"
  using live_cells_wf by (auto simp: sl_holds_def)

text \<open>The allocator answers the same cell before and after it has been freed.\<close>

theorem global_roots_refine_witness:
  "\<exists>l' seed'. root_ops caml_insert_global_root caml_delete_global_root (\<lambda>_. demo_lib 0x100)
      [Insert_root 0x40, Delete_root 0x40, Insert_root 0x20] (demo_list 0x80, 0) = Value (l', seed') \<and> registered l' = Some [0x20]"
proof -
  let ?C = "{0x80} \<union> range (malloc (demo_lib 0x100))"
  have m: "mallocs_outside (demo_lib 0x100) {0x80}" by (simp add: mallocs_outside_def demo_lib_def)
  have self: "live_cells (demo_list 0x80) = {0x80}"
    using sl_holds_empty [OF demo_list_holds [of "0x80" "{0x80}"]] by (simp add: demo_list_def)
  obtain ns where ns: "sl_wf (demo_list 0x80) ns" "gl_self (demo_list 0x80) = 0x80" "set (ns 0) = {}"
    using demo_list_holds [of "0x80" "{0x80}"] by (auto simp: sl_holds_def demo_list_def)
  obtain l1 s1 ns1 where i: "caml_insert_global_root (demo_lib 0x100) 0x40 (demo_list 0x80, 0) = Value (l1, s1)" "sl_wf l1 ns1"
    "gl_self l1 = 0x80" "root_key l1 ` set (ns1 0) = {0x40}"
    using caml_insert_global_root_correct [OF ns(1), of "demo_lib 0x100" "0x40" 0] ns by (auto simp: demo_lib_def)
  obtain l2 ns2 where d: "caml_delete_global_root 0x40 l1 = Some l2" "sl_wf l2 ns2" "gl_self l2 = 0x80" "set (ns2 0) = {}"
    using caml_delete_global_root_correct [OF i(2), of "0x40"] i(3,4) by auto
  have "live_cells l2 = {0x80}" using live_cells_wf [OF d(2)] d(3,4) by simp
  then have "allocs_fresh live_cells caml_insert_global_root caml_delete_global_root (\<lambda>_. demo_lib 0x100)
      [Insert_root 0x40, Delete_root 0x40, Insert_root 0x20] (demo_list 0x80, 0)"
    using m self i(1) d(1) by (auto split: outcome.splits)
  from global_roots_refine [OF demo_list_holds [of "0x80" "{0x80}"] this] show ?thesis by simp
qed

theorem insert_level_bounded_witness:
  "\<exists>l seed. caml_insert_global_root (demo_lib 0x100) 0x20 (demo_list 0x80, 7) = Value (l, seed) \<and> gl_level l < NUM_LEVELS"
proof -
  have "mallocs_outside (demo_lib 0x100) {0x80}" by (simp add: mallocs_outside_def demo_lib_def)
  then obtain l seed where "caml_insert_global_root (demo_lib 0x100) 0x20 (demo_list 0x80, 7) = Value (l, seed)"
    using skip_list.ins_holds [OF demo_list_holds, of "0x80" "{0x80}" "demo_lib 0x100" "0x20" 7] by auto
  with insert_level_bounded [OF _ this] show ?thesis by (simp add: demo_list_def NUM_LEVELS_def)
qed

definition demo_one :: "u64 \<Rightarrow> global_root_list" where
  "demo_one a = \<lparr> gl_self = a,
     gl_cells = (\<lambda>e. if e = 0x200 then \<lparr> gr_root = 0x500, gr_forward = (\<lambda>_. 0) \<rparr>
                     else \<lparr> gr_root = 0, gr_forward = (\<lambda>i. if i = 0 then 0x200 else 0) \<rparr>), gl_level = 0 \<rparr>"

lemma demo_one_holds: "a \<noteq> 0x200 \<Longrightarrow> a \<in> C \<Longrightarrow> 0x200 \<in> C \<Longrightarrow> sl_holds (demo_one a) C {0x500}"
  unfolding sl_holds_def
  by (intro exI [of _ "\<lambda>i. if i = 0 then [0x200] else []"]) (simp add: sl_wf_def demo_one_def root_key_def)

definition demo_roots :: "global_root_list \<Rightarrow> global_root_list \<Rightarrow> global_roots" where
  "demo_roots young old =
     memory.extend (one_page_memory\<lparr> mem := (\<lambda>_. 1)(0x500 := 0x7F100) \<rparr>)
       \<lparr> caml_global_roots = demo_list 0x80, caml_global_roots_young = young, caml_global_roots_old = old, random_seed = 0 \<rparr>"

lemmas demo_roots_defs = demo_roots_def memory.defs one_page_memory_def freelist.defs one_block_freelist_def

lemma demo_roots_hold:
  "sl_holds young C Y \<Longrightarrow> sl_holds old C O' \<Longrightarrow> 0x80 \<in> C \<Longrightarrow> roots_hold (demo_roots young old) C {} Y O'"
  using one_page_wf demo_list_holds [of "0x80" C] by (simp add: roots_hold_def demo_roots_defs)

lemma demo_roots_values:
  "mem (demo_roots young old) 0x500 = 0x7F100" "Is_block 0x7F100" "\<not> Is_young 0x7F100 (demo_roots young old)"
  "Is_in_heap (pages (demo_roots young old)) 0x7F100 = Some True"
proof -
  have "caml_page_table_lookup one_page_table 0x7F100 = Some 1"
    by (simp add: caml_page_table_lookup_def one_page_table_def Hash_def HASH_FACTOR_def Page_def Page_log_def Let_def
      matches_Page)
  then show "Is_in_heap (pages (demo_roots young old)) 0x7F100 = Some True"
    by (simp add: Is_in_heap_def In_heap_def demo_roots_defs)
qed (simp_all add: demo_roots_defs Is_block_def Is_young_def)

theorem modify_generational_tracked_witness:
  "\<exists>st' C' Y' O''. caml_modify_generational_global_root (demo_lib 0x100) 0x500 0x10100 (demo_roots (demo_list 0x88) (demo_one 0x90)) =
      Value st' \<and> mem st' = (mem (demo_roots (demo_list 0x88) (demo_one 0x90)))(0x500 := 0x10100) \<and>
    roots_hold st' C' {} Y' O'' \<and> root_tracked st' Y' O'' 0x500 \<and>
    (\<forall>q. root_tracked (demo_roots (demo_list 0x88) (demo_one 0x90)) {} {0x500} q \<longrightarrow> root_tracked st' Y' O'' q)"
proof (rule modify_generational_tracked)
  show "roots_hold (demo_roots (demo_list 0x88) (demo_one 0x90)) {0x80, 0x88, 0x90, 0x200} {} {} {0x500}"
    by (rule demo_roots_hold) (simp_all add: demo_list_holds demo_one_holds)
  let ?st = "demo_roots (demo_list 0x88) (demo_one 0x90)"
  have o: "sl_holds (demo_one 0x90) {0x90, 0x200} {0x500}" by (simp add: demo_one_holds)
  have "live_cells (demo_list 0x80) = {0x80}" "live_cells (demo_list 0x88) = {0x88}"
    using sl_holds_empty [OF demo_list_holds [of "0x80" UNIV]] sl_holds_empty [OF demo_list_holds [of "0x88" UNIV]]
    by (simp_all add: demo_list_def)
  moreover obtain l where "caml_delete_global_root 0x500 (demo_one 0x90) = Some l" "live_cells l \<subseteq> {0x90, 0x200}"
    using skip_list.del_holds [OF o, of "0x500"] sl_holds_live by blast
  ultimately show "mallocs_outside (demo_lib 0x100) (roots_cells (unlinked_old 0x500 ?st))"
    by (auto simp: mallocs_outside_def demo_lib_def roots_cells_def unlinked_old_def demo_roots_defs)
qed (simp_all add: traced_value_def root_tracked_def demo_roots_values)

theorem remove_generational_root_witness:
  "\<exists>st'. caml_remove_generational_global_root 0x500 (demo_roots (demo_list 0x88) (demo_one 0x90)) = Value st' \<and>
    roots_hold st' {0x80, 0x88, 0x90, 0x200} {} {} {}"
  using remove_generational_root [of "demo_roots (demo_list 0x88) (demo_one 0x90)" "{0x80, 0x88, 0x90, 0x200}" "{}" "{}" "{0x500}" "0x500"]
    demo_roots_hold [of "demo_list 0x88" "{0x80, 0x88, 0x90, 0x200}" "{}" "demo_one 0x90" "{0x500}"]
  by (auto simp: demo_list_holds demo_one_holds demo_roots_values listed_by_value_def)

theorem scan_global_young_roots_correct_witness:
  "\<exists>st' C'. caml_scan_global_young_roots (\<lambda>_. demo_lib 0x100) (\<lambda>v r st. st\<lparr> mem := (mem st)(r := v + 8) \<rparr>)
      (demo_roots (demo_one 0x90) (demo_list 0x88)) = Value st' \<and> roots_hold st' C' {} {} {0x500} \<and> mem st' 0x500 = 0x7F108"
  using scan_global_young_roots_correct [of "demo_roots (demo_one 0x90) (demo_list 0x88)" "{0x80, 0x88, 0x90, 0x200}" "{}" "{0x500}" "{}"
      "\<lambda>_. demo_lib 0x100" "\<lambda>v r st. st\<lparr> mem := (mem st)(r := v + 8) \<rparr>"]
    demo_roots_hold [of "demo_one 0x90" "{0x80, 0x88, 0x90, 0x200}" "{0x500}" "demo_list 0x88" "{}"]
  by (auto simp: demo_list_holds demo_one_holds demo_roots_values mallocs_apart_def mallocs_outside_def demo_lib_def)

end
