(* ===== verification/Callback.thy ===== *)
theory Callback
  imports Interp_Examples Globroots
begin

text \<open>
  Calls from C to the program (\<open>byterun/callback.c\<close>): a callback runs the interpreter on the seven words of
  \<open>callback_code\<close>, at the address \<open>cb\<close>, with the arguments and a return frame pushed on the stack.  Below it, the
  values that the program registers by name, kept in a hash table whose cells are global roots.
\<close>

section \<open>Callbacks\<close>

definition caml_callbackN_exn :: "u64 \<Rightarrow> u64 \<Rightarrow> value_t \<Rightarrow> value_t list \<Rightarrow> vm \<Rightarrow> step" where
  "caml_callbackN_exn cb raise_buf closure args s =
     (let narg = length args;
          s = s\<lparr> extern_sp := extern_sp s - 8 * of_nat (narg + 4) \<rparr>;
          s = s\<lparr> mem := store_words (mem s) (extern_sp s) (args @ [cb + 16, Val_unit, Val_long 0, closure]) \<rparr>;
          s = s\<lparr> code := (code s)(cb + 4 := of_nat narg + 3, cb + 12 := of_nat narg) \<rparr>
      in caml_interprete raise_buf cb s)"

text \<open>What is left to do when the interpreter has returned \<open>res\<close>.\<close>

definition callbackN_returned :: "nat \<Rightarrow> value_t \<Rightarrow> vm \<Rightarrow> vm" where
  "callbackN_returned narg res s =
     (if Is_exception_result res then s\<lparr> extern_sp := extern_sp s + 8 * of_nat (narg + 4) \<rparr> else s)"

definition caml_callback_exn :: "u64 \<Rightarrow> u64 \<Rightarrow> value_t \<Rightarrow> value_t \<Rightarrow> vm \<Rightarrow> step" where
  "caml_callback_exn cb raise_buf closure arg1 = caml_callbackN_exn cb raise_buf closure [arg1]"

definition caml_callback2_exn :: "u64 \<Rightarrow> u64 \<Rightarrow> value_t \<Rightarrow> value_t \<Rightarrow> value_t \<Rightarrow> vm \<Rightarrow> step" where
  "caml_callback2_exn cb raise_buf closure arg1 arg2 = caml_callbackN_exn cb raise_buf closure [arg1, arg2]"

definition caml_callback3_exn :: "u64 \<Rightarrow> u64 \<Rightarrow> value_t \<Rightarrow> value_t \<Rightarrow> value_t \<Rightarrow> value_t \<Rightarrow> vm \<Rightarrow> step" where
  "caml_callback3_exn cb raise_buf closure arg1 arg2 arg3 = caml_callbackN_exn cb raise_buf closure [arg1, arg2, arg3]"

section \<open>Named values\<close>

record named_value =
  nv_self :: u64
  nv_name :: "u8 list"

definition Named_value_size :: u32 where "Named_value_size = 13"

record named_values = global_roots +
  named_value_table :: "u32 \<Rightarrow> named_value list"

definition hash_value_name :: "u8 list \<Rightarrow> u32" where
  "hash_value_name name = fold (\<lambda>c h. h * 19 + scast c) name 0 mod Named_value_size"

definition find_named :: "u8 list \<Rightarrow> named_values \<Rightarrow> named_value option" where
  "find_named name st = find (\<lambda>nv. nv_name nv = name) (named_value_table st (hash_value_name name))"

text \<open>The cell of a new name comes from \<open>lib\<close>, the cell of its root from \<open>lib'\<close>.\<close>

definition caml_register_named_value ::
  "libc \<Rightarrow> libc \<Rightarrow> u8 list \<Rightarrow> value_t \<Rightarrow> named_values \<Rightarrow> named_values outcome" where
  "caml_register_named_value lib lib' name v st =
     (let h = hash_value_name name
      in case find_named name st of
           Some nv \<Rightarrow> Value (st\<lparr> mem := (mem st)(nv_self nv := v) \<rparr>)
         | None \<Rightarrow>
             (let nv = malloc lib (24 + of_nat (length name))
              in if nv = 0 then Raised Out_of_memory
                 else
                   (let st = st\<lparr> mem := (mem st)(nv := v) \<rparr>;
                        st = st\<lparr> named_value_table := (named_value_table st)
                                   (h := \<lparr> nv_self = nv, nv_name = name \<rparr> # named_value_table st h) \<rparr>
                    in caml_register_global_root lib' nv st)))"

definition caml_named_value :: "u8 list \<Rightarrow> named_values \<Rightarrow> u64" where
  "caml_named_value name st = (case find_named name st of Some nv \<Rightarrow> nv_self nv | None \<Rightarrow> 0)"

section \<open>Looking up names\<close>

text \<open>Distinct names have distinct cells, and the cell of every name is a registered root.\<close>

definition names_wf :: "named_values \<Rightarrow> u64 set \<Rightarrow> bool" where
  "names_wf st G \<longleftrightarrow>
     (\<forall>name name' nv nv'. find_named name st = Some nv \<longrightarrow> find_named name' st = Some nv' \<longrightarrow> nv_self nv = nv_self nv' \<longrightarrow> name = name') \<and>
     (\<forall>name nv. find_named name st = Some nv \<longrightarrow> nv_self nv \<noteq> 0 \<and> nv_self nv \<in> G)"

lemma find_named_upd [simp]: "find_named n (st\<lparr> mem := h \<rparr>) = find_named n st"
  by (simp add: find_named_def)

lemma find_named_roots: "find_named n (st\<lparr> caml_global_roots := l, random_seed := seed \<rparr>) = find_named n st"
  by (simp add: find_named_def)

lemma find_named_insert:
  "find_named n (st\<lparr> named_value_table := (named_value_table st)(hash_value_name name :=
     \<lparr> nv_self = a, nv_name = name \<rparr> # named_value_table st (hash_value_name name)) \<rparr>) =
   (if n = name then Some \<lparr> nv_self = a, nv_name = name \<rparr> else find_named n st)"
  by (auto simp: find_named_def)

text \<open>C21: Registering a value under a name makes the name denote a cell that holds the value; every other name keeps its
  cell and value.  The cells of all names stay distinct and stay registered as global roots, which the collector scans.\<close>

theorem named_value_registered:
  assumes "names_wf st G" "sl_holds (caml_global_roots st) C G" "mallocs_outside lib' C"
    and "malloc lib (24 + of_nat (length name)) \<notin> G \<union> {0}"
  shows "\<exists>st' C' G'. caml_register_named_value lib lib' name v st = Value st' \<and>
    names_wf st' G' \<and> sl_holds (caml_global_roots st') C' G' \<and>
    caml_named_value name st' \<noteq> 0 \<and> mem st' (caml_named_value name st') = v \<and>
    (\<forall>n. n \<noteq> name \<longrightarrow> caml_named_value n st' = caml_named_value n st \<and>
      (caml_named_value n st \<noteq> 0 \<longrightarrow> mem st' (caml_named_value n st) = mem st (caml_named_value n st)))"
proof (cases "find_named name st")
  case (Some nv)
  let ?st = "st\<lparr> mem := (mem st)(nv_self nv := v) \<rparr>"
  have "caml_register_named_value lib lib' name v st = Value ?st" by (simp add: caml_register_named_value_def Some)
  moreover have "names_wf ?st G" using assms(1) by (simp add: names_wf_def)
  moreover have "nv_self nv \<noteq> 0" using assms(1) Some by (auto simp: names_wf_def)
  moreover have "caml_named_value n ?st = caml_named_value n st \<and>
      (caml_named_value n st \<noteq> 0 \<longrightarrow> mem ?st (caml_named_value n st) = mem st (caml_named_value n st))" if "n \<noteq> name" for n
  proof (cases "find_named n st")
    case (Some nv')
    then have "nv_self nv' \<noteq> nv_self nv" using assms(1) \<open>find_named name st = Some nv\<close> that unfolding names_wf_def by metis
    then show ?thesis by (simp add: caml_named_value_def Some)
  qed (simp add: caml_named_value_def)
  moreover have "caml_named_value name ?st = nv_self nv" by (simp add: caml_named_value_def Some)
  ultimately show ?thesis using assms(2) by (intro exI [of _ ?st] exI [of _ C] exI [of _ G]) simp
next
  case None
  define a where "a = malloc lib (24 + of_nat (length name))"
  let ?st = "st\<lparr> mem := (mem st)(a := v), named_value_table := (named_value_table st)(hash_value_name name :=
     \<lparr> nv_self = a, nv_name = name \<rparr> # named_value_table st (hash_value_name name)) \<rparr>"
  obtain l seed where i: "caml_insert_global_root lib' a (caml_global_roots st, random_seed st) = Value (l, seed)"
    "sl_holds l (C \<union> range (malloc lib')) (insert a G)"
    using skip_list.ins_holds [OF assms(2,3)] by blast
  let ?st' = "?st\<lparr> caml_global_roots := l, random_seed := seed \<rparr>"
  have f: "find_named n ?st' = (if n = name then Some \<lparr> nv_self = a, nv_name = name \<rparr> else find_named n st)" for n
    using find_named_insert [of n "st\<lparr> mem := (mem st)(a := v) \<rparr>" name a] by (simp add: find_named_roots)
  have a: "a \<noteq> 0" "a \<notin> G" using assms(4) by (auto simp: a_def)
  have "caml_register_named_value lib lib' name v st = Value ?st'"
    using a(1) i(1) by (simp add: caml_register_named_value_def None caml_register_global_root_def Let_def flip: a_def)
  moreover have "names_wf ?st' (insert a G)" using assms(1) a unfolding names_wf_def f by (auto split: if_splits)
  moreover have "caml_named_value n ?st' = caml_named_value n st \<and>
      (caml_named_value n st \<noteq> 0 \<longrightarrow> mem ?st' (caml_named_value n st) = mem st (caml_named_value n st))" if "n \<noteq> name" for n
  proof (cases "find_named n st")
    case (Some nv)
    then have "nv_self nv \<noteq> a" using assms(1) a by (auto simp: names_wf_def)
    then show ?thesis using that by (simp add: caml_named_value_def f Some)
  qed (use that in \<open>simp add: caml_named_value_def f\<close>)
  moreover have "caml_named_value name ?st' = a" by (simp add: caml_named_value_def f)
  ultimately show ?thesis
    using i(2) a(1) by (intro exI [of _ ?st'] exI [of _ "C \<union> range (malloc lib')"] exI [of _ "insert a G"]) simp
qed

section \<open>A callback leaves the stack as it was\<close>

text \<open>The state after a call from C: the stack has the depth it had before, counted from its end since it may have
  been moved, and the interpreter's globals are those of the caller.\<close>

definition callback_restored :: "vm \<Rightarrow> vm \<Rightarrow> bool" where
  "callback_restored s s' \<longleftrightarrow> stack_high s' - extern_sp s' = stack_high s - extern_sp s \<and>
     external_raise s' = external_raise s \<and> callback_depth s' = callback_depth s"

text \<open>The function called by a callback is about to return: its frame is popped up to the one that the callback
  pushed, at depth \<open>d\<close>, which it has left intact.\<close>

definition callback_returning :: "u64 \<Rightarrow> u64 \<Rightarrow> regs \<Rightarrow> vm \<Rightarrow> bool" where
  "callback_returning cb d r s \<longleftrightarrow>
     code s (pc r) = 40 \<and> extra_args r = 0 \<and> sp r + 8 * scast (code s (pc r + 4)) = stack_high s - d - 32 \<and>
     word_block (mem s) (stack_high s - d - 32) 3 = [cb + 16, Val_unit, Val_long 0] \<and>
     code s (cb + 16) = 19 \<and> code s (cb + 20) = 1 \<and> code s (cb + 24) = 143 \<and> \<not> Is_exception_result (accu r)"

text \<open>An exception escapes the function called: no handler is left that was pushed since the callback.\<close>

definition callback_raising :: "regs \<Rightarrow> vm \<Rightarrow> bool" where
  "callback_raising r s \<longleftrightarrow> stack_high s - scast (initial_sp_offset r) \<le> trapsp s \<and> accu r AND 3 = 0"

lemma jumptable_calls:
  "jumptable lib ! 8 = ACC_op" "jumptable lib ! 19 = POP" "jumptable lib ! 32 = APPLY lib"
  "jumptable lib ! 40 = RETURN" "jumptable lib ! 143 = STOP"
  by (simp_all add: jumptable_def)

lemmas fetch_calls =
  fetch_nth [where n = 8, simplified] fetch_nth [where n = 19, simplified] fetch_nth [where n = 32, simplified]
  fetch_nth [where n = 40, simplified] fetch_nth [where n = 143, simplified] jumptable_calls

lemma exec_fetches: "fetch lib r s = x \<Longrightarrow> (exec answers informs lib)\<^sup>*\<^sup>* x y \<Longrightarrow> (exec answers informs lib)\<^sup>*\<^sup>* (Next r s) y"
  by (metis converse_rtranclp_into_rtranclp exec_fetch)

lemma callback_returns:
  assumes "callback_returning cb d r s"
  shows "(exec answers informs lib)\<^sup>*\<^sup>* (Next r s) (Return (accu r)
    (s\<lparr> external_raise := initial_external_raise r, extern_sp := stack_high s - d, callback_depth := callback_depth s - 1 \<rparr>))"
proof -
  let ?r1 = "r\<lparr> pc := cb + 16, env := Val_unit, extra_args := 0, sp := stack_high s - d - 8 \<rparr>"
  let ?r2 = "?r1\<lparr> pc := cb + 24, sp := stack_high s - d \<rparr>"
  define f where "f = stack_high s - d - 32"
  have "sp r + 8 * scast (code s (pc r + 4)) = f" "mem s f = cb + 16" "mem s (f + 8) = Val_unit" "mem s (f + 16) = Val_long 0"
    using assms by (simp_all add: callback_returning_def word_block_3 flip: f_def)
  then have "fetch lib r s = Next (r\<lparr> pc := cb + 16, env := Val_unit, extra_args := 0, sp := f + 24 \<rparr>) s"
    using assms by (simp add: callback_returning_def fetch_calls RETURN_def return_to_caller_def operand_def stack_def Let_def
        Long_val_extra Long_limits)
  then have f1: "fetch lib r s = Next ?r1 s" by (simp add: f_def)
  have f2: "fetch lib ?r1 s = Next ?r2 s"
    using assms by (simp add: callback_returning_def fetch_calls POP_def operand_def algebra_simps)
  have f3: "fetch lib ?r2 s = Return (accu r)
    (s\<lparr> external_raise := initial_external_raise r, extern_sp := stack_high s - d, callback_depth := callback_depth s - 1 \<rparr>)"
    using assms by (simp add: callback_returning_def fetch_calls STOP_def)
  show ?thesis using exec_fetches [OF f1 exec_fetches [OF f2 exec_fetches [OF f3 rtranclp.rtrancl_refl]]] .
qed

lemma scast_small_nat: "n < 2 ^ 31 \<Longrightarrow> scast (of_nat n :: cint) = (of_nat n :: u64)"
  by (subst scast_of_nat) (simp_all add: sint_uint uint_nat unat_of_nat signed_take_bit_int_eq_self)

lemma sp_offset_roundtrip: "unat d < 2 ^ 31 \<Longrightarrow> scast (ucast d :: cint) = (d :: u64)"
  using scast_small_nat [of "unat d"] by simp

lemma Is_exception_Make: "v AND 3 = 0 \<Longrightarrow> Is_exception_result (Make_exception_result v)"
  by (simp add: Is_exception_result_def Make_exception_result_def bit.conj_disj_distrib2)

text \<open>The function is entered: its arguments are at the top of the stack, below them the frame to return to.\<close>

definition callback_entered :: "u64 \<Rightarrow> value_t \<Rightarrow> value_t list \<Rightarrow> vm \<Rightarrow> regs \<Rightarrow> vm \<Rightarrow> bool" where
  "callback_entered cb closure args s r1 s1 \<longleftrightarrow>
     pc r1 = Code_val (mem s) closure \<and> env r1 = closure \<and> accu r1 = closure \<and> extra_args r1 = of_nat (length args) - 1 \<and>
     word_block (mem s1) (sp r1) (length args) = args \<and>
     sp r1 + 8 * of_nat (length args) = extern_sp s - 32 \<and> stack_high s1 = stack_high s \<and>
     word_block (mem s1) (extern_sp s - 32) 3 = [cb + 16, Val_unit, Val_long 0] \<and>
     (\<forall>a. a \<noteq> cb + 4 \<longrightarrow> a \<noteq> cb + 12 \<longrightarrow> code s1 a = code s a)"

lemma callback_enters:
  assumes "n = length args" "1 \<le> n" "n + 4 \<le> 256" "cb \<noteq> 0" "code s cb = 8" "code s (cb + 8) = 32"
    and "low = extern_sp s - 8 * of_nat (n + 4)" "stack_threshold s \<le> low" "\<not> something_to_do s"
    and "\<forall>i < n + 4. closure \<noteq> low + 8 * of_nat i"
  shows "\<exists>r1 s1. (exec answers informs lib)\<^sup>*\<^sup>* (caml_callbackN_exn cb raise_buf closure args s) (Next r1 s1) \<and>
    callback_entered cb closure args s r1 s1 \<and> initial_sp_offset r1 = ucast (stack_high s - low) \<and>
    initial_external_raise r1 = external_raise s \<and> callback_depth s1 = callback_depth s + 1"
proof -
  let ?frame = "args @ [cb + 16, Val_unit, Val_long 0, closure]"
  let ?s0 = "s\<lparr> extern_sp := low, mem := store_words (mem s) low ?frame,
    code := (code s)(cb + 4 := of_nat n + 3, cb + 12 := of_nat n) \<rparr>"
  define s1 where "s1 = ?s0\<lparr> callback_depth := callback_depth s + 1, external_raise := raise_buf \<rparr>"
  define r0 where "r0 = \<lparr> pc = cb, sp = low, accu = Val_int 0, env = Atom 0 ?s0, extra_args = 0, saved_pc = 0,
    initial_sp_offset = ucast (stack_high s - low), initial_local_roots = local_roots s, initial_external_raise = external_raise s \<rparr>"
  have start: "caml_callbackN_exn cb raise_buf closure args s = Next r0 s1"
    using assms(1,4,7) by (simp add: caml_callbackN_exn_def caml_interprete_def Let_def r0_def s1_def)
  have "mem s1 (low + 8 * of_nat (n + 3)) = closure"
    using store_words_nth [of "n + 3" ?frame "mem s" low] assms(1,3) by (simp add: s1_def nth_append)
  moreover have "(scast (of_nat n + 3 :: cint) :: u64) = of_nat (n + 3)"
    using scast_small_nat [of "n + 3"] assms(3) by simp
  ultimately have f1: "fetch lib r0 s1 = Next (r0\<lparr> accu := closure, pc := cb + 8 \<rparr>) s1"
    using assms(5) by (simp add: fetch_calls ACC_op_def stack_def operand_def r0_def s1_def)
  have c: "mem s1 closure = mem s closure"
    unfolding s1_def using store_words_other [of ?frame closure low "mem s"] assms(1,10) by simp
  moreover have "(scast (of_nat n - 1 :: cint) :: u64) = of_nat n - 1"
    using scast_small_nat [of "n - 1"] assms(2,3) by (simp add: of_nat_diff)
  moreover define r1 where "r1 = r0\<lparr> extra_args := of_nat n - 1, pc := mem s closure, env := closure, accu := closure \<rparr>"
  ultimately have f2: "fetch lib (r0\<lparr> accu := closure, pc := cb + 8 \<rparr>) s1 = Next r1 s1"
    using assms(6,8,9) by (simp add: fetch_calls APPLY_def operand_def Code_val_def check_stacks_room r0_def s1_def)
  have "(exec answers informs lib)\<^sup>*\<^sup>* (caml_callbackN_exn cb raise_buf closure args s) (Next r1 s1)"
    unfolding start using exec_fetches [OF f1 exec_fetches [OF f2 rtranclp.rtrancl_refl]] .
  moreover have top: "low + 8 * of_nat n = extern_sp s - 32" using assms(7) by simp
  have "callback_entered cb closure args s r1 s1"
    using word_block_store_part [of 0 n ?frame "mem s" low] word_block_store_part [of n 3 ?frame "mem s" low] assms(1,3) top
    by (simp add: callback_entered_def s1_def r1_def r0_def Code_val_def)
  ultimately show ?thesis by (intro exI [of _ r1] exI [of _ s1]) (simp add: r1_def r0_def s1_def)
qed

text \<open>C11: A call from C to the program enters the function with its arguments on the stack, in order.  When the function
  returns, the callback ends with its result; when an exception escapes it, the callback ends with the exception.  Either
  way the stack has its former depth and the interpreter its former globals, even when the stack was moved meanwhile.\<close>

theorem callback_balanced:
  assumes "n = length args" "1 \<le> n" "n + 4 \<le> 256" "cb \<noteq> 0" "code s cb = 8" "code s (cb + 8) = 32"
    and "low = extern_sp s - 8 * of_nat (n + 4)" "stack_threshold s \<le> low" "\<not> something_to_do s"
    and "\<forall>i < n + 4. closure \<noteq> low + 8 * of_nat i" "unat (stack_high s - low) < 2 ^ 31"
  shows "\<exists>r1 s1. (exec answers informs lib)\<^sup>*\<^sup>* (caml_callbackN_exn cb raise_buf closure args s) (Next r1 s1) \<and>
    callback_entered cb closure args s r1 s1 \<and>
    (\<forall>r2 s2. initial_sp_offset r2 = initial_sp_offset r1 \<longrightarrow> initial_external_raise r2 = initial_external_raise r1 \<longrightarrow>
       callback_depth s2 = callback_depth s1 \<longrightarrow>
       (callback_returning cb (stack_high s - extern_sp s) r2 s2 \<longrightarrow>
          (\<exists>s3. (exec answers informs lib)\<^sup>*\<^sup>* (Next r2 s2) (Return (accu r2) s3) \<and>
                callback_restored s (callbackN_returned n (accu r2) s3))) \<and>
       (callback_raising r2 s2 \<longrightarrow>
          (\<exists>s3. unwind r2 s2 = Return (Make_exception_result (accu r2)) s3 \<and>
                callback_restored s (callbackN_returned n (Make_exception_result (accu r2)) s3))))"
proof -
  obtain r1 s1 where e: "(exec answers informs lib)\<^sup>*\<^sup>* (caml_callbackN_exn cb raise_buf closure args s) (Next r1 s1)"
    "callback_entered cb closure args s r1 s1" "initial_sp_offset r1 = ucast (stack_high s - low)"
    "initial_external_raise r1 = external_raise s" "callback_depth s1 = callback_depth s + 1"
    using callback_enters [OF assms(1-10)] by blast
  have off: "scast (ucast (stack_high s - low) :: cint) = stack_high s - low" using assms(11) by (rule sp_offset_roundtrip)
  have "\<exists>s3. (exec answers informs lib)\<^sup>*\<^sup>* (Next r2 s2) (Return (accu r2) s3) \<and> callback_restored s (callbackN_returned n (accu r2) s3)"
    if "initial_external_raise r2 = initial_external_raise r1" "callback_depth s2 = callback_depth s1"
      "callback_returning cb (stack_high s - extern_sp s) r2 s2" for r2 s2
    by (rule exI, rule conjI [OF callback_returns [OF that(3)]])
       (use that e in \<open>simp add: callback_restored_def callbackN_returned_def callback_returning_def\<close>)
  moreover have "\<exists>s3. unwind r2 s2 = Return (Make_exception_result (accu r2)) s3 \<and>
      callback_restored s (callbackN_returned n (Make_exception_result (accu r2)) s3)"
    if "initial_sp_offset r2 = initial_sp_offset r1" "initial_external_raise r2 = initial_external_raise r1"
      "callback_depth s2 = callback_depth s1" "callback_raising r2 s2" for r2 s2
    using that e assms(7) off
    by (simp add: unwind_def callback_raising_def callback_restored_def callbackN_returned_def Is_exception_Make)
  ultimately show ?thesis using e(1,2) by (intro exI [of _ r1] exI [of _ s1]) simp
qed

text \<open>A callback of a function that pops its argument and returns its closure: \<open>RETURN 1\<close> at \<open>0x7000\<close>.\<close>

definition demo_callback :: vm where
  "demo_callback = demo_vm (\<lambda>_. 0x7000)
     (\<lambda>a. if a = 0x6000 then 8 else if a = 0x6008 then 32 else if a = 0x6010 then 19 else if a = 0x6018 then 143
          else if a = 0x7000 then 40 else 1)"

theorem callback_balanced_witness:
  "\<exists>s3. (exec (\<lambda>_ _ _. False) (\<lambda>_ _ _. False) demo_libc)\<^sup>*\<^sup>* (caml_callbackN_exn 0x6000 0x200 0x5000 [7] demo_callback)
     (Return 0x5000 s3) \<and> callback_restored demo_callback s3"
proof -
  let ?exec = "exec (\<lambda>_ _ _. False) (\<lambda>_ _ _. False) demo_libc"
  have h: "code demo_callback 0x6000 = 8" "code demo_callback (0x6000 + 8) = 32" "stack_threshold demo_callback \<le> 0x8ED8"
    "0x8ED8 = extern_sp demo_callback - 8 * of_nat (1 + 4)" "\<not> something_to_do demo_callback"
    "unat (stack_high demo_callback - 0x8ED8) < 2 ^ 31" "stack_high demo_callback - extern_sp demo_callback = 0x100"
    by (simp_all add: demo_callback_def demo_defs)
  have "\<forall>i < 1 + 4. (0x5000 :: u64) \<noteq> 0x8ED8 + 8 * of_nat i" by (simp add: all_less_small)
  from callback_balanced [OF _ _ _ _ h(1,2,4,3,5) this h(6), of "[7]", where answers = "\<lambda>_ _ _. False" and
      informs = "\<lambda>_ _ _. False" and lib = demo_libc and raise_buf = "0x200"]
  obtain r1 s1 where e: "?exec\<^sup>*\<^sup>* (caml_callbackN_exn 0x6000 0x200 0x5000 [7] demo_callback) (Next r1 s1)"
    "callback_entered 0x6000 0x5000 [7] demo_callback r1 s1"
    "callback_returning 0x6000 0x100 r1 s1 \<Longrightarrow> \<exists>s3. ?exec\<^sup>*\<^sup>* (Next r1 s1) (Return (accu r1) s3) \<and>
       callback_restored demo_callback (callbackN_returned 1 (accu r1) s3)"
    unfolding h(7) by auto
  moreover have "callback_returning 0x6000 0x100 r1 s1" "accu r1 = 0x5000"
    using e(2) by (simp_all add: callback_entered_def callback_returning_def demo_callback_def demo_defs Code_val_def Is_exception_result_def)
  ultimately obtain s3 where "?exec\<^sup>*\<^sup>* (Next r1 s1) (Return 0x5000 s3)" "callback_restored demo_callback s3"
    by (auto simp: callbackN_returned_def Is_exception_result_def)
  then show ?thesis using e(1) by (meson rtranclp_trans)
qed

text \<open>The first name is registered.\<close>

definition demo_names :: named_values where
  "demo_names = global_roots.extend (demo_roots (demo_list 0x88) (demo_list 0x90)) \<lparr> named_value_table = \<lambda>_. [] \<rparr>"

theorem named_value_registered_witness:
  "\<exists>st'. caml_register_named_value (demo_lib 0x300) (demo_lib 0x100) [0x61, 0x62] 0x7F100 demo_names = Value st' \<and>
    mem st' (caml_named_value [0x61, 0x62] st') = 0x7F100"
proof -
  have "names_wf demo_names {}" by (simp add: names_wf_def find_named_def demo_names_def global_roots.defs)
  moreover have "sl_holds (caml_global_roots demo_names) {0x80} {}"
    using demo_list_holds [of "0x80" "{0x80}"] by (simp add: demo_names_def global_roots.defs demo_roots_defs)
  ultimately show ?thesis
    using named_value_registered [of demo_names "{}" "{0x80}" "demo_lib 0x100" "demo_lib 0x300" "[0x61, 0x62]" "0x7F100"]
    by (auto simp: mallocs_outside_def demo_lib_def)
qed

end
