(* ===== verification/Lexing.thy ===== *)
theory Lexing
  imports Mlvalues
begin

text \<open>
  The table-driven automaton of lexers generated by \<open>ocamllex\<close> (\<open>byterun/lexing.c\<close>).  The tables are strings of
  16-bit numbers and the input buffer is a string, all in the word memory; the lexer buffer is the structure of the
  C code.  An engine returns the number of an action, or asks for a refill by returning a negative number that
  resumes the automaton when it is passed back.
\<close>

section \<open>The engines\<close>

record lexer_buffer =
  refill_buff :: value_t
  lex_buffer :: value_t
  lex_buffer_len :: value_t
  lex_abs_pos :: value_t
  lex_start_pos :: value_t
  lex_curr_pos :: value_t
  lex_last_pos :: value_t
  lex_last_action :: value_t
  lex_eof_reached :: value_t
  lex_mem :: value_t
  lex_start_p :: value_t
  lex_curr_p :: value_t

record lexing_table =
  lex_base :: value_t
  lex_backtrk :: value_t
  lex_default :: value_t
  lex_trans :: value_t
  lex_check :: value_t
  lex_base_code :: value_t
  lex_backtrk_code :: value_t
  lex_default_code :: value_t
  lex_trans_code :: value_t
  lex_check_code :: value_t
  lex_code :: value_t

definition Short :: "heap \<Rightarrow> value_t \<Rightarrow> cint \<Rightarrow> cint" where
  "Short h tbl n =
     scast ((ucast (Byte_u h tbl (2 * scast n)) :: 16 word) OR push_bit 8 (ucast (Byte_u h tbl (2 * scast n + 1))))"

text \<open>The first lines of both engines: the state to start from and the buffer at its entry.\<close>

definition lex_entry :: "value_t \<Rightarrow> lexer_buffer \<Rightarrow> cint \<times> lexer_buffer" where
  "lex_entry start_state lexbuf =
     (let state = Int_val start_state
      in if sint state \<ge> 0 then
           (state, lexbuf\<lparr> lex_last_pos := lex_curr_pos lexbuf, lex_start_pos := lex_curr_pos lexbuf,
                           lex_last_action := Val_int (- 1) \<rparr>)
         else (- state - 1, lexbuf))"

text \<open>A backtrack point, and the transition from a state on a character or on 256, the end of the input.\<close>

definition lex_mark :: "cint \<Rightarrow> lexer_buffer \<Rightarrow> lexer_buffer" where
  "lex_mark backtrk lexbuf = lexbuf\<lparr> lex_last_pos := lex_curr_pos lexbuf, lex_last_action := Val_int backtrk \<rparr>"

definition lex_next :: "heap \<Rightarrow> lexing_table \<Rightarrow> cint \<Rightarrow> cint \<Rightarrow> cint" where
  "lex_next h tbl state c =
     (let base = Short h (lex_base tbl) state
      in if Short h (lex_check tbl) (base + c) = state then Short h (lex_trans tbl) (base + c)
         else Short h (lex_default tbl) state)"

partial_function (option) lex_loop ::
  "heap \<Rightarrow> lexing_table \<Rightarrow> cint \<Rightarrow> lexer_buffer \<Rightarrow> ((exn + value_t) \<times> lexer_buffer) option" where
  "lex_loop h tbl state lexbuf =
     (let base = Short h (lex_base tbl) state
      in if sint base < 0 then Some (Inr (Val_int (- base - 1)), lexbuf)
         else
           (let backtrk = Short h (lex_backtrk tbl) state;
                lexbuf = (if sint backtrk \<ge> 0 then lex_mark backtrk lexbuf else lexbuf);
                at_end = (sint (lex_curr_pos lexbuf) \<ge> sint (lex_buffer_len lexbuf))
            in if at_end \<and> lex_eof_reached lexbuf = Val_bool False then Some (Inr (Val_int (- state - 1)), lexbuf)
               else
                 (let c = (if at_end then 256
                           else ucast (Byte_u h (lex_buffer lexbuf) (Long_val (lex_curr_pos lexbuf))));
                      lexbuf = (if at_end then lexbuf
                                else lexbuf\<lparr> lex_curr_pos := lex_curr_pos lexbuf + 2 \<rparr>);
                      state = lex_next h tbl state c
                  in if sint state < 0 then
                       (let lexbuf = lexbuf\<lparr> lex_curr_pos := lex_last_pos lexbuf \<rparr>
                        in if lex_last_action lexbuf = Val_int (- 1)
                           then Some (Inl (Failure ''lexing: empty token''), lexbuf)
                           else Some (Inr (lex_last_action lexbuf), lexbuf))
                     else
                       lex_loop h tbl state
                         (if c = 256 then lexbuf\<lparr> lex_eof_reached := Val_bool False \<rparr> else lexbuf))))"

declare lex_loop.simps [code]

definition caml_lex_engine ::
  "heap \<Rightarrow> lexing_table \<Rightarrow> value_t \<Rightarrow> lexer_buffer \<Rightarrow> ((exn + value_t) \<times> lexer_buffer) option" where
  "caml_lex_engine h tbl start_state lexbuf =
     (case lex_entry start_state lexbuf of (state, lexbuf) \<Rightarrow> lex_loop h tbl state lexbuf)"

partial_function (option) run_mem :: "u64 \<Rightarrow> value_t \<Rightarrow> value_t \<Rightarrow> heap \<Rightarrow> heap option" where
  "run_mem pc m curr_pos h =
     (let dst = Byte_u h pc 0
      in if dst = 0xFF then Some h
         else
           (let src = Byte_u h pc 1
            in run_mem (pc + 2) m curr_pos
                 (Field_set h m (ucast dst) (if src = 0xFF then curr_pos else Field h m (ucast src)))))"

declare run_mem.simps [code]

partial_function (option) run_tag :: "u64 \<Rightarrow> value_t \<Rightarrow> heap \<Rightarrow> heap option" where
  "run_tag pc m h =
     (let dst = Byte_u h pc 0
      in if dst = 0xFF then Some h
         else
           (let src = Byte_u h pc 1
            in run_tag (pc + 2) m
                 (Field_set h m (ucast dst) (if src = 0xFF then Val_int (- 1) else Field h m (ucast src)))))"

declare run_tag.simps [code]

text \<open>The moves of positions that go with a transition from \<open>pstate\<close> on \<open>c\<close>.\<close>

definition lex_moves :: "lexing_table \<Rightarrow> cint \<Rightarrow> cint \<Rightarrow> lexer_buffer \<Rightarrow> heap \<Rightarrow> heap option" where
  "lex_moves tbl pstate c lexbuf h =
     (let base_code = Short h (lex_base_code tbl) pstate;
          pc_off = (if Short h (lex_check_code tbl) (base_code + c) = pstate
                    then Short h (lex_trans_code tbl) (base_code + c)
                    else Short h (lex_default_code tbl) pstate)
      in if sint pc_off > 0 then run_mem (lex_code tbl + scast pc_off) (lex_mem lexbuf) (lex_curr_pos lexbuf) h
         else Some h)"

partial_function (option) new_lex_loop ::
  "lexing_table \<Rightarrow> cint \<Rightarrow> lexer_buffer \<Rightarrow> heap \<Rightarrow> (heap \<times> (exn + value_t) \<times> lexer_buffer) option" where
  "new_lex_loop tbl state lexbuf h =
     (let base = Short h (lex_base tbl) state
      in if sint base < 0 then
           Option.bind (run_tag (lex_code tbl + scast (Short h (lex_base_code tbl) state)) (lex_mem lexbuf) h)
           (\<lambda>h. Some (h, Inr (Val_int (- base - 1)), lexbuf))
         else
           (let backtrk = Short h (lex_backtrk tbl) state
            in Option.bind
                 (if sint backtrk \<ge> 0 then
                    Option.bind (run_tag (lex_code tbl + scast (Short h (lex_backtrk_code tbl) state)) (lex_mem lexbuf) h)
                    (\<lambda>h. Some (h, lex_mark backtrk lexbuf))
                  else Some (h, lexbuf))
                 (\<lambda>(h, lexbuf).
                    (let at_end = (sint (lex_curr_pos lexbuf) \<ge> sint (lex_buffer_len lexbuf))
                     in if at_end \<and> lex_eof_reached lexbuf = Val_bool False
                        then Some (h, Inr (Val_int (- state - 1)), lexbuf)
                        else
                          (let c = (if at_end then 256
                                    else ucast (Byte_u h (lex_buffer lexbuf) (Long_val (lex_curr_pos lexbuf))));
                               lexbuf = (if at_end then lexbuf
                                         else lexbuf\<lparr> lex_curr_pos := lex_curr_pos lexbuf + 2 \<rparr>);
                               pstate = state;
                               state = lex_next h tbl state c
                           in if sint state < 0 then
                                (let lexbuf = lexbuf\<lparr> lex_curr_pos := lex_last_pos lexbuf \<rparr>
                                 in if lex_last_action lexbuf = Val_int (- 1)
                                    then Some (h, Inl (Failure ''lexing: empty token''), lexbuf)
                                    else Some (h, Inr (lex_last_action lexbuf), lexbuf))
                              else
                                Option.bind (lex_moves tbl pstate c lexbuf h)
                                (new_lex_loop tbl state
                                   (if c = 256 then lexbuf\<lparr> lex_eof_reached := Val_bool False \<rparr> else lexbuf)))))))"

declare new_lex_loop.simps [code]

definition caml_new_lex_engine ::
  "heap \<Rightarrow> lexing_table \<Rightarrow> value_t \<Rightarrow> lexer_buffer \<Rightarrow> (heap \<times> (exn + value_t) \<times> lexer_buffer) option" where
  "caml_new_lex_engine h tbl start_state lexbuf =
     (case lex_entry start_state lexbuf of (state, lexbuf) \<Rightarrow> new_lex_loop tbl state lexbuf h)"

section \<open>Termination\<close>

definition lex_left :: "lexer_buffer \<Rightarrow> nat" where
  "lex_left lb = nat (sint (lex_buffer_len lb) - sint (lex_curr_pos lb)) + (if lex_eof_reached lb = Val_bool False then 0 else 1)"

lemma sint_step:
  assumes "odd (sint (a :: 64 word))" "odd (sint (b :: 64 word))" "sint a < sint b"
  shows "sint (a + 2) = sint a + 2"
proof -
  have "sint a + 2 \<le> sint b" using assms by presburger
  then have "sint a + 2 < 2 ^ 63" using sint_less [of b] by simp
  then show ?thesis using sint_word_of_int_64 [of "sint a + 2"] sint_greater_eq [of a] by simp
qed

lemma byte_not_256: "(ucast (b :: 8 word) :: 32 word) \<noteq> 256"
proof
  assume "(ucast b :: 32 word) = 256"
  then have "unat (ucast b :: 32 word) = 256" by simp
  then show False using unat_bound [of b] by (simp add: unat_ucast)
qed

lemma lex_mark_simps [simp]:
  "lex_curr_pos (lex_mark k lb) = lex_curr_pos lb" "lex_buffer_len (lex_mark k lb) = lex_buffer_len lb"
  "lex_eof_reached (lex_mark k lb) = lex_eof_reached lb" "lex_start_pos (lex_mark k lb) = lex_start_pos lb"
  "lex_buffer (lex_mark k lb) = lex_buffer lb" "lex_last_pos (lex_mark k lb) = lex_curr_pos lb"
  "lex_last_action (lex_mark k lb) = Val_int k" "lex_mem (lex_mark k lb) = lex_mem lb"
  by (simp_all add: lex_mark_def)

lemma lex_loop_returns:
  "odd (sint (lex_curr_pos lb)) \<Longrightarrow> odd (sint (lex_buffer_len lb)) \<Longrightarrow> \<exists>r. lex_loop h tbl q lb = Some r"
proof (induction "lex_left lb" arbitrary: q lb rule: less_induct)
  case less
  let ?lb = "if sint (Short h (lex_backtrk tbl) q) \<ge> 0 then lex_mark (Short h (lex_backtrk tbl) q) lb else lb"
  have lb: "lex_curr_pos ?lb = lex_curr_pos lb" "lex_buffer_len ?lb = lex_buffer_len lb"
    "lex_eof_reached ?lb = lex_eof_reached lb" by simp_all
  show ?case
  proof (cases "sint (lex_buffer_len lb) \<le> sint (lex_curr_pos lb)")
    case True
    have "\<exists>r. lex_loop h tbl q' (?lb\<lparr> lex_eof_reached := Val_bool False \<rparr>) = Some r"
      if "lex_eof_reached lb \<noteq> Val_bool False" for q'
      by (rule less.hyps) (use that less.prems True in \<open>simp_all add: lex_left_def lb\<close>)
    with True show ?thesis by (subst lex_loop.simps) (simp add: Let_def lb)
  next
    case False
    then have c: "sint (lex_curr_pos lb + 2) = sint (lex_curr_pos lb) + 2" using less.prems sint_step [of "lex_curr_pos lb" "lex_buffer_len lb"] by simp
    have "\<exists>r. lex_loop h tbl q' (?lb\<lparr> lex_curr_pos := lex_curr_pos lb + 2 \<rparr>) = Some r" for q'
      by (rule less.hyps) (use less.prems False c in \<open>simp_all add: lex_left_def lb\<close>)
    with False show ?thesis by (subst lex_loop.simps) (simp add: Let_def lb byte_not_256)
  qed
qed

section \<open>The longest match\<close>

text \<open>What the automaton does from state \<open>q\<close> after \<open>n\<close> characters, with the last backtrack point \<open>best\<close>, on the
  characters \<open>w\<close> followed by the end of the input if \<open>eof\<close> holds: it accepts \<open>k\<close> characters with an action, rejects, or
  waits for more input.  The result holds the last backtrack point and whether the end of the input is still to be read.\<close>

datatype scan_result =
    Accepts nat cint "(nat \<times> cint) option" bool
  | Rejects bool
  | Suspends cint nat "(nat \<times> cint) option"

definition marked :: "heap \<Rightarrow> lexing_table \<Rightarrow> cint \<Rightarrow> nat \<Rightarrow> (nat \<times> cint) option \<Rightarrow> (nat \<times> cint) option" where
  "marked h tbl q n best =
     (if sint (Short h (lex_backtrk tbl) q) \<ge> 0 then Some (n, Short h (lex_backtrk tbl) q) else best)"

definition backtracks :: "(nat \<times> cint) option \<Rightarrow> bool \<Rightarrow> scan_result" where
  "backtracks best eof = (case best of None \<Rightarrow> Rejects eof | Some (k, a) \<Rightarrow> Accepts k a best eof)"

function longest ::
  "heap \<Rightarrow> lexing_table \<Rightarrow> cint \<Rightarrow> nat \<Rightarrow> (nat \<times> cint) option \<Rightarrow> u8 list \<Rightarrow> bool \<Rightarrow> scan_result" where
  "longest h tbl q n best w eof =
     (if sint (Short h (lex_base tbl) q) < 0 then Accepts n (- Short h (lex_base tbl) q - 1) best eof
      else
        (case w of
           [] \<Rightarrow>
             if \<not> eof then Suspends q n (marked h tbl q n best)
             else if sint (lex_next h tbl q 256) < 0 then backtracks (marked h tbl q n best) eof
             else longest h tbl (lex_next h tbl q 256) n (marked h tbl q n best) [] False
         | c # w \<Rightarrow>
             if sint (lex_next h tbl q (ucast c)) < 0 then backtracks (marked h tbl q n best) eof
             else longest h tbl (lex_next h tbl q (ucast c)) (n + 1) (marked h tbl q n best) w eof))"
  by pat_completeness auto
termination by (relation "measure (\<lambda>(h, tbl, q, n, best, w, eof). length w + of_bool eof)") auto

declare longest.simps [simp del]

text \<open>The characters \<open>w\<close> are in the buffer from the current position \<open>p\<close> on.\<close>

definition lex_ready :: "heap \<Rightarrow> lexer_buffer \<Rightarrow> nat \<Rightarrow> u8 list \<Rightarrow> bool \<Rightarrow> bool" where
  "lex_ready h lb p w eof \<longleftrightarrow>
     lex_curr_pos lb = Val_long (of_nat p) \<and> lex_buffer_len lb = Val_long (of_nat (p + length w)) \<and>
     p + length w < 2 ^ 62 \<and> (\<forall>i < length w. Byte_u h (lex_buffer lb) (of_nat (p + i)) = w ! i) \<and>
     lex_eof_reached lb = Val_bool eof"

text \<open>The buffer records the backtrack point \<open>best\<close> of a token that starts at \<open>p\<close>.\<close>

definition lex_best :: "lexer_buffer \<Rightarrow> nat \<Rightarrow> (nat \<times> cint) option \<Rightarrow> bool" where
  "lex_best lb p best \<longleftrightarrow>
     (case best of None \<Rightarrow> lex_last_pos lb = Val_long (of_nat p) \<and> lex_last_action lb = Val_int (- 1)
      | Some (k, a) \<Rightarrow> lex_last_pos lb = Val_long (of_nat (p + k)) \<and> lex_last_action lb = Val_int a \<and> 0 \<le> sint a)"

definition lex_view ::
  "heap \<Rightarrow> lexer_buffer \<Rightarrow> nat \<Rightarrow> nat \<Rightarrow> (nat \<times> cint) option \<Rightarrow> u8 list \<Rightarrow> bool \<Rightarrow> bool" where
  "lex_view h lb p n best w eof \<longleftrightarrow>
     lex_ready h lb (p + n) w eof \<and> lex_start_pos lb = Val_long (of_nat p) \<and> lex_best lb p best"

lemma sint_position: "n < 2 ^ 62 \<Longrightarrow> sint (Val_long (of_nat n)) = 2 * int n + 1"
  using sint_Val_long [of "of_nat n"] by (simp add: sint_of_nat_small Long_limits)

lemma Long_val_position: "n < 2 ^ 62 \<Longrightarrow> Long_val (Val_long (of_nat n)) = of_nat n"
  using Long_val_Val_long [of "of_nat n"] by (simp add: sint_of_nat_small Long_limits)

lemma next_position: "Val_long (of_nat n) + 2 = Val_long (of_nat (Suc n))"
  by (simp add: Val_long_def push_bit_eq_mult)

text \<open>What the C code returns for a result of \<^const>\<open>longest\<close>, and the buffer it leaves.\<close>

fun lex_returns :: "heap \<Rightarrow> nat \<Rightarrow> scan_result \<Rightarrow> (exn + value_t) \<times> lexer_buffer \<Rightarrow> bool" where
  "lex_returns h p (Accepts k a best eof) (r, lb) \<longleftrightarrow>
     r = Inr (Val_int a) \<and> lex_start_pos lb = Val_long (of_nat p) \<and> lex_curr_pos lb = Val_long (of_nat (p + k)) \<and>
     lex_best lb p best \<and> lex_eof_reached lb = Val_bool eof"
| "lex_returns h p (Rejects eof) (r, lb) \<longleftrightarrow>
     r = Inl (Failure ''lexing: empty token'') \<and> lex_start_pos lb = Val_long (of_nat p) \<and>
     lex_curr_pos lb = Val_long (of_nat p) \<and> lex_best lb p None \<and> lex_eof_reached lb = Val_bool eof"
| "lex_returns h p (Suspends q n best) (r, lb) \<longleftrightarrow> r = Inr (Val_int (- q - 1)) \<and> lex_view h lb p n best [] False"

lemma lex_view_mark:
  "lex_view h lb p n best w eof \<Longrightarrow>
   lex_view h (if sint (Short h (lex_backtrk tbl) q) \<ge> 0 then lex_mark (Short h (lex_backtrk tbl) q) lb else lb)
     p n (marked h tbl q n best) w eof"
  by (simp add: lex_view_def lex_ready_def lex_best_def marked_def)

lemma lex_view_end: "lex_view h lb p n best w eof \<Longrightarrow> sint (lex_buffer_len lb) \<le> sint (lex_curr_pos lb) \<longleftrightarrow> w = []"
  using sint_position [of "p + n"] sint_position [of "p + n + length w"] by (auto simp: lex_view_def lex_ready_def)

lemma lex_view_next:
  assumes "lex_view h lb p n best (c # w) eof"
  shows "Byte_u h (lex_buffer lb) (Long_val (lex_curr_pos lb)) = c"
    and "lex_view h (lb\<lparr> lex_curr_pos := lex_curr_pos lb + 2 \<rparr>) p (n + 1) best w eof"
  using assms Long_val_position [of "p + n"] next_position [of "p + n"]
  by (auto simp: lex_view_def lex_ready_def lex_best_def All_less_Suc2 ac_simps split: option.splits)

lemma lex_view_eof: "lex_view h lb p n best w eof \<Longrightarrow> lex_view h (lb\<lparr> lex_eof_reached := Val_bool False \<rparr>) p n best w False"
  by (cases best) (simp_all add: lex_view_def lex_ready_def lex_best_def split_beta)

lemma lex_view_backtracks:
  assumes "lex_view h lb p n best w eof" "lex_last_pos lb' = lex_last_pos lb" "lex_last_action lb' = lex_last_action lb"
    "lex_start_pos lb' = lex_start_pos lb" "lex_eof_reached lb' = lex_eof_reached lb"
  shows "lex_returns h p (backtracks best eof)
    (if lex_last_action lb' = Val_int (- 1) then Inl (Failure ''lexing: empty token'') else Inr (lex_last_action lb'),
     lb'\<lparr> lex_curr_pos := lex_last_pos lb' \<rparr>)"
  using assms by (auto simp: lex_view_def lex_ready_def lex_best_def backtracks_def Val_int_inj split: option.splits)

lemma lex_loop_longest:
  "lex_view h lb p n best w eof \<Longrightarrow>
   \<exists>r. lex_loop h tbl q lb = Some r \<and> lex_returns h p (longest h tbl q n best w eof) r"
proof (induction h tbl q n best w eof arbitrary: lb rule: longest.induct)
  case (1 h tbl q n best w eof)
  let ?lb = "if sint (Short h (lex_backtrk tbl) q) \<ge> 0 then lex_mark (Short h (lex_backtrk tbl) q) lb else lb"
  let ?best = "marked h tbl q n best"
  have v: "lex_view h ?lb p n ?best w eof" using lex_view_mark [OF 1(3)] .
  have s: "lex_start_pos lb = Val_long (of_nat p)" "lex_curr_pos lb = Val_long (of_nat (p + n))"
    "lex_eof_reached lb = Val_bool eof" "lex_best lb p best" using 1(3) by (simp_all add: lex_view_def lex_ready_def)
  note e = lex_view_end [OF 1(3)]
  show ?case
  proof (cases "sint (Short h (lex_base tbl) q) < 0")
    case True
    then show ?thesis using s by (subst lex_loop.simps) (simp add: longest.simps)
  next
    case base: False
    show ?thesis
    proof (cases w)
      case Nil
      show ?thesis
      proof (cases eof)
        case False
        then show ?thesis using base Nil e s v by (subst lex_loop.simps) (auto simp: longest.simps Let_def)
      next
        case True
        let ?q = "lex_next h tbl q 256"
        have l: "lex_loop h tbl q lb = (if sint ?q < 0
            then Some (if lex_last_action ?lb = Val_int (- 1) then Inl (Failure ''lexing: empty token'') else Inr (lex_last_action ?lb),
                       ?lb\<lparr> lex_curr_pos := lex_last_pos ?lb \<rparr>)
            else lex_loop h tbl ?q (?lb\<lparr> lex_eof_reached := Val_bool False \<rparr>))"
          using base Nil e s True by (subst lex_loop.simps) (simp add: Let_def)
        have r: "longest h tbl q n best w eof = (if sint ?q < 0 then backtracks ?best eof else longest h tbl ?q n ?best [] False)"
          using base Nil True by (simp add: longest.simps)
        show ?thesis unfolding l r
          using lex_view_backtracks [OF v refl refl refl refl] 1(1) [OF base Nil _ _ lex_view_eof [OF v [unfolded Nil]]] True by auto
      qed
    next
      case (Cons c w')
      let ?q = "lex_next h tbl q (ucast c)" and ?lb' = "?lb\<lparr> lex_curr_pos := lex_curr_pos lb + 2 \<rparr>"
      note nx = lex_view_next [OF v [unfolded Cons]]
      have l: "lex_loop h tbl q lb = (if sint ?q < 0
          then Some (if lex_last_action ?lb' = Val_int (- 1) then Inl (Failure ''lexing: empty token'') else Inr (lex_last_action ?lb'),
                     ?lb'\<lparr> lex_curr_pos := lex_last_pos ?lb' \<rparr>)
          else lex_loop h tbl ?q ?lb')"
        using base Cons e nx(1) by (subst lex_loop.simps) (simp add: Let_def byte_not_256)
      have r: "longest h tbl q n best w eof = (if sint ?q < 0 then backtracks ?best eof else longest h tbl ?q (n + 1) ?best w' eof)"
        using base Cons by (simp add: longest.simps)
      have v': "lex_view h ?lb' p (n + 1) ?best w' eof" using nx(2) by (simp split: if_splits)
      show ?thesis unfolding l r
        using lex_view_backtracks [OF v, of ?lb'] 1(2) [OF base Cons _ v'] by auto
    qed
  qed
qed

lemma marked_again: "marked h tbl q n (marked h tbl q n best) = marked h tbl q n best"
  by (simp add: marked_def)

lemma longest_marked:
  "\<not> sint (Short h (lex_base tbl) q) < 0 \<Longrightarrow> longest h tbl q n (marked h tbl q n best) w eof = longest h tbl q n best w eof"
  by (cases w) (simp_all add: longest.simps [of h tbl q n] marked_again)

lemma longest_append:
  "longest h tbl q n best w1 False = Suspends q' n' best' \<Longrightarrow>
   longest h tbl q n best (w1 @ w2) eof = longest h tbl q' n' best' w2 eof"
proof (induction w1 arbitrary: q n best)
  case Nil
  then show ?case by (auto simp: longest.simps [of h tbl q n best "[]"] longest_marked split: if_splits)
next
  case (Cons c w1)
  then show ?case
    by (auto simp: longest.simps [of h tbl q n best "c # _"] backtracks_def split: if_splits option.splits)
qed

section \<open>The extent of the tables\<close>

text \<open>The words that hold the first \<open>n\<close> entries of a table \<open>t\<close>, and those of the tables of an automaton with \<open>ns\<close> states and
  \<open>nt\<close> entries of transitions.\<close>

definition lex_words :: "value_t \<Rightarrow> nat \<Rightarrow> u64 set" where
  "lex_words t n = {(t + of_nat i) AND NOT 7 | i. i < 2 * n}"

definition lex_table_words :: "lexing_table \<Rightarrow> nat \<Rightarrow> nat \<Rightarrow> u64 set" where
  "lex_table_words tbl ns nt =
     lex_words (lex_base tbl) ns \<union> lex_words (lex_backtrk tbl) ns \<union> lex_words (lex_default tbl) ns \<union>
     lex_words (lex_trans tbl) nt \<union> lex_words (lex_check tbl) nt"

text \<open>The tables are those of an automaton with the states below \<open>ns\<close>: every entry the engine looks up from one of them is
  among the \<open>nt\<close> entries of transitions and leads to no other state, as \<open>ocamllex\<close> lays them out (\<open>lex/compact.ml\<close>).\<close>

definition lex_wf :: "heap \<Rightarrow> lexing_table \<Rightarrow> nat \<Rightarrow> nat \<Rightarrow> bool" where
  "lex_wf h tbl ns nt \<longleftrightarrow>
     (\<forall>q < ns. let base = sint (Short h (lex_base tbl) (of_nat q))
               in 0 \<le> base \<longrightarrow> base + 256 < int nt \<and> (\<forall>c \<le> 256. sint (lex_next h tbl (of_nat q) (of_nat c)) < int ns))"

text \<open>Two memories that hold the same tables.\<close>

definition same_tables :: "lexing_table \<Rightarrow> nat \<Rightarrow> nat \<Rightarrow> heap \<Rightarrow> heap \<Rightarrow> bool" where
  "same_tables tbl ns nt h h' \<longleftrightarrow> (\<forall>a \<in> lex_table_words tbl ns nt. h' a = h a)"

lemma Short_cong:
  assumes "\<forall>a \<in> lex_words t n. h' a = h a" "0 \<le> sint k" "sint k < int n"
  shows "Short h' t k = Short h t k"
proof -
  have k: "2 * scast k = (of_nat (2 * nat (sint k)) :: u64)" using assms(2) by (simp add: scast_eq del: of_int_sint)
  have "Byte_u h' t (of_nat i) = Byte_u h t (of_nat i)" if "i < 2 * n" for i
    using assms(1) that by (auto simp: Byte_u_def Let_def lex_words_def)
  from this [of "2 * nat (sint k)"] this [of "2 * nat (sint k) + 1"] show ?thesis
    using assms(2,3) unfolding Short_def k by (simp add: add.commute)
qed

lemma sint_Short: "- (2 ^ 15) \<le> sint (Short h t k)" "sint (Short h t k) < 2 ^ 15"
proof -
  have "sint (scast x :: cint) = sint x" for x :: "16 word"
    using sint_greater_eq [of x] sint_less [of x]
    by (simp only: scast_eq signed_of_int) (simp add: signed_take_bit_int_eq_self)
  then show "- (2 ^ 15) \<le> sint (Short h t k)" "sint (Short h t k) < 2 ^ 15"
    unfolding Short_def using sint_greater_eq [where ?'a = 16] sint_less [where ?'a = 16] by simp_all
qed

lemma sint_entry:
  assumes "0 \<le> sint (c :: cint)" "sint c \<le> 256" "0 \<le> sint (Short h t k)"
  shows "sint (Short h t k + c) = sint (Short h t k) + sint c"
proof -
  have "sint (word_of_int (sint (Short h t k) + sint c) :: cint) = sint (Short h t k) + sint c"
    using assms sint_Short(2) [of h t k] by (simp only: signed_of_int) (simp add: signed_take_bit_int_eq_self)
  then show ?thesis by simp
qed

lemma cint_nat: "0 \<le> sint (q :: cint) \<Longrightarrow> of_nat (nat (sint q)) = q"
  by (simp add: of_nat_nat)

lemma lex_wf_next:
  assumes "lex_wf h tbl ns nt" "0 \<le> sint q" "sint q < int ns" "0 \<le> sint (Short h (lex_base tbl) q)" "0 \<le> sint c" "sint c \<le> 256"
  shows "sint (Short h (lex_base tbl) q) + sint c < int nt" "sint (lex_next h tbl q c) < int ns"
proof -
  have "sint (Short h (lex_base tbl) q) + 256 < int nt \<and> (\<forall>c \<le> 256. sint (lex_next h tbl q (of_nat c)) < int ns)"
    using assms(1) [unfolded lex_wf_def, rule_format, of "nat (sint q)"] assms(2-4) by (simp add: cint_nat Let_def nat_less_iff)
  then show "sint (Short h (lex_base tbl) q) + sint c < int nt" "sint (lex_next h tbl q c) < int ns"
    using assms(5,6) spec [of "\<lambda>c. c \<le> 256 \<longrightarrow> sint (lex_next h tbl q (of_nat c)) < int ns" "nat (sint c)"] by (simp_all add: cint_nat)
qed

lemma same_tables_cong:
  assumes "lex_wf h tbl ns nt" "same_tables tbl ns nt h h'" "0 \<le> sint q" "sint q < int ns"
  shows "Short h' (lex_base tbl) q = Short h (lex_base tbl) q" "marked h' tbl q = marked h tbl q"
    and "0 \<le> sint (Short h (lex_base tbl) q) \<Longrightarrow> 0 \<le> sint c \<Longrightarrow> sint c \<le> 256 \<Longrightarrow> lex_next h' tbl q c = lex_next h tbl q c"
proof -
  note s = assms(2) [unfolded same_tables_def lex_table_words_def]
  show b: "Short h' (lex_base tbl) q = Short h (lex_base tbl) q" by (rule Short_cong [OF _ assms(3,4)]) (use s in blast)
  have "Short h' (lex_backtrk tbl) q = Short h (lex_backtrk tbl) q" by (rule Short_cong [OF _ assms(3,4)]) (use s in blast)
  then show "marked h' tbl q = marked h tbl q" by (simp add: marked_def fun_eq_iff)
  assume c: "0 \<le> sint (Short h (lex_base tbl) q)" "0 \<le> sint c" "sint c \<le> 256"
  let ?k = "Short h (lex_base tbl) q + c"
  have k: "0 \<le> sint ?k" "sint ?k < int nt"
    using c lex_wf_next(1) [OF assms(1,3,4) c] by (simp_all add: sint_entry)
  have "Short h' (lex_default tbl) q = Short h (lex_default tbl) q" by (rule Short_cong [OF _ assms(3,4)]) (use s in blast)
  moreover have "Short h' (lex_check tbl) ?k = Short h (lex_check tbl) ?k" by (rule Short_cong [OF _ k]) (use s in blast)
  moreover have "Short h' (lex_trans tbl) ?k = Short h (lex_trans tbl) ?k" by (rule Short_cong [OF _ k]) (use s in blast)
  ultimately show "lex_next h' tbl q c = lex_next h tbl q c" by (simp add: lex_next_def b Let_def)
qed

lemma sint_byte: "0 \<le> sint (ucast (c :: u8) :: cint)" "sint (ucast c :: cint) \<le> 256"
proof -
  have "sint (ucast c :: cint) = uint c"
    using uint_lt2p [of c] signed_take_bit_int_eq_self [of 31 "uint c"] order_trans [OF _ uint_ge_0 [of c], of "- (2 ^ 31)"]
    by (simp add: signed_ucast_eq)
  then show "0 \<le> sint (ucast c :: cint)" "sint (ucast c :: cint) \<le> 256" using uint_lt2p [of c] by simp_all
qed

lemma longest_cong:
  "lex_wf h tbl ns nt \<Longrightarrow> same_tables tbl ns nt h h' \<Longrightarrow> 0 \<le> sint q \<Longrightarrow> sint q < int ns \<Longrightarrow>
   longest h' tbl q n best w eof = longest h tbl q n best w eof"
proof (induction h tbl q n best w eof rule: longest.induct)
  case (1 h tbl q n best w eof)
  note c = same_tables_cong [OF 1(3-6)]
  show ?case
  proof (cases "sint (Short h (lex_base tbl) q) < 0")
    case True
    then show ?thesis by (simp add: longest.simps [of _ tbl q n] c(1))
  next
    case False
    have nx: "lex_next h' tbl q d = lex_next h tbl q d" "sint (lex_next h tbl q d) < int ns" if "0 \<le> sint d" "sint d \<le> 256" for d
      using c(3) [of d] lex_wf_next(2) [OF 1(3,5,6), of d] False that by simp_all
    have n256: "lex_next h' tbl q 256 = lex_next h tbl q 256" "sint (lex_next h tbl q 256) < int ns" using nx [of 256] by simp_all
    show ?thesis
      using 1(1) [OF False _ _ _ 1(3,4) _ n256(2)] 1(2) [OF False _ _ 1(3,4) _ nx(2)] False c n256 nx(1) sint_byte
      by (cases w) (simp_all add: longest.simps [of _ tbl q n])
  qed
qed

section \<open>Entering and resuming the automaton\<close>

lemma engine_first:
  assumes "0 \<le> sint q" "lex_ready h lb p w eof"
  shows "\<exists>r. caml_lex_engine h tbl (Val_int q) lb = Some r \<and> lex_returns h p (longest h tbl q 0 None w eof) r"
proof -
  let ?lb = "snd (lex_entry (Val_int q) lb)"
  have "lex_view h ?lb p 0 None w eof" using assms by (simp add: lex_entry_def Let_def lex_view_def lex_ready_def lex_best_def)
  from lex_loop_longest [OF this] show ?thesis
    using assms(1) by (simp add: caml_lex_engine_def lex_entry_def Let_def)
qed

lemma sint_resume: "sint (- q - 1 :: cint) = - sint q - 1"
proof -
  have "sint (word_of_int (- sint q - 1) :: cint) = - sint q - 1"
    using sint_greater_eq [of q] sint_less [of q] by (simp only: signed_of_int) (simp add: signed_take_bit_int_eq_self)
  then show ?thesis by simp
qed

lemma engine_again:
  assumes "0 \<le> sint q" "lex_view h lb p n best w eof"
  shows "\<exists>r. caml_lex_engine h tbl (Val_int (- q - 1)) lb = Some r \<and> lex_returns h p (longest h tbl q n best w eof) r"
  using lex_loop_longest [OF assms(2)] assms(1) sint_resume [of q] by (simp add: caml_lex_engine_def lex_entry_def Let_def)

lemma final_action: "sint (Short h t n) < 0 \<Longrightarrow> 0 \<le> sint (- Short h t n - 1)"
  using sint_resume [of "Short h t n"] by simp

lemma longest_accepts:
  "longest h tbl q n best w eof = Accepts k a best' eof' \<Longrightarrow> (\<And>j b. best = Some (j, b) \<Longrightarrow> 0 \<le> sint b) \<Longrightarrow> 0 \<le> sint a"
proof (induction h tbl q n best w eof rule: longest.induct)
  case (1 h tbl q n best w eof)
  have m: "0 \<le> sint b" if "marked h tbl q n best = Some (j, b)" for j b
    using that 1(4) by (auto simp: marked_def split: if_splits)
  show ?case
    using 1(1) [OF _ _ _ _ _ m] 1(2) [OF _ _ _ _ m] 1(3) m
    by (subst (asm) (3) longest.simps) (auto simp: final_action backtracks_def split: if_splits list.splits option.splits)
qed

lemma longest_suspends:
  "longest h tbl q n best w eof = Suspends q' n' best' \<Longrightarrow> lex_wf h tbl ns nt \<Longrightarrow> 0 \<le> sint q \<Longrightarrow> sint q < int ns \<Longrightarrow>
   0 \<le> sint q' \<and> sint q' < int ns"
proof (induction h tbl q n best w eof rule: longest.induct)
  case (1 h tbl q n best w eof)
  have nx: "sint (lex_next h tbl q 256) < int ns" "sint (lex_next h tbl q (ucast c)) < int ns"
    if "\<not> sint (Short h (lex_base tbl) q) < 0" for c :: u8
    using that lex_wf_next(2) [OF 1(4-6), of 256] lex_wf_next(2) [OF 1(4-6), of "ucast c"] sint_byte [of c] by simp_all
  show ?case
    using 1(3) 1(1,2,4-6) nx
    by (subst (asm) longest.simps) (auto simp: backtracks_def split: if_splits list.splits option.splits)
qed

lemma rev_upt_Suc: "rev [0..<Suc (Suc d)] = map Suc (rev [0..<Suc d]) @ [0]"
proof -
  have "[0..<Suc (Suc d)] = 0 # map Suc [0..<Suc d]" by (simp add: upt_conv_Cons map_Suc_upt del: upt_Suc)
  then show ?thesis by (simp add: rev_map del: upt_Suc)
qed

text \<open>The symbols the automaton reads, 256 for the end of the input, and its state after \<open>k\<close> of them.\<close>

definition lex_symbols :: "u8 list \<Rightarrow> bool \<Rightarrow> cint list" where
  "lex_symbols w eof = map ucast w @ (if eof then [256] else [])"

definition lex_run :: "heap \<Rightarrow> lexing_table \<Rightarrow> cint \<Rightarrow> cint list \<Rightarrow> nat \<Rightarrow> cint" where
  "lex_run h tbl q syms k = foldl (lex_next h tbl) q (take k syms)"

text \<open>The automaton stops after \<open>d\<close> symbols: it has come to a final state, to the end of the symbols, or to a state with no
  transition on the next one, and not before.\<close>

definition lex_stops :: "heap \<Rightarrow> lexing_table \<Rightarrow> cint \<Rightarrow> cint list \<Rightarrow> nat \<Rightarrow> bool" where
  "lex_stops h tbl q syms d \<longleftrightarrow>
     d \<le> length syms \<and>
     (\<forall>k < d. 0 \<le> sint (Short h (lex_base tbl) (lex_run h tbl q syms k)) \<and> 0 \<le> sint (lex_run h tbl q syms (Suc k))) \<and>
     (sint (Short h (lex_base tbl) (lex_run h tbl q syms d)) < 0 \<or> d = length syms \<or>
      sint (lex_run h tbl q syms (Suc d)) < 0)"

text \<open>The last of the first \<open>d + 1\<close> states that has an action.\<close>

definition lex_backtrack :: "heap \<Rightarrow> lexing_table \<Rightarrow> cint \<Rightarrow> cint list \<Rightarrow> nat \<Rightarrow> nat option" where
  "lex_backtrack h tbl q syms d =
     find (\<lambda>k. 0 \<le> sint (Short h (lex_backtrk tbl) (lex_run h tbl q syms k))) (rev [0..<Suc d])"

text \<open>The result and the length of the token when the automaton stops after \<open>d\<close> symbols: the action of the final state, a
  request for a refill in the state reached, or the action of the last state on the way that has one.\<close>

definition lex_match :: "heap \<Rightarrow> lexing_table \<Rightarrow> cint \<Rightarrow> cint list \<Rightarrow> nat \<Rightarrow> (exn + value_t) \<times> nat" where
  "lex_match h tbl q syms d =
     (let s = lex_run h tbl q syms d; base = Short h (lex_base tbl) s
      in if sint base < 0 then (Inr (Val_int (- base - 1)), d)
         else if d = length syms then (Inr (Val_int (- s - 1)), d)
         else
           (case lex_backtrack h tbl q syms d of
              None \<Rightarrow> (Inl (Failure ''lexing: empty token''), 0)
            | Some m \<Rightarrow> (Inr (Val_int (Short h (lex_backtrk tbl) (lex_run h tbl q syms m))), m)))"

lemma lex_run_simps [simp]:
  "lex_run h tbl q syms 0 = q" "lex_run h tbl q (c # syms) (Suc k) = lex_run h tbl (lex_next h tbl q c) syms k"
  by (simp_all add: lex_run_def)

lemma lex_symbols_simps [simp]:
  "lex_symbols [] False = []" "lex_symbols [] True = [256]" "lex_symbols (c # w) eof = ucast c # lex_symbols w eof"
  by (simp_all add: lex_symbols_def)

lemma lex_stops_Suc:
  "lex_stops h tbl q (c # syms) (Suc d) \<longleftrightarrow>
     0 \<le> sint (Short h (lex_base tbl) q) \<and> 0 \<le> sint (lex_next h tbl q c) \<and> lex_stops h tbl (lex_next h tbl q c) syms d"
  by (auto simp: lex_stops_def All_less_Suc2)

lemma lex_backtrack_0: "lex_backtrack h tbl q syms 0 = (if 0 \<le> sint (Short h (lex_backtrk tbl) q) then Some 0 else None)"
  by (simp add: lex_backtrack_def)

lemma lex_backtrack_Suc:
  "lex_backtrack h tbl q (c # syms) (Suc d) =
     (case lex_backtrack h tbl (lex_next h tbl q c) syms d of
        None \<Rightarrow> if 0 \<le> sint (Short h (lex_backtrk tbl) q) then Some 0 else None | Some m \<Rightarrow> Some (Suc m))"
  unfolding lex_backtrack_def rev_upt_Suc find_append find_map by (simp add: comp_def split: option.split)

lemma lex_backtrack_le: "lex_backtrack h tbl q syms d = Some m \<Longrightarrow> m \<le> d"
  unfolding lex_backtrack_def find_Some_iff by (auto simp: rev_nth simp del: upt_Suc)

text \<open>The same for a scan that goes on after \<open>n\<close> characters with the backtrack point \<open>best\<close>; \<open>l\<close> characters are left.\<close>

fun scan_value :: "scan_result \<Rightarrow> (exn + value_t) \<times> nat" where
  "scan_value (Accepts k a best eof) = (Inr (Val_int a), k)"
| "scan_value (Rejects eof) = (Inl (Failure ''lexing: empty token''), 0)"
| "scan_value (Suspends q n best) = (Inr (Val_int (- q - 1)), n)"

definition lex_match_from ::
  "heap \<Rightarrow> lexing_table \<Rightarrow> cint \<Rightarrow> cint list \<Rightarrow> nat \<Rightarrow> nat \<Rightarrow> (nat \<times> cint) option \<Rightarrow> nat \<Rightarrow> (exn + value_t) \<times> nat" where
  "lex_match_from h tbl q syms l n best d =
     (let s = lex_run h tbl q syms d; base = Short h (lex_base tbl) s
      in if sint base < 0 then (Inr (Val_int (- base - 1)), n + min d l)
         else if d = length syms then (Inr (Val_int (- s - 1)), n + l)
         else
           (case lex_backtrack h tbl q syms d of
              None \<Rightarrow> scan_value (backtracks best False)
            | Some m \<Rightarrow> (Inr (Val_int (Short h (lex_backtrk tbl) (lex_run h tbl q syms m))), n + m)))"

lemma lex_match_from_Suc:
  assumes "0 \<le> sint (Short h (lex_base tbl) q)" "l' + n' = l + n" "min (Suc d) l + n = min d l' + n'"
    and "lex_backtrack h tbl (lex_next h tbl q c) syms d \<noteq> None \<longrightarrow> d \<noteq> length syms \<longrightarrow> n' = Suc n"
  shows "lex_match_from h tbl (lex_next h tbl q c) syms l' n' (marked h tbl q n best) d =
    lex_match_from h tbl q (c # syms) l n best (Suc d)"
  using assms
  by (auto simp: lex_match_from_def Let_def lex_backtrack_Suc marked_def backtracks_def ac_simps split: option.split)

lemma longest_match:
  "\<exists>d. lex_stops h tbl q (lex_symbols w eof) d \<and>
    scan_value (longest h tbl q n best w eof) = lex_match_from h tbl q (lex_symbols w eof) (length w) n best d"
proof (induction h tbl q n best w eof rule: longest.induct)
  case (1 h tbl q n best w eof)
  let ?best = "marked h tbl q n best"
  have stop: ?case if "lex_stops h tbl q (lex_symbols w eof) 0"
    "scan_value (longest h tbl q n best w eof) = lex_match_from h tbl q (lex_symbols w eof) (length w) n best 0"
    using that by blast
  show ?case
  proof (cases "sint (Short h (lex_base tbl) q) < 0")
    case True
    show ?thesis by (rule stop) (use True in \<open>simp_all add: lex_stops_def lex_match_from_def longest.simps [of h tbl q]\<close>)
  next
    case base: False
    have b: "scan_value (backtracks ?best eof) = lex_match_from h tbl q (c # syms) l n best 0" for c syms l
      using base by (simp add: lex_match_from_def lex_backtrack_0 marked_def backtracks_def split: option.split)
    show ?thesis
    proof (cases w)
      case Nil
      consider "\<not> eof" | "eof" "sint (lex_next h tbl q 256) < 0" | "eof" "\<not> sint (lex_next h tbl q 256) < 0" by blast
      then show ?thesis
      proof cases
        case 1
        show ?thesis by (rule stop) (use base Nil 1 in \<open>simp_all add: lex_stops_def lex_match_from_def longest.simps [of h tbl q]\<close>)
      next
        case 2
        show ?thesis
          by (rule stop) (use base Nil 2 b in \<open>simp_all add: lex_stops_def longest.simps [of h tbl q]\<close>)
      next
        case 3
        obtain d where d: "lex_stops h tbl (lex_next h tbl q 256) [] d" "scan_value (longest h tbl (lex_next h tbl q 256) n ?best [] False) =
            lex_match_from h tbl (lex_next h tbl q 256) [] 0 n ?best d" using 1(1) [OF base Nil _ 3(2)] 3(1) by auto
        then have "d = 0" by (simp add: lex_stops_def)
        with d 3 base Nil lex_match_from_Suc [of h tbl q 0 n 0 n 0 256 "[]" best] show ?thesis
          by (intro exI [of _ "Suc d"]) (simp add: lex_stops_Suc longest.simps [of h tbl q])
      qed
    next
      case (Cons c w')
      let ?q = "lex_next h tbl q (ucast c)"
      show ?thesis
      proof (cases "sint ?q < 0")
        case True
        show ?thesis by (rule stop) (use base Cons True b in \<open>simp_all add: lex_stops_def longest.simps [of h tbl q]\<close>)
      next
        case False
        obtain d where d: "lex_stops h tbl ?q (lex_symbols w' eof) d" "scan_value (longest h tbl ?q (n + 1) ?best w' eof) =
            lex_match_from h tbl ?q (lex_symbols w' eof) (length w') (n + 1) ?best d" using 1(2) [OF base Cons False] by auto
        with False base Cons lex_match_from_Suc [of h tbl q "length w'" "n + 1" "length w" n d "ucast c" "lex_symbols w' eof" best]
        show ?thesis by (intro exI [of _ "Suc d"]) (simp add: lex_stops_Suc longest.simps [of h tbl q])
      qed
    qed
  qed
qed

text \<open>C18: The automaton always stops: whatever the tables and the memory hold, an engine whose buffer has integers as
  positions returns an action, asks for a refill or raises \<open>Failure\<close>; it never runs forever.\<close>

theorem lex_engine_terminates:
  assumes "Is_long (lex_curr_pos lb)" "Is_long (lex_buffer_len lb)"
  shows "\<exists>r lb'. caml_lex_engine h tbl start_state lb = Some (r, lb')"
proof -
  obtain q lb0 where e: "lex_entry start_state lb = (q, lb0)" by (cases "lex_entry start_state lb")
  then have "lex_curr_pos lb0 = lex_curr_pos lb" "lex_buffer_len lb0 = lex_buffer_len lb"
    by (auto simp: lex_entry_def Let_def split: if_splits)
  then have "\<exists>r. lex_loop h tbl q lb0 = Some r"
    using assms by (intro lex_loop_returns) (simp_all add: Is_long_bit odd_sint)
  then show ?thesis by (auto simp: caml_lex_engine_def e)
qed

text \<open>C16: An engine matches the longest prefix, on every kind of state and also at the end of the input.  Let the
  automaton stop after \<open>d\<close> symbols, the characters in the buffer and then the end of the input when it has been reached.
  In a final state the engine returns its action; when all symbols are read it returns a request for a refill in the state
  reached; when there is no transition on the next symbol it returns the action of the last of the \<open>d + 1\<close> states on the
  way that has one, with the current position just after the prefix that led there, and raises \<open>Failure\<close> at the start of
  the token when none has an action.\<close>

theorem lex_engine_longest_match:
  assumes "0 \<le> sint q" "lex_ready h lb p w eof"
  shows "\<exists>d r k lb'. lex_stops h tbl q (lex_symbols w eof) d \<and> lex_match h tbl q (lex_symbols w eof) d = (r, k) \<and>
    caml_lex_engine h tbl (Val_int q) lb = Some (r, lb') \<and> lex_start_pos lb' = Val_long (of_nat p) \<and>
    lex_curr_pos lb' = Val_long (of_nat (p + min k (length w)))"
proof -
  let ?syms = "lex_symbols w eof"
  obtain d where d: "lex_stops h tbl q ?syms d"
    "scan_value (longest h tbl q 0 None w eof) = lex_match_from h tbl q ?syms (length w) 0 None d" using longest_match by blast
  obtain r lb' where e: "caml_lex_engine h tbl (Val_int q) lb = Some (r, lb')"
    "lex_returns h p (longest h tbl q 0 None w eof) (r, lb')"
    using engine_first [OF assms, of tbl] by auto
  obtain k where v: "scan_value (longest h tbl q 0 None w eof) = (r, k)" "lex_start_pos lb' = Val_long (of_nat p)"
    "lex_curr_pos lb' = Val_long (of_nat (p + k))"
    using e(2) by (cases "longest h tbl q 0 None w eof") (auto simp: lex_view_def lex_ready_def)
  have "lex_match_from h tbl q ?syms (length w) 0 None d =
      (fst (lex_match h tbl q ?syms d), min (snd (lex_match h tbl q ?syms d)) (length w))"
    using d(1) lex_backtrack_le [of h tbl q ?syms d]
    by (auto simp: lex_match_from_def lex_match_def Let_def backtracks_def lex_stops_def lex_symbols_def split: option.split)
  then show ?thesis using d v e(1) by (intro exI [of _ d]) (cases "lex_match h tbl q ?syms d", simp)
qed

text \<open>The buffer after a refill: its positions have moved down by \<open>d\<close> characters and the characters \<open>w\<close> follow.\<close>

definition lex_refilled :: "lexer_buffer \<Rightarrow> nat \<Rightarrow> heap \<Rightarrow> lexer_buffer \<Rightarrow> u8 list \<Rightarrow> bool \<Rightarrow> bool" where
  "lex_refilled lb d h' lb' w eof \<longleftrightarrow>
     lex_start_pos lb' = lex_start_pos lb - 2 * of_nat d \<and> lex_curr_pos lb' = lex_curr_pos lb - 2 * of_nat d \<and>
     lex_last_pos lb' = lex_last_pos lb - 2 * of_nat d \<and> lex_last_action lb' = lex_last_action lb \<and>
     (\<exists>c. lex_ready h' lb' c w eof)"

text \<open>Two buffers in which the engine has left the same token and the same last backtrack point, counted from the start of
  the token, and the same end-of-input flag: these are the fields it writes.\<close>

definition lex_same :: "lexer_buffer \<Rightarrow> lexer_buffer \<Rightarrow> bool" where
  "lex_same lb lb' \<longleftrightarrow>
     lex_curr_pos lb - lex_start_pos lb = lex_curr_pos lb' - lex_start_pos lb' \<and>
     lex_last_pos lb - lex_start_pos lb = lex_last_pos lb' - lex_start_pos lb' \<and>
     lex_last_action lb = lex_last_action lb' \<and> lex_eof_reached lb = lex_eof_reached lb'"

lemma position_diff: "d \<le> a \<Longrightarrow> Val_long (of_nat a) - 2 * of_nat d = Val_long (of_nat (a - d))"
  by (auto simp: Val_long_def push_bit_eq_mult distrib_left dest!: le_Suc_ex)

lemma position_inj: "a < 2 ^ 62 \<Longrightarrow> b < 2 ^ 62 \<Longrightarrow> Val_long (of_nat a) = Val_long (of_nat b) \<Longrightarrow> a = b"
  using sint_position [of a] sint_position [of b] by (metis add_right_cancel mult_cancel_left of_nat_eq_iff zero_neq_numeral)

lemma lex_refilled_view:
  assumes "lex_view h lb p n best [] False" "lex_refilled lb d h' lb' w eof" "d \<le> p"
  shows "lex_view h' lb' (p - d) n best w eof"
proof -
  obtain c where c: "lex_ready h' lb' c w eof" using assms(2) by (auto simp: lex_refilled_def)
  have "Val_long (of_nat c) = Val_long (of_nat (p + n - d))"
    using c assms position_diff [of d "p + n"] by (simp add: lex_ready_def lex_refilled_def lex_view_def)
  moreover have "c < 2 ^ 62" "p + n < 2 ^ 62" using c assms(1) by (simp_all add: lex_ready_def lex_view_def)
  ultimately have "c = p + n - d" using position_inj [of c "p + n - d"] by linarith
  then have "c = p - d + n" using assms(3) by simp
  moreover have "Val_long (of_nat (p + k)) - 2 * of_nat d = Val_long (of_nat (p - d + k))" for k
    using position_diff [of d "p + k"] assms(3) by simp
  moreover note c assms(1,2) position_diff [OF assms(3)]
  ultimately show ?thesis by (cases best) (simp_all add: lex_view_def lex_refilled_def lex_best_def split_beta)
qed

lemma lex_returns_same:
  assumes "lex_returns h p res (r, lb)" "lex_returns h' p' res (r', lb')"
  shows "r = r'" "lex_same lb lb'"
proof -
  have d: "Val_long (of_nat (a + k)) - Val_long (of_nat a) = 2 * of_nat k" for a k
    by (simp add: Val_long_def push_bit_eq_mult distrib_left)
  have "lex_last_pos lb - Val_long (of_nat p) = lex_last_pos lb' - Val_long (of_nat p') \<and> lex_last_action lb = lex_last_action lb'"
    if "lex_best lb p best" "lex_best lb' p' best" for best
    using that d by (cases best) (auto simp: lex_best_def)
  with assms d show "r = r'" "lex_same lb lb'" by (cases res; auto simp: lex_same_def lex_view_def lex_ready_def)+
qed

text \<open>C17: A refill is transparent.  When the engine runs out of characters and returns a negative number, passing that
  number back after a refill, which may have moved the characters and the tables' surroundings but not changed the tables,
  gives the same action, error or further refill request as one call on a buffer that held all the characters from the
  start, and leaves every field of the buffer that the engine writes the same, the positions counted from the start of the
  token.\<close>

theorem lex_engine_refill:
  assumes "0 \<le> sint q" "sint q < int ns" "lex_wf h tbl ns nt" "lex_ready h lb p w1 False"
    and "caml_lex_engine h tbl (Val_int q) lb = Some (Inr (Val_int s), lb1)" "sint s < 0"
    and "lex_refilled lb1 d h' lb2 w2 eof" "d \<le> p" "same_tables tbl ns nt h h'"
    and "lex_ready h'' lbw p' (w1 @ w2) eof" "same_tables tbl ns nt h h''"
  shows "\<exists>r lb' lbw'. caml_lex_engine h' tbl (Val_int s) lb2 = Some (r, lb') \<and>
    caml_lex_engine h'' tbl (Val_int q) lbw = Some (r, lbw') \<and> lex_same lb' lbw'"
proof -
  have r1: "lex_returns h p (longest h tbl q 0 None w1 False) (Inr (Val_int s), lb1)"
    using engine_first [OF assms(1,4), of tbl] assms(5) by auto
  then obtain q' n best where l: "longest h tbl q 0 None w1 False = Suspends q' n best"
    using assms(6) longest_accepts [of h tbl q 0 None w1 False]
    by (cases "longest h tbl q 0 None w1 False") (auto simp: Val_int_inj)
  then have s: "s = - q' - 1" "lex_view h lb1 p n best [] False" using r1 by (simp_all add: Val_int_inj)
  have q': "0 \<le> sint q'" "sint q' < int ns" using longest_suspends [OF l assms(3,1,2)] by simp_all
  obtain r lb' where r: "caml_lex_engine h' tbl (Val_int s) lb2 = Some (r, lb')"
    "lex_returns h' (p - d) (longest h' tbl q' n best w2 eof) (r, lb')"
    using engine_again [OF q'(1) lex_refilled_view [OF s(2) assms(7,8)], of tbl] unfolding s(1) by auto
  obtain rw lbw' where rw: "caml_lex_engine h'' tbl (Val_int q) lbw = Some (rw, lbw')"
    "lex_returns h'' p' (longest h'' tbl q 0 None (w1 @ w2) eof) (rw, lbw')"
    using engine_first [OF assms(1,10), of tbl] by auto
  have "longest h'' tbl q 0 None (w1 @ w2) eof = longest h' tbl q' n best w2 eof"
    by (simp add: longest_cong [OF assms(3,11,1,2)] longest_cong [OF assms(3,9) q'] longest_append [OF l])
  then show ?thesis using lex_returns_same [OF r(2)] rw r(1) by auto
qed

section \<open>The engine with a memory of positions\<close>

text \<open>The \<open>nm\<close> fields of the memory \<open>m\<close>, and two memories that agree outside some words.\<close>

definition lex_cells :: "value_t \<Rightarrow> nat \<Rightarrow> u64 set" where
  "lex_cells m nm = {m + 8 * of_nat i | i. i < nm}"

definition agree_but :: "u64 set \<Rightarrow> heap \<Rightarrow> heap \<Rightarrow> bool" where
  "agree_but W h h' \<longleftrightarrow> (\<forall>a. a \<notin> W \<longrightarrow> h' a = h a)"

lemma agree_Byte_u: "agree_but W h h' \<Longrightarrow> (x + i) AND NOT 7 \<notin> W \<Longrightarrow> Byte_u h' x i = Byte_u h x i"
  by (simp add: agree_but_def Byte_u_def Let_def)

lemma agree_Field_set:
  assumes "agree_but (lex_cells m nm) h h'" "unat (dst :: u8) < nm"
  shows "agree_but (lex_cells m nm) h (Field_set h' m (ucast dst) v)"
proof -
  have "m + 8 * ucast dst = m + 8 * of_nat (unat dst)" by simp
  then have "m + 8 * ucast dst \<in> lex_cells m nm" using assms(2) unfolding lex_cells_def by blast
  then show ?thesis using assms(1) by (auto simp: agree_but_def Field_set_def)
qed

text \<open>The code that starts at \<open>pc\<close> writes only fields below \<open>nm\<close>, ends, and lies outside the memory of positions.\<close>

definition code_ends :: "heap \<Rightarrow> value_t \<Rightarrow> nat \<Rightarrow> u64 \<Rightarrow> bool" where
  "code_ends h m nm pc \<longleftrightarrow>
     (\<exists>k. Byte_u h (pc + 2 * of_nat k) 0 = 0xFF \<and> (\<forall>j < k. unat (Byte_u h (pc + 2 * of_nat j) 0) < nm) \<and>
          (\<forall>j \<le> 2 * k. (pc + of_nat j) AND NOT 7 \<notin> lex_cells m nm))"

lemma code_ends_induct:
  assumes "code_ends h m nm pc"
    and "\<And>pc. Byte_u h pc 0 = 0xFF \<Longrightarrow> pc AND NOT 7 \<notin> lex_cells m nm \<Longrightarrow> P pc"
    and "\<And>pc. Byte_u h pc 0 \<noteq> 0xFF \<Longrightarrow> unat (Byte_u h pc 0) < nm \<Longrightarrow> pc AND NOT 7 \<notin> lex_cells m nm \<Longrightarrow> P (pc + 2) \<Longrightarrow> P pc"
  shows "P pc"
proof -
  obtain k where "Byte_u h (pc + 2 * of_nat k) 0 = 0xFF" "\<forall>j < k. unat (Byte_u h (pc + 2 * of_nat j) 0) < nm"
    "\<forall>j \<le> 2 * k. (pc + of_nat j) AND NOT 7 \<notin> lex_cells m nm"
    using assms(1) by (auto simp: code_ends_def)
  then show ?thesis
  proof (induction k arbitrary: pc)
    case 0
    then show ?case using assms(2) by simp
  next
    case (Suc k)
    have p: "pc AND NOT 7 \<notin> lex_cells m nm" "unat (Byte_u h pc 0) < nm"
      using Suc.prems(3) [rule_format, of 0] Suc.prems(2) [rule_format, of 0] by simp_all
    have "P (pc + 2)"
    proof (rule Suc.IH)
      show "\<forall>j \<le> 2 * k. (pc + 2 + of_nat j) AND NOT 7 \<notin> lex_cells m nm"
        using Suc.prems(3) by (auto simp: add.assoc dest: spec [of _ "2 + _"])
      show "\<forall>j < k. unat (Byte_u h (pc + 2 + 2 * of_nat j) 0) < nm"
        using Suc.prems(2) by (auto simp: algebra_simps dest: spec [of _ "Suc _"])
    qed (use Suc.prems(1) in \<open>simp add: algebra_simps\<close>)
    then show ?case using assms(2,3) p by blast
  qed
qed

lemma run_tag_agrees:
  assumes "code_ends h0 m nm pc" "agree_but (lex_cells m nm) h0 h"
  shows "\<exists>h'. run_tag pc m h = Some h' \<and> agree_but (lex_cells m nm) h0 h'"
  using assms(2)
proof (induction arbitrary: h rule: code_ends_induct [OF assms(1)])
  case (1 pc)
  then show ?case using agree_Byte_u [of _ h0 h pc 0] by (subst run_tag.simps) (simp add: Let_def)
next
  case (2 pc)
  then show ?case using agree_Byte_u [of _ h0 h pc 0] agree_Field_set by (subst run_tag.simps) (simp add: Let_def)
qed

lemma run_mem_agrees:
  assumes "code_ends h0 m nm pc" "agree_but (lex_cells m nm) h0 h"
  shows "\<exists>h'. run_mem pc m p h = Some h' \<and> agree_but (lex_cells m nm) h0 h'"
  using assms(2)
proof (induction arbitrary: h rule: code_ends_induct [OF assms(1)])
  case (1 pc)
  then show ?case using agree_Byte_u [of _ h0 h pc 0] by (subst run_mem.simps) (simp add: Let_def)
next
  case (2 pc)
  then show ?case using agree_Byte_u [of _ h0 h pc 0] agree_Field_set by (subst run_mem.simps) (simp add: Let_def)
qed

text \<open>The offset of the moves that go with a transition, and the words of the tables of codes with \<open>nk\<close> entries of moves.\<close>

definition lex_pc_off :: "heap \<Rightarrow> lexing_table \<Rightarrow> cint \<Rightarrow> cint \<Rightarrow> cint" where
  "lex_pc_off h tbl q c =
     (let base_code = Short h (lex_base_code tbl) q
      in if Short h (lex_check_code tbl) (base_code + c) = q then Short h (lex_trans_code tbl) (base_code + c)
         else Short h (lex_default_code tbl) q)"

definition lex_code_words :: "lexing_table \<Rightarrow> nat \<Rightarrow> nat \<Rightarrow> u64 set" where
  "lex_code_words tbl ns nk =
     lex_words (lex_base_code tbl) ns \<union> lex_words (lex_backtrk_code tbl) ns \<union> lex_words (lex_default_code tbl) ns \<union>
     lex_words (lex_trans_code tbl) nk \<union> lex_words (lex_check_code tbl) nk"

text \<open>Every code that the engine can run from a state below \<open>ns\<close> ends: the tags of a final state, the tags of a backtrack
  point and the moves of a transition, which are among the \<open>nk\<close> entries of moves.\<close>

definition lex_codes_end :: "heap \<Rightarrow> lexing_table \<Rightarrow> value_t \<Rightarrow> nat \<Rightarrow> nat \<Rightarrow> nat \<Rightarrow> bool" where
  "lex_codes_end h tbl m ns nk nm \<longleftrightarrow>
     (\<forall>q < ns. let q = of_nat q; base_code = Short h (lex_base_code tbl) q
        in if sint (Short h (lex_base tbl) q) < 0 then code_ends h m nm (lex_code tbl + scast base_code)
           else 0 \<le> sint base_code \<and> sint base_code + 256 < int nk \<and>
             (0 \<le> sint (Short h (lex_backtrk tbl) q) \<longrightarrow>
                code_ends h m nm (lex_code tbl + scast (Short h (lex_backtrk_code tbl) q))) \<and>
             (\<forall>c \<le> 256. 0 \<le> sint (lex_next h tbl q (of_nat c)) \<longrightarrow> 0 < sint (lex_pc_off h tbl q (of_nat c)) \<longrightarrow>
                code_ends h m nm (lex_code tbl + scast (lex_pc_off h tbl q (of_nat c)))))"

text \<open>The \<open>nm\<close> fields of the memory of positions lie apart from the tables, the tables of codes and the characters of the
  buffer.\<close>

definition lex_apart :: "lexing_table \<Rightarrow> lexer_buffer \<Rightarrow> nat \<Rightarrow> nat \<Rightarrow> nat \<Rightarrow> nat \<Rightarrow> bool" where
  "lex_apart tbl lb ns nt nk nm \<longleftrightarrow>
     (lex_table_words tbl ns nt \<union> lex_code_words tbl ns nk) \<inter> lex_cells (lex_mem lb) nm = {} \<and>
     (\<forall>p. 0 \<le> sint p \<longrightarrow> sint p < sint (lex_buffer_len lb) \<longrightarrow>
        (lex_buffer lb + Long_val p) AND NOT 7 \<notin> lex_cells (lex_mem lb) nm)"

text \<open>The tables, the codes and the buffer that a run of the new engine relies on.\<close>

definition lex_ok :: "heap \<Rightarrow> lexing_table \<Rightarrow> lexer_buffer \<Rightarrow> nat \<Rightarrow> nat \<Rightarrow> nat \<Rightarrow> nat \<Rightarrow> bool" where
  "lex_ok h tbl lb ns nt nk nm \<longleftrightarrow>
     lex_wf h tbl ns nt \<and> lex_codes_end h tbl (lex_mem lb) ns nk nm \<and> lex_apart tbl lb ns nt nk nm \<and>
     odd (sint (lex_curr_pos lb)) \<and> odd (sint (lex_buffer_len lb)) \<and> 0 \<le> sint (lex_curr_pos lb)"

lemma lex_moves_pc_off:
  "lex_moves tbl q c lb h =
     (if 0 < sint (lex_pc_off h tbl q c)
      then run_mem (lex_code tbl + scast (lex_pc_off h tbl q c)) (lex_mem lb) (lex_curr_pos lb) h else Some h)"
  by (simp add: lex_moves_def lex_pc_off_def Let_def)

lemma lex_ok_same:
  "lex_ok h tbl lb ns nt nk nm \<Longrightarrow> lex_mem lb' = lex_mem lb \<Longrightarrow> lex_buffer lb' = lex_buffer lb \<Longrightarrow>
   lex_buffer_len lb' = lex_buffer_len lb \<Longrightarrow> odd (sint (lex_curr_pos lb')) \<Longrightarrow> 0 \<le> sint (lex_curr_pos lb') \<Longrightarrow>
   lex_ok h tbl lb' ns nt nk nm"
  by (simp add: lex_ok_def lex_apart_def)

text \<open>A state of the run: the current memory differs from the one at its start in the memory of positions only.\<close>

definition lex_running ::
  "heap \<Rightarrow> lexing_table \<Rightarrow> lexer_buffer \<Rightarrow> nat \<Rightarrow> nat \<Rightarrow> nat \<Rightarrow> nat \<Rightarrow> cint \<Rightarrow> heap \<Rightarrow> bool" where
  "lex_running h0 tbl lb ns nt nk nm q h \<longleftrightarrow>
     lex_ok h0 tbl lb ns nt nk nm \<and> 0 \<le> sint q \<and> sint q < int ns \<and> agree_but (lex_cells (lex_mem lb) nm) h0 h"

lemma lex_running_tables:
  assumes "lex_running h0 tbl lb ns nt nk nm q h"
  shows "Short h (lex_base tbl) q = Short h0 (lex_base tbl) q" "Short h (lex_backtrk tbl) q = Short h0 (lex_backtrk tbl) q"
    and "Short h (lex_base_code tbl) q = Short h0 (lex_base_code tbl) q"
    and "Short h (lex_backtrk_code tbl) q = Short h0 (lex_backtrk_code tbl) q"
    and "0 \<le> sint (Short h0 (lex_base tbl) q) \<Longrightarrow> 0 \<le> sint c \<Longrightarrow> sint c \<le> 256 \<Longrightarrow> lex_next h tbl q c = lex_next h0 tbl q c"
    and "0 \<le> sint (Short h0 (lex_base tbl) q) \<Longrightarrow> 0 \<le> sint c \<Longrightarrow> sint c \<le> 256 \<Longrightarrow> lex_pc_off h tbl q c = lex_pc_off h0 tbl q c"
proof -
  have q: "0 \<le> sint q" "sint q < int ns" and wf: "lex_wf h0 tbl ns nt" and ce: "lex_codes_end h0 tbl (lex_mem lb) ns nk nm"
    using assms by (simp_all add: lex_running_def lex_ok_def)
  have w: "\<forall>a \<in> lex_table_words tbl ns nt \<union> lex_code_words tbl ns nk. h a = h0 a"
    using assms unfolding lex_running_def lex_ok_def lex_apart_def agree_but_def by blast
  note u = w [unfolded lex_table_words_def lex_code_words_def]
  have st: "same_tables tbl ns nt h0 h" using w by (simp add: same_tables_def)
  note s = same_tables_cong [OF wf st q]
  show "Short h (lex_base tbl) q = Short h0 (lex_base tbl) q" by (rule s(1))
  show "Short h (lex_backtrk tbl) q = Short h0 (lex_backtrk tbl) q" by (rule Short_cong [OF _ q]) (use u in blast)
  show b: "Short h (lex_base_code tbl) q = Short h0 (lex_base_code tbl) q" by (rule Short_cong [OF _ q]) (use u in blast)
  show "Short h (lex_backtrk_code tbl) q = Short h0 (lex_backtrk_code tbl) q" by (rule Short_cong [OF _ q]) (use u in blast)
  assume c: "0 \<le> sint (Short h0 (lex_base tbl) q)" "0 \<le> sint c" "sint c \<le> 256"
  then show "lex_next h tbl q c = lex_next h0 tbl q c" by (rule s(3))
  let ?b = "Short h0 (lex_base_code tbl) q"
  have "0 \<le> sint ?b" "sint ?b + 256 < int nk"
    using ce [unfolded lex_codes_end_def, rule_format, of "nat (sint q)"] q c(1) by (simp_all add: cint_nat Let_def nat_less_iff)
  then have k: "0 \<le> sint (?b + c)" "sint (?b + c) < int nk" using c by (simp_all add: sint_entry)
  have "Short h (lex_default_code tbl) q = Short h0 (lex_default_code tbl) q" by (rule Short_cong [OF _ q]) (use u in blast)
  moreover have "Short h (lex_check_code tbl) (?b + c) = Short h0 (lex_check_code tbl) (?b + c)" by (rule Short_cong [OF _ k]) (use u in blast)
  moreover have "Short h (lex_trans_code tbl) (?b + c) = Short h0 (lex_trans_code tbl) (?b + c)" by (rule Short_cong [OF _ k]) (use u in blast)
  ultimately show "lex_pc_off h tbl q c = lex_pc_off h0 tbl q c" by (simp add: lex_pc_off_def b Let_def)
qed

lemma lex_running_codes:
  assumes "lex_running h0 tbl lb ns nt nk nm q h"
  shows "sint (Short h0 (lex_base tbl) q) < 0 \<Longrightarrow>
      \<exists>h'. run_tag (lex_code tbl + scast (Short h0 (lex_base_code tbl) q)) (lex_mem lb) h = Some h' \<and>
        agree_but (lex_cells (lex_mem lb) nm) h0 h'"
    and "\<not> sint (Short h0 (lex_base tbl) q) < 0 \<Longrightarrow> 0 \<le> sint (Short h0 (lex_backtrk tbl) q) \<Longrightarrow>
      \<exists>h'. run_tag (lex_code tbl + scast (Short h0 (lex_backtrk_code tbl) q)) (lex_mem lb) h = Some h' \<and>
        agree_but (lex_cells (lex_mem lb) nm) h0 h'"
    and "\<not> sint (Short h0 (lex_base tbl) q) < 0 \<Longrightarrow> 0 \<le> sint c \<Longrightarrow> sint c \<le> 256 \<Longrightarrow> 0 \<le> sint (lex_next h0 tbl q c) \<Longrightarrow>
      lex_mem lb' = lex_mem lb \<Longrightarrow>
      \<exists>h'. lex_moves tbl q c lb' h = Some h' \<and> agree_but (lex_cells (lex_mem lb) nm) h0 h'"
proof -
  have q: "0 \<le> sint q" "sint q < int ns" and ce: "lex_codes_end h0 tbl (lex_mem lb) ns nk nm"
    and ag: "agree_but (lex_cells (lex_mem lb) nm) h0 h"
    using assms by (simp_all add: lex_running_def lex_ok_def)
  have n: "nat (sint q) < ns" using q by (simp add: nat_less_iff)
  note e = ce [unfolded lex_codes_end_def, rule_format, OF n, unfolded cint_nat [OF q(1)] Let_def]
  note tag = run_tag_agrees [OF _ ag] and mem = run_mem_agrees [OF _ ag]
  show "\<exists>h'. run_tag (lex_code tbl + scast (Short h0 (lex_base_code tbl) q)) (lex_mem lb) h = Some h' \<and>
        agree_but (lex_cells (lex_mem lb) nm) h0 h'" if "sint (Short h0 (lex_base tbl) q) < 0"
    by (rule tag) (use e that in simp)
  show "\<exists>h'. run_tag (lex_code tbl + scast (Short h0 (lex_backtrk_code tbl) q)) (lex_mem lb) h = Some h' \<and>
        agree_but (lex_cells (lex_mem lb) nm) h0 h'"
    if "\<not> sint (Short h0 (lex_base tbl) q) < 0" "0 \<le> sint (Short h0 (lex_backtrk tbl) q)"
    by (rule tag) (use e that in simp)
  assume c: "\<not> sint (Short h0 (lex_base tbl) q) < 0" "0 \<le> sint c" "sint c \<le> 256" "0 \<le> sint (lex_next h0 tbl q c)"
    and l: "lex_mem lb' = lex_mem lb"
  have "code_ends h0 (lex_mem lb) nm (lex_code tbl + scast (lex_pc_off h0 tbl q c))" if "0 < sint (lex_pc_off h0 tbl q c)"
    using e c that spec [of "\<lambda>c. c \<le> 256 \<longrightarrow> 0 \<le> sint (lex_next h0 tbl q (of_nat c)) \<longrightarrow> 0 < sint (lex_pc_off h0 tbl q (of_nat c)) \<longrightarrow>
        code_ends h0 (lex_mem lb) nm (lex_code tbl + scast (lex_pc_off h0 tbl q (of_nat c)))" "nat (sint c)"]
    by (simp add: cint_nat)
  then show "\<exists>h'. lex_moves tbl q c lb' h = Some h' \<and> agree_but (lex_cells (lex_mem lb) nm) h0 h'"
    using lex_running_tables(6) [OF assms, of c] c mem ag by (simp add: lex_moves_pc_off l)
qed

lemma lex_running_mark:
  assumes "lex_running h0 tbl lb ns nt nk nm q h" "\<not> sint (Short h0 (lex_base tbl) q) < 0"
  obtains h1 where "lex_running h0 tbl lb ns nt nk nm q h1"
    and "(if sint (Short h0 (lex_backtrk tbl) q) \<ge> 0 then
        Option.bind (run_tag (lex_code tbl + scast (Short h0 (lex_backtrk_code tbl) q)) (lex_mem lb) h)
        (\<lambda>h. Some (h, lex_mark (Short h0 (lex_backtrk tbl) q) lb)) else Some (h, lb)) =
      Some (h1, if sint (Short h0 (lex_backtrk tbl) q) \<ge> 0 then lex_mark (Short h0 (lex_backtrk tbl) q) lb else lb)"
  using lex_running_codes(2) [OF assms] assms(1)
  by (cases "sint (Short h0 (lex_backtrk tbl) q) \<ge> 0") (auto simp: lex_running_def)

lemma lex_running_step:
  assumes "lex_running h0 tbl lb ns nt nk nm q h" "\<not> sint (Short h0 (lex_base tbl) q) < 0" "0 \<le> sint c" "sint c \<le> 256"
    and "0 \<le> sint (lex_next h0 tbl q c)" "lex_mem lb' = lex_mem lb" "odd (sint (lex_curr_pos lb''))"
    "0 \<le> sint (lex_curr_pos lb'')" "lex_mem lb'' = lex_mem lb" "lex_buffer lb'' = lex_buffer lb"
    "lex_buffer_len lb'' = lex_buffer_len lb"
  obtains h' where "lex_moves tbl q c lb' h = Some h'" "lex_running h0 tbl lb'' ns nt nk nm (lex_next h0 tbl q c) h'"
proof -
  have ok: "lex_ok h0 tbl lb ns nt nk nm" "lex_wf h0 tbl ns nt" "0 \<le> sint q" "sint q < int ns"
    using assms(1) by (simp_all add: lex_running_def lex_ok_def)
  obtain h' where "lex_moves tbl q c lb' h = Some h'" "agree_but (lex_cells (lex_mem lb) nm) h0 h'"
    using lex_running_codes(3) [OF assms(1-6)] by blast
  moreover have "sint (lex_next h0 tbl q c) < int ns" using lex_wf_next(2) [OF ok(2-4) _ assms(3,4)] assms(2) by simp
  ultimately show ?thesis
    using lex_ok_same [OF ok(1) assms(9-11,7,8)] assms(5,9) by (intro that) (simp_all add: lex_running_def)
qed

lemma new_lex_loop_agrees:
  "lex_running h0 tbl lb ns nt nk nm q h \<Longrightarrow>
   \<exists>h' r. new_lex_loop tbl q lb h = Some (h', r) \<and> lex_loop h0 tbl q lb = Some r \<and> agree_but (lex_cells (lex_mem lb) nm) h0 h'"
proof (induction "lex_left lb" arbitrary: q lb h rule: less_induct)
  case less
  let ?W = "lex_cells (lex_mem lb) nm" and ?b = "Short h0 (lex_backtrk tbl) q"
  let ?lb = "if sint ?b \<ge> 0 then lex_mark ?b lb else lb"
  have lb: "lex_curr_pos ?lb = lex_curr_pos lb" "lex_buffer_len ?lb = lex_buffer_len lb"
    "lex_eof_reached ?lb = lex_eof_reached lb" "lex_mem ?lb = lex_mem lb" "lex_buffer ?lb = lex_buffer lb" by simp_all
  note tb = lex_running_tables(1-4) [OF less.prems]
  have ok: "lex_ok h0 tbl lb ns nt nk nm" "odd (sint (lex_curr_pos lb))" "odd (sint (lex_buffer_len lb))"
    "0 \<le> sint (lex_curr_pos lb)"
    using less.prems by (simp_all add: lex_running_def lex_ok_def)
  show ?case
  proof (cases "sint (Short h0 (lex_base tbl) q) < 0")
    case True
    then show ?thesis using lex_running_codes(1) [OF less.prems]
      by (subst new_lex_loop.simps, subst lex_loop.simps) (auto simp: tb)
  next
    case base: False
    obtain h1 where run: "lex_running h0 tbl lb ns nt nk nm q h1"
      and h1: "(if sint ?b \<ge> 0 then
          Option.bind (run_tag (lex_code tbl + scast (Short h0 (lex_backtrk_code tbl) q)) (lex_mem lb) h)
          (\<lambda>h. Some (h, lex_mark ?b lb)) else Some (h, lb)) = Some (h1, ?lb)"
      using lex_running_mark [OF less.prems base] .
    then have ag: "agree_but ?W h0 h1" by (simp add: lex_running_def)
    have nx: "lex_next h1 tbl q c = lex_next h0 tbl q c" if "0 \<le> sint c" "sint c \<le> 256" for c
      using lex_running_tables(5) [OF run _ that] base by simp
    have step: "\<exists>h' r. Option.bind (lex_moves tbl q c lb' h1) (new_lex_loop tbl (lex_next h0 tbl q c) lb'') = Some (h', r) \<and>
        lex_loop h0 tbl (lex_next h0 tbl q c) lb'' = Some r \<and> agree_but ?W h0 h'"
      if t: "0 \<le> sint c" "sint c \<le> 256" "0 \<le> sint (lex_next h0 tbl q c)" "lex_left lb'' < lex_left lb" "odd (sint (lex_curr_pos lb''))"
        "0 \<le> sint (lex_curr_pos lb'')" "lex_mem lb' = lex_mem lb" "lex_mem lb'' = lex_mem lb" "lex_buffer lb'' = lex_buffer lb"
        "lex_buffer_len lb'' = lex_buffer_len lb" for c lb' lb''
      using lex_running_step [OF run base t(1-3,7,5,6,8-10)] less.hyps [OF t(4)] t(8) by (metis bind.bind_lunit)
    show ?thesis
    proof (cases "sint (lex_buffer_len lb) \<le> sint (lex_curr_pos lb)")
      case True
      have st: "\<exists>h' r. Option.bind (lex_moves tbl q 256 ?lb h1) (new_lex_loop tbl (lex_next h0 tbl q 256) (?lb\<lparr> lex_eof_reached := Val_bool False \<rparr>)) =
          Some (h', r) \<and> lex_loop h0 tbl (lex_next h0 tbl q 256) (?lb\<lparr> lex_eof_reached := Val_bool False \<rparr>) = Some r \<and> agree_but ?W h0 h'"
        if "lex_eof_reached lb \<noteq> Val_bool False" "0 \<le> sint (lex_next h0 tbl q 256)"
        by (rule step) (use that True ok in \<open>simp_all add: lex_left_def lb\<close>)
      have n: "lex_next h1 tbl q 256 = lex_next h0 tbl q 256" using nx [of 256] by simp
      show ?thesis using True st ag
        by (subst new_lex_loop.simps, subst lex_loop.simps, simp only: Let_def tb base if_False h1 bind.bind_lunit prod.case)
           (simp add: lb n)
    next
      case False
      let ?c = "ucast (Byte_u h0 (lex_buffer lb) (Long_val (lex_curr_pos lb))) :: cint"
        and ?lb' = "?lb\<lparr> lex_curr_pos := lex_curr_pos lb + 2 \<rparr>"
      have c: "sint (lex_curr_pos lb + 2) = sint (lex_curr_pos lb) + 2"
        using ok False sint_step [of "lex_curr_pos lb" "lex_buffer_len lb"] by simp
      have b: "Byte_u h1 (lex_buffer lb) (Long_val (lex_curr_pos lb)) = Byte_u h0 (lex_buffer lb) (Long_val (lex_curr_pos lb))"
        using agree_Byte_u [OF ag] ok(1,4) False by (simp add: lex_ok_def lex_apart_def)
      have "\<exists>h' r. Option.bind (lex_moves tbl q ?c ?lb' h1) (new_lex_loop tbl (lex_next h0 tbl q ?c) ?lb') = Some (h', r) \<and>
          lex_loop h0 tbl (lex_next h0 tbl q ?c) ?lb' = Some r \<and> agree_but ?W h0 h'" if "0 \<le> sint (lex_next h0 tbl q ?c)"
        by (rule step) (use that ok False c sint_byte in \<open>simp_all add: lex_left_def lb\<close>)
      then show ?thesis using False ag
        by (subst new_lex_loop.simps, subst lex_loop.simps, simp only: Let_def tb base if_False h1 bind.bind_lunit prod.case)
           (simp add: lb b nx [OF sint_byte] byte_not_256)
    qed
  qed
qed

text \<open>C19: The engine with a memory of positions decides as the plain engine does: run on the same tables, it returns the
  same action, refill request or error and leaves the same lexer buffer, whatever its codes do to the memory of positions,
  and writes to this memory only.  The tables are laid out as \<open>ocamllex\<close> does, with \<open>ns\<close> states, \<open>nt\<close> transitions and \<open>nk\<close>
  moves; every code that can be run ends and writes to the \<open>nm\<close> fields of the memory only; and these fields are apart from
  the words of the tables and of the characters.\<close>

theorem new_lex_engine_agrees:
  assumes "Is_long (lex_curr_pos lb)" "Is_long (lex_buffer_len lb)" "0 \<le> sint (lex_curr_pos lb)"
    and "lex_entry start_state lb = (q, lb0)" "0 \<le> sint q" "sint q < int ns" "lex_wf h tbl ns nt"
    and "lex_codes_end h tbl (lex_mem lb) ns nk nm" "lex_apart tbl lb ns nt nk nm"
  shows "\<exists>h' r lb'. caml_new_lex_engine h tbl start_state lb = Some (h', r, lb') \<and>
    caml_lex_engine h tbl start_state lb = Some (r, lb') \<and> agree_but (lex_cells (lex_mem lb) nm) h h'"
proof -
  have s: "lex_curr_pos lb0 = lex_curr_pos lb" "lex_buffer_len lb0 = lex_buffer_len lb" "lex_mem lb0 = lex_mem lb"
    "lex_buffer lb0 = lex_buffer lb" using assms(4) by (auto simp: lex_entry_def Let_def split: if_splits)
  have "lex_running h tbl lb0 ns nt nk nm q h"
    using assms s by (simp add: lex_running_def lex_ok_def lex_apart_def Is_long_bit odd_sint agree_but_def)
  from new_lex_loop_agrees [OF this] show ?thesis
    by (auto simp: caml_new_lex_engine_def caml_lex_engine_def assms(4) s)
qed

section \<open>A lexer for a+\<close>

text \<open>State 0 goes to state 1 on an \<open>a\<close> and records the position, state 1 stays there and has the action 7.\<close>

definition demo_tables :: lexing_table where
  "demo_tables =
     \<lparr> lex_base = 0x100, lex_backtrk = 0x108, lex_default = 0x110, lex_trans = 0x200, lex_check = 0x500,
       lex_base_code = 0x800, lex_backtrk_code = 0x808, lex_default_code = 0x810, lex_trans_code = 0x900,
       lex_check_code = 0xB10, lex_code = 0xD20 \<rparr>"

definition demo_text :: "u64 \<Rightarrow> heap" where
  "demo_text w =
     (\<lambda>_. - 1)(0x100 := 0x10000, 0x108 := 0x7FFFF, 0x110 := 0xFFFFFFFF, 0x2C0 := 0x100010000, 0x5C0 := 0xFFFF00010000FFFF,
       0x800 := 0, 0x808 := 0, 0x810 := 0, 0x9C0 := 0x10000, 0xBD0 := 0xFFFFFFFF0000FFFF, 0xD20 := 0xFFFFFFFFFFFF00FF, 0xE10 := w)"

definition demo_lexbuf :: "nat \<Rightarrow> lexer_buffer" where
  "demo_lexbuf n =
     \<lparr> refill_buff = 1, lex_buffer = 0xE10, lex_buffer_len = Val_long (of_nat n), lex_abs_pos = 1, lex_start_pos = 1,
       lex_curr_pos = 1, lex_last_pos = 1, lex_last_action = 1, lex_eof_reached = Val_bool False, lex_mem = 0xE00,
       lex_start_p = 1, lex_curr_p = 1 \<rparr>"

lemmas demo_lex_defs = demo_tables_def demo_text_def demo_lexbuf_def

lemma demo_Short:
  "Short (demo_text w) 0x100 0 = 0" "Short (demo_text w) 0x100 1 = 1" "Short (demo_text w) 0x108 0 = - 1"
  "Short (demo_text w) 0x108 1 = 7" "Short (demo_text w) 0x110 0 = - 1" "Short (demo_text w) 0x110 1 = - 1"
  "Short (demo_text w) 0x500 96 = - 1" "Short (demo_text w) 0x500 97 = 0" "Short (demo_text w) 0x500 98 = 1"
  "Short (demo_text w) 0x500 99 = - 1" "Short (demo_text w) 0x200 97 = 1" "Short (demo_text w) 0x200 98 = 1"
  "Short (demo_text w) 0x800 0 = 0" "Short (demo_text w) 0x800 1 = 0" "Short (demo_text w) 0x808 1 = 0"
  "Short (demo_text w) 0x810 0 = 0" "Short (demo_text w) 0x810 1 = 0" "Short (demo_text w) 0xB10 96 = - 1"
  "Short (demo_text w) 0xB10 97 = 0" "Short (demo_text w) 0xB10 98 = - 1" "Short (demo_text w) 0xB10 99 = - 1"
  "Short (demo_text w) 0x900 97 = 1"
  by (simp_all add: Short_def Byte_u_def demo_text_def Let_def)

lemma ones_byte: "k < 8 \<Longrightarrow> ucast (mask (64 - 8 * k) :: u64) = (0xFF :: u8)"
proof -
  assume "k < 8"
  then have "8 \<le> 64 - 8 * k" by simp
  then have "ucast (mask (64 - 8 * k) :: u64) = (mask 8 :: u8)" by (intro bit_eqI) (auto simp: bit_simps)
  then show ?thesis by (simp add: mask_eq_exp_minus_1)
qed

lemma word_of_byte: "unat (x AND NOT 7 :: u64) \<le> unat x" "unat x \<le> unat (x AND NOT 7) + 7"
proof -
  show "unat (x AND NOT 7) \<le> unat x" using word_and_le2 [of x "NOT 7"] by (simp add: word_le_nat_alt)
  have "unat x \<le> unat (x AND NOT 7) + unat (x AND 7)" by (subst (1) split_addr) (simp add: unat_word_ariths)
  then show "unat x \<le> unat (x AND NOT 7) + 7" using and7_lt [of x] by simp
qed

lemma entry_word:
  assumes "(t + of_nat j :: u64) AND NOT 7 = a" "unat t + j < 2 ^ 64"
  shows "unat a \<le> unat t + j \<and> unat t + j \<le> unat a + 7"
proof -
  have "unat (t + of_nat j) = unat t + j" using assms(2) by (simp add: unat_word_ariths unat_of_nat)
  then show ?thesis using word_of_byte [of "t + of_nat j"] assms(1) by simp
qed

lemma lex_words_below: "unat t + 2 * n \<le> unat a \<Longrightarrow> a \<notin> lex_words t n"
proof
  assume n: "unat t + 2 * n \<le> unat a" and "a \<in> lex_words t n"
  then obtain i where i: "i < 2 * n" "(t + of_nat i) AND NOT 7 = a" by (auto simp: lex_words_def)
  then have "unat t + i < unat a" using n by linarith
  moreover from this have "unat a \<le> unat t + i" using entry_word [OF i(2)] less_trans [OF _ unat_bound [of a]] by simp
  ultimately show False by simp
qed

lemma demo_Short_ones:
  assumes "t = 0x500 \<and> a = 0x5C0 \<or> t = 0xB10 \<and> a = 0xBD0" "i < 258" "i \<notin> {96..99}"
  shows "Short (demo_text w) t (of_nat i) = - 1"
proof -
  have k: "2 * scast (of_nat i :: cint) = (of_nat (2 * i) :: u64)"
    using assms(2) by (simp add: scast_eq signed_of_nat signed_take_bit_int_eq_self)
  have "Byte_u (demo_text w) t (of_nat j) = 0xFF" if "j \<in> {2 * i, 2 * i + 1}" for j
  proof -
    let ?a = "(t + of_nat j) AND NOT 7"
    have e: "unat ?a \<le> unat t + j \<and> unat t + j \<le> unat ?a + 7" using assms(1,2) that by (intro entry_word) auto
    have "?a \<notin> {0x100, 0x108, 0x110, 0x2C0, 0x5C0, 0x800, 0x808, 0x810, 0x9C0, 0xBD0, 0xD20, 0xE10}"
    proof
      assume "?a \<in> {0x100, 0x108, 0x110, 0x2C0, 0x5C0, 0x800, 0x808, 0x810, 0x9C0, 0xBD0, 0xD20, 0xE10}"
      then show False using e assms that by (elim insertE) auto
    qed
    then show ?thesis by (simp add: Byte_u_def demo_text_def Let_def ones_byte and7_lt)
  qed
  from this [of "2 * i"] this [of "2 * i + 1"]
  have b: "Byte_u (demo_text w) t (of_nat (2 * i)) = 0xFF" "Byte_u (demo_text w) t (of_nat (2 * i) + 1) = 0xFF"
    unfolding of_nat_add of_nat_1 by simp_all
  show ?thesis unfolding Short_def k b by simp
qed

lemma demo_check:
  assumes "i < 258"
  shows "Short (demo_text w) 0x500 (of_nat i) = (if i = 97 then 0 else if i = 98 then 1 else - 1)"
    and "Short (demo_text w) 0xB10 (of_nat i) = (if i = 97 then 0 else - 1)"
proof -
  consider "i \<notin> {96..99}" | "i = 96" | "i = 97" | "i = 98" | "i = 99" by fastforce
  then have "Short (demo_text w) 0x500 (of_nat i) = (if i = 97 then 0 else if i = 98 then 1 else - 1) \<and>
      Short (demo_text w) 0xB10 (of_nat i) = (if i = 97 then 0 else - 1)"
    using demo_Short_ones [of "0x500" "0x5C0" i w] demo_Short_ones [of "0xB10" "0xBD0" i w] assms
    by cases (auto simp: demo_Short)
  then show "Short (demo_text w) 0x500 (of_nat i) = (if i = 97 then 0 else if i = 98 then 1 else - 1)"
    "Short (demo_text w) 0xB10 (of_nat i) = (if i = 97 then 0 else - 1)" by simp_all
qed

lemma demo_next:
  assumes "c \<le> 256"
  shows "lex_next (demo_text w) demo_tables 0 (of_nat c) = (if c = 97 then 1 else - 1)"
    and "lex_next (demo_text w) demo_tables 1 (of_nat c) = (if c = 97 then 1 else - 1)"
    and "lex_pc_off (demo_text w) demo_tables 0 (of_nat c) = (if c = 97 then 1 else 0)"
    and "lex_pc_off (demo_text w) demo_tables 1 (of_nat c) = 0"
  using assms demo_check [of c w] demo_check [of "Suc c" w]
  by (simp_all add: lex_next_def lex_pc_off_def demo_tables_def demo_Short Let_def)

lemma demo_wf: "lex_wf (demo_text w) demo_tables 2 258"
  by (simp add: lex_wf_def Let_def All_less_Suc numeral_2_eq_2 demo_next)
     (simp add: demo_tables_def demo_Short)

lemma demo_ready1: "lex_ready (demo_text 0x61) (demo_lexbuf 1) 0 [0x61] False"
  by (simp add: lex_ready_def demo_lex_defs Byte_u_def Let_def Val_long_def)

lemma demo_ready2: "lex_ready (demo_text 0x6261) (demo_lexbuf 2) 0 [0x61, 0x62] False"
  by (simp add: lex_ready_def demo_lex_defs Byte_u_def Let_def Val_long_def All_less_Suc)

theorem lex_engine_terminates_witness:
  "\<exists>r lb'. caml_lex_engine (demo_text 0x6261) demo_tables 1 (demo_lexbuf 2) = Some (r, lb')"
  by (rule lex_engine_terminates) (simp_all add: demo_lexbuf_def Is_long_def Val_long_def)

lemma demo_next_ab:
  "lex_next (demo_text w) demo_tables 0 0x61 = 1" "lex_next (demo_text w) demo_tables 1 0x62 = - 1"
  using demo_next(1) [where c = "0x61" and w = w] demo_next(2) [where c = "0x62" and w = w] by simp_all

theorem lex_engine_longest_match_witness:
  "\<exists>lb'. caml_lex_engine (demo_text 0x6261) demo_tables (Val_int 0) (demo_lexbuf 2) = Some (Inr (Val_int 7), lb') \<and>
    lex_start_pos lb' = Val_long 0 \<and> lex_curr_pos lb' = Val_long 1"
proof -
  let ?h = "demo_text 0x6261"
  obtain d r k lb' where d: "lex_stops ?h demo_tables 0 [0x61, 0x62] d" "lex_match ?h demo_tables 0 [0x61, 0x62] d = (r, k)"
    "caml_lex_engine ?h demo_tables (Val_int 0) (demo_lexbuf 2) = Some (r, lb')" "lex_start_pos lb' = Val_long 0"
    "lex_curr_pos lb' = Val_long (of_nat (min k (Suc (Suc 0))))"
    using lex_engine_longest_match [OF _ demo_ready2, of 0 demo_tables] by auto
  have run: "lex_run ?h demo_tables 0 [0x61, 0x62] (Suc 0) = 1" "lex_run ?h demo_tables 0 [0x61, 0x62] (Suc (Suc 0)) = - 1"
    by (simp_all add: demo_next_ab)
  have b: "lex_base demo_tables = 0x100" "lex_backtrk demo_tables = 0x108" by (simp_all add: demo_tables_def)
  have "d = 0 \<or> d = Suc 0 \<or> d = Suc (Suc 0)" using d(1) by (auto simp: lex_stops_def)
  then have "d = Suc 0" using d(1) run b by (auto simp: lex_stops_def demo_Short)
  moreover have "lex_backtrack ?h demo_tables 0 [0x61, 0x62] (Suc 0) = Some (Suc 0)"
    by (simp add: lex_backtrack_Suc lex_backtrack_0 demo_next_ab b demo_Short)
  ultimately have "(r, k) = (Inr (Val_int 7), 1)" using d(2) run(1) b by (simp add: lex_match_def demo_Short demo_next_ab)
  then show ?thesis using d(3-5) by simp
qed

lemma same_tables_demo: "same_tables demo_tables 2 258 (demo_text w) (demo_text w')"
proof -
  have "0xE10 \<notin> lex_table_words demo_tables 2 258" by (simp add: lex_table_words_def demo_tables_def lex_words_below)
  then show ?thesis by (auto simp: same_tables_def demo_text_def)
qed

lemma demo_suspends:
  "caml_lex_engine (demo_text 0x61) demo_tables (Val_int 0) (demo_lexbuf 1) =
    Some (Inr (Val_int (- 2)), (demo_lexbuf 1)\<lparr> lex_curr_pos := 3, lex_last_pos := 3, lex_last_action := Val_int 7 \<rparr>)"
proof -
  have b: "Byte_u (demo_text 0x61) 0xE10 (Long_val 1) = 0x61"
    using Long_val_position [of 0] by (simp add: Byte_u_def demo_text_def Let_def Val_long_def)
  show ?thesis
    unfolding caml_lex_engine_def lex_entry_def Int_val_Val_int
    by (simp add: Let_def, subst lex_loop.simps, subst lex_loop.simps)
       (simp add: Let_def demo_Short demo_next_ab [unfolded demo_tables_def] demo_tables_def demo_lexbuf_def b lex_mark_def Val_long_def)
qed

theorem lex_engine_refill_witness:
  "\<exists>r lb' lbw'. caml_lex_engine (demo_text 0x6261) demo_tables (Val_int (- 2))
      ((demo_lexbuf 2)\<lparr> lex_curr_pos := 3, lex_last_pos := 3, lex_last_action := Val_int 7 \<rparr>) = Some (r, lb') \<and>
   caml_lex_engine (demo_text 0x6261) demo_tables (Val_int 0) (demo_lexbuf 2) = Some (r, lbw') \<and> lex_same lb' lbw'"
proof (rule lex_engine_refill [OF _ _ demo_wf demo_ready1 demo_suspends])
  let ?lb = "(demo_lexbuf 2)\<lparr> lex_curr_pos := 3, lex_last_pos := 3, lex_last_action := Val_int 7 \<rparr>"
  have "lex_ready (demo_text 0x6261) ?lb 1 [0x62] False"
    by (simp add: lex_ready_def demo_lex_defs Byte_u_def Let_def Val_long_def)
  then show "lex_refilled ((demo_lexbuf 1)\<lparr> lex_curr_pos := 3, lex_last_pos := 3, lex_last_action := Val_int 7 \<rparr>) 0
      (demo_text 0x6261) ?lb [0x62] False"
    by (auto simp: lex_refilled_def demo_lexbuf_def)
qed (use demo_ready2 same_tables_demo in \<open>simp_all\<close>)

lemma demo_cells: "lex_cells 0xE00 (Suc 0) = {0xE00}"
  by (auto simp: lex_cells_def)

lemma demo_apart: "lex_apart demo_tables (demo_lexbuf 2) 2 258 257 1"
proof -
  have "(0xE10 + Long_val p) AND NOT 7 \<noteq> 0xE00" if "0 \<le> sint p" "sint p < 5" for p
  proof -
    have "Long_val p = word_of_int (sint p div 2)" by (simp flip: sint_Long_val)
    moreover have "sint p div 2 \<in> {0, 1, 2}" using that by auto
    ultimately show ?thesis by auto
  qed
  moreover have "0xE00 \<notin> lex_table_words demo_tables 2 258 \<union> lex_code_words demo_tables 2 257"
    by (simp add: lex_table_words_def lex_code_words_def demo_tables_def lex_words_below)
  ultimately show ?thesis by (simp add: lex_apart_def demo_lexbuf_def demo_cells Val_long_def)
qed

lemma demo_codes: "lex_codes_end (demo_text w) demo_tables (lex_mem (demo_lexbuf 2)) 2 257 1"
proof -
  have b: "Byte_u (demo_text w) 0xD20 0 = 0xFF" "Byte_u (demo_text w) 0xD21 0 = 0" "Byte_u (demo_text w) 0xD23 0 = 0xFF"
    by (simp_all add: Byte_u_def Let_def demo_text_def)
  have "code_ends (demo_text w) 0xE00 1 0xD20"
    unfolding code_ends_def by (rule exI [of _ 0]) (simp add: b demo_cells)
  moreover have "code_ends (demo_text w) 0xE00 1 0xD21"
  proof -
    have "(0xD21 + of_nat j :: u64) AND NOT 7 \<notin> lex_cells 0xE00 1" if "j \<le> 2 * 1" for j
    proof -
      from that have "j = 0 \<or> j = 1 \<or> j = 2" by auto
      then show ?thesis by (auto simp: demo_cells)
    qed
    then show ?thesis unfolding code_ends_def by (intro exI [of _ 1]) (simp add: b)
  qed
  ultimately show ?thesis
    by (simp add: lex_codes_end_def Let_def All_less_Suc numeral_2_eq_2 demo_next)
       (simp add: demo_tables_def demo_lexbuf_def demo_Short)
qed

theorem new_lex_engine_agrees_witness:
  "\<exists>h' r lb'. caml_new_lex_engine (demo_text 0x6261) demo_tables (Val_int 0) (demo_lexbuf 2) = Some (h', r, lb') \<and>
    caml_lex_engine (demo_text 0x6261) demo_tables (Val_int 0) (demo_lexbuf 2) = Some (r, lb') \<and>
    agree_but (lex_cells (lex_mem (demo_lexbuf 2)) 1) (demo_text 0x6261) h'"
proof (rule new_lex_engine_agrees [OF _ _ _ _ _ _ demo_wf demo_codes demo_apart])
  show "lex_entry (Val_int 0) (demo_lexbuf 2) = (0, snd (lex_entry (Val_int 0) (demo_lexbuf 2)))" by (simp add: lex_entry_def Let_def)
qed (simp_all add: demo_lexbuf_def Is_long_def Val_long_def)

end
