(* ===== verification/Lr_Closure.thy ===== *)
theory Lr_Closure
  imports Prelude
begin

text \<open>
  Closures in the parser generator \<open>yacc\<close>: the transitive closure of a bit matrix by Warshall's algorithm
  (\<open>yacc/warshall.c\<close>) and the closure of a set of LR(0) items (\<open>yacc/closure.c\<close>, \<open>set_derives\<close> of \<open>yacc/lr0.c\<close>).
  An array of \<open>unsigned\<close> is a map from indices to 32-bit words; a pointer into it is an index.  The global tables of
  the grammar are a record.
\<close>

section \<open>Bit matrices\<close>

definition WORDSIZE :: "nat \<Rightarrow> nat" where "WORDSIZE n = (n + 31) div 32"

definition SETBIT :: "nat \<Rightarrow> nat \<Rightarrow> (nat \<Rightarrow> u32) \<Rightarrow> (nat \<Rightarrow> u32)" where
  "SETBIT r n R = R(r + n div 32 := R (r + n div 32) OR push_bit (n mod 32) 1)"

fun or_row :: "(nat \<Rightarrow> u32) \<Rightarrow> nat \<Rightarrow> nat \<Rightarrow> nat \<Rightarrow> (nat \<Rightarrow> u32)" where
  "or_row R rowj rp 0 = R"
| "or_row R rowj rp (Suc k) = or_row (R(rowj := R rowj OR R rp)) (rowj + 1) (rp + 1) k"

text \<open>The loop over the rows \<open>rowj\<close> and the loop over the columns, by the number of rows and columns that are left.\<close>

fun tc_rows :: "(nat \<Rightarrow> u32) \<Rightarrow> nat \<Rightarrow> u32 \<Rightarrow> nat \<Rightarrow> nat \<Rightarrow> nat \<Rightarrow> nat \<Rightarrow> (nat \<Rightarrow> u32)" where
  "tc_rows R rowsize mask' rowi rowj ccol 0 = R"
| "tc_rows R rowsize mask' rowi rowj ccol (Suc k) =
     tc_rows (if R ccol AND mask' \<noteq> 0 then or_row R rowj rowi rowsize else R) rowsize mask' rowi
       (rowj + rowsize) (ccol + rowsize) k"

fun tc_columns :: "(nat \<Rightarrow> u32) \<Rightarrow> nat \<Rightarrow> nat \<Rightarrow> u32 \<Rightarrow> nat \<Rightarrow> nat \<Rightarrow> nat \<Rightarrow> (nat \<Rightarrow> u32)" where
  "tc_columns R rowsize n mask' cword rowi 0 = R"
| "tc_columns R rowsize n mask' cword rowi (Suc k) =
     (let R = tc_rows R rowsize mask' rowi 0 cword n;
          mask' = push_bit 1 mask'
      in if mask' = 0 then tc_columns R rowsize n 1 (cword + 1) (rowi + rowsize) k
         else tc_columns R rowsize n mask' cword (rowi + rowsize) k)"

definition transitive_closure :: "(nat \<Rightarrow> u32) \<Rightarrow> nat \<Rightarrow> (nat \<Rightarrow> u32)" where
  "transitive_closure R n = tc_columns R (WORDSIZE n) n 1 0 0 n"

partial_function (option) rtc_diagonal :: "(nat \<Rightarrow> u32) \<Rightarrow> nat \<Rightarrow> u32 \<Rightarrow> nat \<Rightarrow> nat \<Rightarrow> (nat \<Rightarrow> u32) option" where
  "rtc_diagonal R rowsize mask' rp relend =
     (if rp < relend then
        (let R = R(rp := R rp OR mask');
             mask' = push_bit 1 mask'
         in if mask' = 0 then rtc_diagonal R rowsize 1 (rp + 1 + rowsize) relend
            else rtc_diagonal R rowsize mask' (rp + rowsize) relend)
      else Some R)"

declare rtc_diagonal.simps [code]

definition reflexive_transitive_closure :: "(nat \<Rightarrow> u32) \<Rightarrow> nat \<Rightarrow> (nat \<Rightarrow> u32) option" where
  "reflexive_transitive_closure R n =
     (let R = transitive_closure R n;
          rowsize = WORDSIZE n
      in rtc_diagonal R rowsize 1 0 (n * rowsize))"

section \<open>Closures of item sets\<close>

record grammar =
  ntokens :: nat
  nsyms :: nat
  nvars :: nat
  start_symbol :: nat
  nrules :: nat
  ritem :: "nat \<Rightarrow> int"
  rlhs :: "nat \<Rightarrow> nat"
  rrhs :: "nat \<Rightarrow> nat"

definition ISVAR :: "grammar \<Rightarrow> int \<Rightarrow> bool" where "ISVAR g s \<longleftrightarrow> int (start_symbol g) \<le> s"

text \<open>The rules at \<open>derives[lhs]\<close>, with their terminator.\<close>

definition set_derives :: "grammar \<Rightarrow> nat \<Rightarrow> int list" where
  "set_derives g lhs = map int (filter (\<lambda>i. rlhs g i = lhs) [0..<nrules g]) @ [- 1]"

definition EFF_row :: "grammar \<Rightarrow> nat \<Rightarrow> int list \<Rightarrow> (nat \<Rightarrow> u32) \<Rightarrow> (nat \<Rightarrow> u32)" where
  "EFF_row g row rules =
     fold (\<lambda>rule R. (let symbol = ritem g (rrhs g (nat rule))
                     in if ISVAR g symbol then SETBIT row (nat symbol - start_symbol g) R else R))
       (takeWhile (\<lambda>rule. rule > 0) rules)"

definition set_EFF :: "grammar \<Rightarrow> (nat \<Rightarrow> u32) option" where
  "set_EFF g =
     (let rowsize = WORDSIZE (nvars g)
      in reflexive_transitive_closure
           (fold (\<lambda>i. EFF_row g ((i - start_symbol g) * rowsize) (set_derives g i)) [start_symbol g..<nsyms g] (\<lambda>_. 0))
           (nvars g))"

text \<open>The inner loop of \<open>set_first_derives\<close> over the variables \<open>js\<close>; \<open>cword\<close> and \<open>mask\<close> scan the row of \<open>EFF\<close>.\<close>

fun first_derives_row ::
  "grammar \<Rightarrow> (nat \<Rightarrow> u32) \<Rightarrow> nat \<Rightarrow> nat list \<Rightarrow> u32 \<Rightarrow> u32 \<Rightarrow> nat \<Rightarrow> (nat \<Rightarrow> u32) \<Rightarrow> (nat \<Rightarrow> u32)" where
  "first_derives_row g EFF rrow [] cword mask' vrow FD = FD"
| "first_derives_row g EFF rrow (j # js) cword mask' vrow FD =
     (let FD = (if cword AND mask' \<noteq> 0
                then fold (\<lambda>rule. SETBIT rrow (nat rule)) (takeWhile (\<lambda>rule. rule \<ge> 0) (set_derives g j)) FD
                else FD);
          mask' = push_bit 1 mask'
      in if mask' = 0 then first_derives_row g EFF rrow js (EFF vrow) 1 (vrow + 1) FD
         else first_derives_row g EFF rrow js cword mask' vrow FD)"

definition set_first_derives :: "grammar \<Rightarrow> (nat \<Rightarrow> u32) option" where
  "set_first_derives g =
     (let rulesetsize = WORDSIZE (nrules g);
          varsetsize = WORDSIZE (nvars g)
      in map_option
           (\<lambda>EFF. fold
              (\<lambda>i. (let vrow = (i - ntokens g) * varsetsize
                    in first_derives_row g EFF ((ntokens g + (i - start_symbol g)) * rulesetsize) [start_symbol g..<nsyms g] (EFF vrow) 1 (vrow + 1)))
              [start_symbol g..<nsyms g] (\<lambda>_. 0))
           (set_EFF g))"

definition or_words :: "nat \<Rightarrow> (nat \<Rightarrow> u32) \<Rightarrow> nat \<Rightarrow> (nat \<Rightarrow> u32) \<Rightarrow> (nat \<Rightarrow> u32)" where
  "or_words k FD dsp ruleset = (\<lambda>w. if w < k then ruleset w OR FD (dsp + w) else ruleset w)"

definition closure_ruleset :: "grammar \<Rightarrow> (nat \<Rightarrow> u32) \<Rightarrow> nat list \<Rightarrow> (nat \<Rightarrow> u32)" where
  "closure_ruleset g FD nucleus =
     fold (\<lambda>item ruleset. (let symbol = ritem g item
                           in if ISVAR g symbol
                              then or_words (WORDSIZE (nrules g)) FD (nat symbol * WORDSIZE (nrules g)) ruleset
                              else ruleset))
       nucleus (\<lambda>_. 0)"

text \<open>One word of the rule set: \<open>csp\<close> is the rest of the nucleus, \<open>out\<close> the item set so far.\<close>

definition closure_rule :: "grammar \<Rightarrow> u32 \<Rightarrow> nat \<Rightarrow> nat \<Rightarrow> nat list \<times> nat list \<Rightarrow> nat list \<times> nat list" where
  "closure_rule g word ruleno b = (\<lambda>(csp, out).
     (if word AND push_bit b 1 \<noteq> 0 then
        (let itemno = rrhs g (ruleno + b)
         in (dropWhile (\<lambda>i. i = itemno) (dropWhile (\<lambda>i. i < itemno) csp),
             out @ takeWhile (\<lambda>i. i < itemno) csp @ [itemno]))
      else (csp, out)))"

definition closure_word :: "grammar \<Rightarrow> (nat \<Rightarrow> u32) \<Rightarrow> nat \<Rightarrow> nat list \<times> nat list \<Rightarrow> nat list \<times> nat list" where
  "closure_word g ruleset w st =
     (if ruleset w = 0 then st else fold (closure_rule g (ruleset w) (32 * w)) [0..<32] st)"

definition closure :: "grammar \<Rightarrow> (nat \<Rightarrow> u32) \<Rightarrow> nat list \<Rightarrow> nat list" where
  "closure g FD nucleus =
     (let ruleset = closure_ruleset g FD nucleus;
          (csp, itemset) = fold (closure_word g ruleset) [0..<WORDSIZE (nrules g)] (nucleus, [])
      in itemset @ csp)"

section \<open>Warshall's algorithm\<close>

text \<open>The relation on the numbers below \<open>n\<close> that a matrix of \<open>n\<close> rows of \<open>rs\<close> words holds.\<close>

definition bit_at :: "(nat \<Rightarrow> u32) \<Rightarrow> nat \<Rightarrow> nat \<Rightarrow> nat \<Rightarrow> bool" where
  "bit_at R rs i j \<longleftrightarrow> bit (R (i * rs + j div 32)) (j mod 32)"

definition bit_rel :: "(nat \<Rightarrow> u32) \<Rightarrow> nat \<Rightarrow> nat rel" where
  "bit_rel R n = {(i, j). i < n \<and> j < n \<and> bit_at R (WORDSIZE n) i j}"

lemma WORDSIZE_less: "j < n \<Longrightarrow> j div 32 < WORDSIZE n"
  by (simp add: WORDSIZE_def)

lemma or_row_words:
  "rp = rowj \<or> rp + k \<le> rowj \<or> rowj + k \<le> rp \<Longrightarrow>
   or_row R rowj rp k w = (if rowj \<le> w \<and> w < rowj + k then R w OR R (rp + (w - rowj)) else R w)"
proof (induction k arbitrary: R rowj rp)
  case (Suc k)
  let ?R = "R(rowj := R rowj OR R rp)"
  have "or_row ?R (rowj + 1) (rp + 1) k w =
      (if rowj + 1 \<le> w \<and> w < rowj + 1 + k then ?R w OR ?R (rp + 1 + (w - (rowj + 1))) else ?R w)"
    using Suc.prems by (intro Suc.IH) auto
  moreover have "rp + 1 + (w - (rowj + 1)) = rp + (w - rowj)" if "rowj < w" using that by simp
  ultimately show ?case using Suc.prems by (cases w rowj rule: linorder_cases) (auto simp: Suc_le_eq)
qed auto

lemma row_index:
  assumes "t < (rs :: nat)"
  shows "j * rs \<le> j' * rs + t \<and> j' * rs + t < j * rs + rs \<longleftrightarrow> j' = j"
proof
  assume a: "j * rs \<le> j' * rs + t \<and> j' * rs + t < j * rs + rs"
  have "\<not> j < j'"
  proof
    assume "j < j'"
    then have "Suc j * rs \<le> j' * rs" by (intro mult_right_mono) auto
    with a show False by simp
  qed
  moreover have "\<not> j' < j"
  proof
    assume "j' < j"
    then have "Suc j' * rs \<le> j * rs" by (intro mult_right_mono) auto
    with a assms show False by simp
  qed
  ultimately show "j' = j" by simp
qed (use assms in simp)

lemma rows_apart: "i = j \<or> i * rs + rs \<le> j * rs \<or> j * rs + rs \<le> i * (rs :: nat)"
proof -
  have "a * rs + rs \<le> b * rs" if "a < b" for a b
    using mult_right_mono [of "Suc a" b rs] that by simp
  then show ?thesis by (meson linorder_neqE_nat)
qed

text \<open>One pass over the rows adds row \<open>i\<close> to the rows that have bit \<open>i\<close>.\<close>

lemma tc_rows_words:
  assumes "t < rs" "cw < rs"
  shows "tc_rows R rs m (i * rs) (j * rs) (j * rs + cw) k (x * rs + t) =
    (if j \<le> x \<and> x < j + k \<and> R (x * rs + cw) AND m \<noteq> 0 then R (x * rs + t) OR R (i * rs + t) else R (x * rs + t))"
  using assms(1)
proof (induction k arbitrary: R j t)
  case (Suc k)
  let ?R = "if R (j * rs + cw) AND m \<noteq> 0 then or_row R (j * rs) (i * rs) rs else R"
  have R: "?R (x * rs + t) = (if x = j \<and> R (j * rs + cw) AND m \<noteq> 0 then R (x * rs + t) OR R (i * rs + t) else R (x * rs + t))"
    if "t < rs" for x t
    using or_row_words [of "i * rs" "j * rs" rs R "x * rs + t"] rows_apart [of i j rs] row_index [OF that, of j x] by auto
  have "tc_rows R rs m (i * rs) (j * rs) (j * rs + cw) (Suc k) (x * rs + t) =
      tc_rows ?R rs m (i * rs) (Suc j * rs) (Suc j * rs + cw) k (x * rs + t)"
    by (simp add: ac_simps)
  also have "\<dots> = (if Suc j \<le> x \<and> x < Suc j + k \<and> ?R (x * rs + cw) AND m \<noteq> 0
      then ?R (x * rs + t) OR ?R (i * rs + t) else ?R (x * rs + t))"
    by (rule Suc.IH [OF Suc.prems])
  finally show ?case unfolding R [OF Suc.prems] R [OF assms(2)] by (cases x j rule: linorder_cases) auto
qed auto

text \<open>The mask and the word of column \<open>i\<close>.\<close>

lemma mask_column: "w AND push_bit b 1 \<noteq> 0 \<longleftrightarrow> bit (w :: u32) b" if "b < 32"
proof -
  have "w AND push_bit b 1 = (if bit w b then push_bit b 1 else 0)"
    using that by (intro bit_eqI) (auto simp: bit_simps)
  moreover have "push_bit b 1 \<noteq> (0 :: u32)"
  proof
    assume "push_bit b 1 = (0 :: u32)"
    moreover have "bit (push_bit b 1 :: u32) b" using that by (simp add: bit_simps)
    ultimately show False by (simp del: push_bit_of_1)
  qed
  ultimately show ?thesis by simp
qed

lemma next_column:
  defines "m \<equiv> \<lambda>i. push_bit (i mod 32) 1 :: u32"
  shows "push_bit 1 (m i) = 0 \<Longrightarrow> m (Suc i) = 1 \<and> Suc i div 32 = i div 32 + 1"
    and "push_bit 1 (m i) \<noteq> 0 \<Longrightarrow> m (Suc i) = push_bit 1 (m i) \<and> Suc i div 32 = i div 32"
proof -
  have e: "push_bit 1 (m i) = 0 \<longleftrightarrow> i mod 32 = 31"
  proof
    assume "push_bit 1 (m i) = 0"
    moreover have "i mod 32 < 31 \<Longrightarrow> bit (push_bit 1 (m i)) (Suc (i mod 32))"
      unfolding m_def push_bit_push_bit by (simp add: bit_push_bit_iff bit_1_iff del: push_bit_of_1)
    ultimately show "i mod 32 = 31" using mod_less_divisor [of 32 i] by force
  next
    assume "i mod 32 = 31"
    then show "push_bit 1 (m i) = 0" by (simp add: m_def)
  qed
  show "m (Suc i) = 1 \<and> Suc i div 32 = i div 32 + 1" if "push_bit 1 (m i) = 0"
    using that e by (simp add: m_def mod_Suc div_Suc)
  show "m (Suc i) = push_bit 1 (m i) \<and> Suc i div 32 = i div 32" if "push_bit 1 (m i) \<noteq> 0"
    using that e by (simp add: m_def mod_Suc div_Suc)
qed

definition through :: "nat \<Rightarrow> nat rel \<Rightarrow> nat rel" where
  "through i r = r \<union> {(x, y). (x, i) \<in> r \<and> (i, y) \<in> r}"

lemma tc_rows_through:
  assumes "i < n"
  shows "bit_rel (tc_rows R (WORDSIZE n) (push_bit (i mod 32) 1) (i * WORDSIZE n) 0 (i div 32) n) n = through i (bit_rel R n)"
proof -
  have "tc_rows R (WORDSIZE n) (push_bit (i mod 32) 1) (i * WORDSIZE n) 0 (i div 32) n (x * WORDSIZE n + t) =
      (if x < n \<and> bit_at R (WORDSIZE n) x i then R (x * WORDSIZE n + t) OR R (i * WORDSIZE n + t) else R (x * WORDSIZE n + t))"
    if "t < WORDSIZE n" for x t
    using tc_rows_words [OF that WORDSIZE_less [OF assms], of R "push_bit (i mod 32) 1" i 0 n x]
    by (simp add: mask_column bit_at_def del: push_bit_of_1)
  then have "bit_at (tc_rows R (WORDSIZE n) (push_bit (i mod 32) 1) (i * WORDSIZE n) 0 (i div 32) n) (WORDSIZE n) x y \<longleftrightarrow>
      bit_at R (WORDSIZE n) x y \<or> bit_at R (WORDSIZE n) x i \<and> bit_at R (WORDSIZE n) i y" if "x < n" "y < n" for x y
    using that WORDSIZE_less [OF that(2)] unfolding bit_at_def by (simp add: bit_or_iff)
  then show ?thesis using assms by (auto simp: bit_rel_def through_def)
qed

lemma tc_columns_through:
  "i + k = n \<Longrightarrow>
   bit_rel (tc_columns R (WORDSIZE n) n (push_bit (i mod 32) 1) (i div 32) (i * WORDSIZE n) k) n =
     fold through [i..<n] (bit_rel R n)"
proof (induction k arbitrary: i R)
  case (Suc k)
  let ?R = "tc_rows R (WORDSIZE n) (push_bit (i mod 32) 1) (i * WORDSIZE n) 0 (i div 32) n"
  have "tc_columns R (WORDSIZE n) n (push_bit (i mod 32) 1) (i div 32) (i * WORDSIZE n) (Suc k) =
      tc_columns ?R (WORDSIZE n) n (push_bit (Suc i mod 32) 1) (Suc i div 32) (Suc i * WORDSIZE n) k"
    using next_column [of i] by (cases "push_bit 1 (push_bit (i mod 32) 1 :: u32) = 0") (simp_all add: Let_def add.commute)
  then show ?case
    using Suc.IH [of "Suc i" ?R] Suc.prems tc_rows_through [of i n R] by (simp add: upt_conv_Cons)
qed simp

lemma fold_through:
  assumes "r \<subseteq> {..<n} \<times> {..<n :: nat}"
  shows "fold through [0..<n] r = r\<^sup>+"
proof -
  have inv: "r \<subseteq> fold through [0..<k] r \<and> fold through [0..<k] r \<subseteq> r\<^sup>+ \<and>
      (\<forall>x y z. (x, y) \<in> fold through [0..<k] r \<longrightarrow> (y, z) \<in> fold through [0..<k] r \<longrightarrow> y < k \<longrightarrow>
        (x, z) \<in> fold through [0..<k] r)" for k
  proof (induction k)
    case (Suc k)
    let ?s = "fold through [0..<k] r"
    have f: "fold through [0..<Suc k] r = through k ?s" by simp
    have "through k ?s \<subseteq> r\<^sup>+" using Suc.IH unfolding through_def by (auto intro: trancl_trans)
    moreover have "(x, z) \<in> through k ?s" if "(x, y) \<in> through k ?s" "(y, z) \<in> through k ?s" "y < Suc k" for x y z
      using Suc.IH that unfolding through_def less_Suc_eq by blast
    moreover have "r \<subseteq> through k ?s" using Suc.IH unfolding through_def by blast
    ultimately show ?case unfolding f by blast
  qed auto
  let ?s = "fold through [0..<n] r"
  have "trans ?s"
  proof (rule transI)
    fix x y z assume a: "(x, y) \<in> ?s" "(y, z) \<in> ?s"
    have "r\<^sup>+ \<subseteq> {..<n} \<times> {..<n}" using assms by (rule trancl_subset_Sigma)
    then have "y < n" using a(1) inv [of n] by blast
    then show "(x, z) \<in> ?s" using a inv [of n] by blast
  qed
  then have "r\<^sup>+ \<subseteq> ?s" using inv [of n] trancl_mono [of _ r ?s] by (auto simp: trancl_id)
  then show ?thesis using inv [of n] by blast
qed

lemma rtc_diagonal_returns:
  assumes "i \<le> n"
  shows "\<exists>R'. rtc_diagonal R (WORDSIZE n) (push_bit (i mod 32) 1) (i * WORDSIZE n + i div 32) (n * WORDSIZE n) = Some R' \<and>
    (\<forall>x < n. \<forall>y < n. bit_at R' (WORDSIZE n) x y \<longleftrightarrow> bit_at R (WORDSIZE n) x y \<or> x = y \<and> i \<le> x)"
  using assms
proof (induction "n - i" arbitrary: i R)
  case 0
  then show ?case by (subst rtc_diagonal.simps) auto
next
  case (Suc k)
  then have i: "i < n" by simp
  let ?rp = "i * WORDSIZE n + i div 32" and ?m = "push_bit (i mod 32) 1 :: u32"
  let ?R = "R(?rp := R ?rp OR ?m)"
  have d: "i div 32 < WORDSIZE n" using WORDSIZE_less [OF i] .
  have "Suc i * WORDSIZE n \<le> n * WORDSIZE n" using i by (intro mult_right_mono) auto
  then have l: "?rp < n * WORDSIZE n" using d by simp
  have step: "rtc_diagonal R (WORDSIZE n) ?m ?rp (n * WORDSIZE n) =
      rtc_diagonal ?R (WORDSIZE n) (push_bit (Suc i mod 32) 1) (Suc i * WORDSIZE n + Suc i div 32) (n * WORDSIZE n)"
    using next_column [of i] l
    by (cases "push_bit 1 ?m = 0") (subst rtc_diagonal.simps, simp add: Let_def ac_simps del: push_bit_of_1)+
  have b: "bit_at ?R (WORDSIZE n) x y \<longleftrightarrow> bit_at R (WORDSIZE n) x y \<or> x = y \<and> x = i" if "x < n" "y < n" for x y
  proof -
    have "x * WORDSIZE n + y div 32 = ?rp \<longleftrightarrow> x = i \<and> y div 32 = i div 32"
      using row_index [OF WORDSIZE_less [OF that(2)], of i x] row_index [OF d, of x i] d WORDSIZE_less [OF that(2)] by auto
    moreover have "bit ?m (y mod 32) \<longleftrightarrow> y mod 32 = i mod 32" by (auto simp: bit_push_bit_iff bit_1_iff simp del: push_bit_of_1)
    moreover have "y = i \<longleftrightarrow> y div 32 = i div 32 \<and> y mod 32 = i mod 32" by (metis div_mod_decomp)
    ultimately show ?thesis by (auto simp: bit_at_def bit_or_iff simp del: push_bit_of_1)
  qed
  have "k = n - Suc i" "Suc i \<le> n" using Suc.hyps(2) i by auto
  from Suc.hyps(1) [OF this, of ?R] obtain R' where
    "rtc_diagonal R (WORDSIZE n) ?m ?rp (n * WORDSIZE n) = Some R'"
    "\<forall>x < n. \<forall>y < n. bit_at R' (WORDSIZE n) x y \<longleftrightarrow> bit_at ?R (WORDSIZE n) x y \<or> x = y \<and> Suc i \<le> x"
    unfolding step by blast
  moreover have "x = i \<or> Suc i \<le> x \<longleftrightarrow> i \<le> x" for x by auto
  ultimately show ?case using b by (intro exI [of _ R']) blast
qed

lemma warshall_returns:
  "\<exists>R'. reflexive_transitive_closure R n = Some R' \<and> bit_rel R' n = (bit_rel R n)\<^sup>* \<inter> {..<n} \<times> {..<n}"
proof -
  have r: "bit_rel R n \<subseteq> {..<n} \<times> {..<n}" by (auto simp: bit_rel_def)
  have t: "bit_rel (transitive_closure R n) n = (bit_rel R n)\<^sup>+"
    using tc_columns_through [of 0 n n R] fold_through [OF r] by (simp add: transitive_closure_def)
  obtain R' where R': "reflexive_transitive_closure R n = Some R'"
    "\<forall>x < n. \<forall>y < n. bit_at R' (WORDSIZE n) x y \<longleftrightarrow> bit_at (transitive_closure R n) (WORDSIZE n) x y \<or> x = y"
    using rtc_diagonal_returns [of 0 n "transitive_closure R n"] by (auto simp: reflexive_transitive_closure_def Let_def)
  have "bit_rel R' n = (bit_rel R n)\<^sup>+ \<union> Id_on {..<n}" unfolding t [symmetric] using R'(2) by (auto simp: bit_rel_def)
  also have "\<dots> = (bit_rel R n)\<^sup>* \<inter> {..<n} \<times> {..<n}"
    using trancl_subset_Sigma [OF r] by (auto simp: rtrancl_eq_or_trancl)
  finally show ?thesis using R'(1) by blast
qed

text \<open>C14: Warshall's algorithm on the rows of a bit matrix, a word at a time and in place, ends and computes the reflexive
  and transitive closure of the relation that the matrix holds.\<close>

theorem reflexive_transitive_closure_correct:
  "\<exists>R'. reflexive_transitive_closure R n = Some R' \<and> bit_rel R' n = (bit_rel R n)\<^sup>* \<inter> {..<n} \<times> {..<n}"
  by (rule warshall_returns)

section \<open>The items of a state\<close>

text \<open>The closure of a set of items: with an item before the variable \<open>A\<close> it has the first item of every rule of \<open>A\<close>.\<close>

inductive_set lr0_items :: "grammar \<Rightarrow> nat set \<Rightarrow> nat set" for g :: grammar and I :: "nat set" where
  nucleus: "x \<in> I \<Longrightarrow> x \<in> lr0_items g I"
| rule: "x \<in> lr0_items g I \<Longrightarrow> ritem g x = int (rlhs g r) \<Longrightarrow> start_symbol g \<le> rlhs g r \<Longrightarrow> r < nrules g \<Longrightarrow>
    rrhs g r \<in> lr0_items g I"

definition grammar_wf :: "grammar \<Rightarrow> bool" where
  "grammar_wf g \<longleftrightarrow>
     start_symbol g = ntokens g \<and> nsyms g = ntokens g + nvars g \<and> rlhs g 0 < start_symbol g \<and>
     (\<forall>r < nrules g. rlhs g r < nsyms g) \<and> (\<forall>k. ritem g k < int (nsyms g)) \<and>
     (\<forall>r' < nrules g. \<forall>r < r'. start_symbol g \<le> rlhs g r \<longrightarrow> rrhs g r < rrhs g r')"

text \<open>The variable \<open>b\<close> starts a rule of the variable \<open>a\<close>, variables being counted from \<open>start_symbol\<close>.\<close>

definition leftmost :: "grammar \<Rightarrow> nat rel" where
  "leftmost g = {(a, b). a < nvars g \<and> b < nvars g \<and>
     (\<exists>r < nrules g. rlhs g r = start_symbol g + a \<and> ritem g (rrhs g r) = int (start_symbol g + b))}"

lemma bit_at_SETBIT:
  assumes "n div 32 < rs" "y div 32 < rs"
  shows "bit_at (SETBIT (r * rs) n R) rs x y \<longleftrightarrow> bit_at R rs x y \<or> x = r \<and> y = n"
proof -
  have "x * rs + y div 32 = r * rs + n div 32 \<longleftrightarrow> x = r \<and> y div 32 = n div 32"
    using row_index [OF assms(2), of r x] row_index [OF assms(1), of x r] assms by auto
  moreover have "bit (push_bit (n mod 32) 1 :: u32) (y mod 32) \<longleftrightarrow> y mod 32 = n mod 32"
    by (auto simp: bit_push_bit_iff bit_1_iff simp del: push_bit_of_1)
  moreover have "y = n \<longleftrightarrow> y div 32 = n div 32 \<and> y mod 32 = n mod 32" by (metis div_mod_decomp)
  ultimately show ?thesis by (auto simp: bit_at_def SETBIT_def bit_or_iff simp del: push_bit_of_1)
qed

lemma fold_SETBIT:
  assumes "\<And>a. a \<in> set xs \<Longrightarrow> P a \<Longrightarrow> f a div 32 < rs" "y div 32 < rs"
  shows "bit_at (fold (\<lambda>a R. if P a then SETBIT (r * rs) (f a) R else R) xs R) rs x y \<longleftrightarrow>
    bit_at R rs x y \<or> x = r \<and> (\<exists>a \<in> set xs. P a \<and> y = f a)"
  using assms(1)
proof (induction xs arbitrary: R)
  case (Cons a xs)
  then show ?case using bit_at_SETBIT [of "f a" rs y] assms(2) by auto
qed simp

lemma fold_rows:
  assumes "\<And>i R x y. i \<in> set is \<Longrightarrow> Q y \<Longrightarrow> bit_at (F i R) rs x y \<longleftrightarrow> bit_at R rs x y \<or> A i x y" "Q y"
  shows "bit_at (fold F is R) rs x y \<longleftrightarrow> bit_at R rs x y \<or> (\<exists>i \<in> set is. A i x y)"
  using assms(1)
proof (induction "is" arbitrary: R)
  case (Cons i "is")
  then show ?case using assms(2) by auto
qed simp

lemma set_derives_rules:
  assumes "grammar_wf g" "start_symbol g \<le> i"
  shows "takeWhile (\<lambda>rule. rule > 0) (set_derives g i) = map int (filter (\<lambda>r. rlhs g r = i) [0..<nrules g])"
    and "takeWhile (\<lambda>rule. rule \<ge> 0) (set_derives g i) = map int (filter (\<lambda>r. rlhs g r = i) [0..<nrules g])"
proof -
  have "0 < r" if "rlhs g r = i" for r using assms that by (cases r) (auto simp: grammar_wf_def)
  then show "takeWhile (\<lambda>rule. rule > 0) (set_derives g i) = map int (filter (\<lambda>r. rlhs g r = i) [0..<nrules g])"
    unfolding set_derives_def by (subst takeWhile_append2) auto
  show "takeWhile (\<lambda>rule. rule \<ge> 0) (set_derives g i) = map int (filter (\<lambda>r. rlhs g r = i) [0..<nrules g])"
    unfolding set_derives_def by (subst takeWhile_append2) auto
qed

lemma EFF_row_bits:
  assumes w: "grammar_wf g" and i: "start_symbol g \<le> i" and y: "y div 32 < WORDSIZE (nvars g)"
  shows "bit_at (EFF_row g (r * WORDSIZE (nvars g)) (set_derives g i) R) (WORDSIZE (nvars g)) x y \<longleftrightarrow>
    bit_at R (WORDSIZE (nvars g)) x y \<or> x = r \<and>
      (\<exists>rule < nrules g. rlhs g rule = i \<and> ritem g (rrhs g rule) = int (start_symbol g + y))"
proof -
  let ?s = "\<lambda>rule. ritem g (rrhs g (nat rule))" and ?rs = "WORDSIZE (nvars g)"
  have b: "nat (?s rule) - start_symbol g < nvars g" if "ISVAR g (?s rule)" for rule
    using w that by (auto simp: grammar_wf_def ISVAR_def dest: spec [of _ "rrhs g (nat rule)"])
  have "EFF_row g (r * ?rs) (set_derives g i) R =
      fold (\<lambda>rule R. if ISVAR g (?s rule) then SETBIT (r * ?rs) (nat (?s rule) - start_symbol g) R else R)
        (map int (filter (\<lambda>r. rlhs g r = i) [0..<nrules g])) R"
    by (simp add: EFF_row_def set_derives_rules [OF w i] Let_def)
  moreover have "(\<exists>a \<in> set (map int (filter (\<lambda>r. rlhs g r = i) [0..<nrules g])). ISVAR g (?s a) \<and> y = nat (?s a) - start_symbol g) \<longleftrightarrow>
      (\<exists>rule < nrules g. rlhs g rule = i \<and> ritem g (rrhs g rule) = int (start_symbol g + y))"
    by (auto simp: ISVAR_def)
  ultimately show ?thesis
    using fold_SETBIT [of "map int (filter (\<lambda>r. rlhs g r = i) [0..<nrules g])" "\<lambda>rule. ISVAR g (?s rule)"
        "\<lambda>rule. nat (?s rule) - start_symbol g" ?rs y r R x, OF WORDSIZE_less [OF b] y]
    by simp
qed
lemma set_EFF_correct:
  assumes w: "grammar_wf g"
  shows "\<exists>E. set_EFF g = Some E \<and> bit_rel E (nvars g) = (leftmost g)\<^sup>* \<inter> {..<nvars g} \<times> {..<nvars g}"
proof -
  let ?rs = "WORDSIZE (nvars g)" and ?s = "start_symbol g"
  let ?R = "fold (\<lambda>i. EFF_row g ((i - ?s) * ?rs) (set_derives g i)) [?s..<nsyms g] (\<lambda>_. 0)"
  have n: "nsyms g = ?s + nvars g" using w by (simp add: grammar_wf_def)
  have "bit_at ?R ?rs x y \<longleftrightarrow> bit_at (\<lambda>_. 0) ?rs x y \<or> (\<exists>i \<in> set [?s..<nsyms g]. x = i - ?s \<and>
      (\<exists>rule < nrules g. rlhs g rule = i \<and> ritem g (rrhs g rule) = int (?s + y)))" if "y div 32 < ?rs" for x y
    by (rule fold_rows [where Q = "\<lambda>y. y div 32 < ?rs", OF EFF_row_bits [OF w] that]) auto
  then have "bit_at ?R ?rs x y \<longleftrightarrow> (\<exists>rule < nrules g. rlhs g rule = ?s + x \<and> ritem g (rrhs g rule) = int (?s + y))"
    if "x < nvars g" "y < nvars g" for x y
    using WORDSIZE_less [OF that(2)] that n by (auto simp: bit_at_def intro!: bexI [of _ "?s + x"])
  then have "bit_rel ?R (nvars g) = leftmost g" by (auto simp: bit_rel_def leftmost_def)
  moreover obtain E where "reflexive_transitive_closure ?R (nvars g) = Some E"
    "bit_rel E (nvars g) = (bit_rel ?R (nvars g))\<^sup>* \<inter> {..<nvars g} \<times> {..<nvars g}"
    using warshall_returns by blast
  ultimately show ?thesis by (auto simp: set_EFF_def Let_def)
qed

lemma first_derives_row_bits:
  assumes w: "grammar_wf g" and y: "y div 32 < WORDSIZE (nrules g)"
  defines "rs \<equiv> WORDSIZE (nvars g)" and "s \<equiv> start_symbol g"
  shows "v + k = nvars g \<Longrightarrow>
    bit_at (first_derives_row g E (i * WORDSIZE (nrules g)) [s + v..<s + nvars g] (E (a * rs + v div 32)) (push_bit (v mod 32) 1)
      (a * rs + v div 32 + 1) FD) (WORDSIZE (nrules g)) x y \<longleftrightarrow>
    bit_at FD (WORDSIZE (nrules g)) x y \<or>
      x = i \<and> y < nrules g \<and> (\<exists>j. v \<le> j \<and> j < nvars g \<and> bit_at E rs a j \<and> rlhs g y = s + j)"
proof (induction k arbitrary: v FD)
  case (Suc k)
  let ?W = "WORDSIZE (nrules g)" and ?rules = "filter (\<lambda>r. rlhs g r = s + v) [0..<nrules g]"
  let ?FD = "if bit_at E rs a v then fold (\<lambda>rule. SETBIT (i * ?W) (nat rule)) (map int ?rules) FD else FD"
  let ?rec = "\<lambda>v. first_derives_row g E (i * ?W) [s + v..<s + nvars g] (E (a * rs + v div 32)) (push_bit (v mod 32) 1)
      (a * rs + v div 32 + 1)"
  have u: "[s + v..<s + nvars g] = (s + v) # [s + Suc v..<s + nvars g]" using Suc.prems by (simp add: upt_conv_Cons)
  have m: "E (a * rs + v div 32) AND push_bit (v mod 32) 1 \<noteq> 0 \<longleftrightarrow> bit_at E rs a v"
    by (simp only: mask_column mod_less_divisor zero_less_numeral bit_at_def)
  have d: "takeWhile (\<lambda>rule. rule \<ge> 0) (set_derives g (s + v)) = map int ?rules"
    by (rule set_derives_rules(2) [OF w]) (simp add: s_def)
  have step: "?rec v FD = ?rec (Suc v) ?FD"
    unfolding u first_derives_row.simps m d Let_def using next_column [of v]
    by (cases "push_bit 1 (push_bit (v mod 32) 1 :: u32) = 0") (simp_all del: push_bit_of_1)
  have FD: "bit_at ?FD ?W x y \<longleftrightarrow> bit_at FD ?W x y \<or> x = i \<and> y < nrules g \<and> bit_at E rs a v \<and> rlhs g y = s + v"
  proof -
    have "nat a div 32 < ?W" if "a \<in> set (map int ?rules)" for a using that WORDSIZE_less [of "nat a" "nrules g"] by auto
    from fold_SETBIT [of "map int ?rules" "\<lambda>_. True" nat ?W y i FD x, OF this y]
    show ?thesis by (cases "bit_at E rs a v") (auto simp: image_iff)
  qed
  have "v \<le> j \<longleftrightarrow> j = v \<or> Suc v \<le> j" for j by auto
  then show ?case unfolding step using Suc.IH [of "Suc v" ?FD] Suc.prems FD by auto
qed auto

text \<open>The rules whose first items belong to the closure of an item before the variable \<open>i\<close>.\<close>

lemma set_first_derives_correct:
  assumes w: "grammar_wf g"
  shows "\<exists>FD. set_first_derives g = Some FD \<and> (\<forall>i r. start_symbol g \<le> i \<longrightarrow> i < nsyms g \<longrightarrow> r div 32 < WORDSIZE (nrules g) \<longrightarrow>
    (bit_at FD (WORDSIZE (nrules g)) i r \<longleftrightarrow>
      r < nrules g \<and> start_symbol g \<le> rlhs g r \<and> (i - start_symbol g, rlhs g r - start_symbol g) \<in> (leftmost g)\<^sup>*))"
proof -
  let ?s = "start_symbol g" and ?W = "WORDSIZE (nrules g)" and ?rs = "WORDSIZE (nvars g)"
  obtain E where E: "set_EFF g = Some E" "bit_rel E (nvars g) = (leftmost g)\<^sup>* \<inter> {..<nvars g} \<times> {..<nvars g}"
    using set_EFF_correct [OF w] by blast
  have n: "nsyms g = ?s + nvars g" "ntokens g = ?s" using w by (simp_all add: grammar_wf_def)
  let ?F = "\<lambda>i. (let vrow = (i - ntokens g) * ?rs in first_derives_row g E (i * ?W) [?s..<nsyms g] (E vrow) 1 (vrow + 1))"
  let ?A = "\<lambda>i x y. x = i \<and> y < nrules g \<and> (\<exists>j < nvars g. bit_at E ?rs (i - ?s) j \<and> rlhs g y = ?s + j)"
  have "bit_at (?F i FD) ?W x y \<longleftrightarrow> bit_at FD ?W x y \<or> ?A i x y" if "y div 32 < ?W" for i FD x y
    using first_derives_row_bits [OF w that, of 0 "nvars g" E i "i - ?s" FD x] by (simp add: n Let_def)
  then have F: "bit_at (fold ?F [?s..<nsyms g] (\<lambda>_. 0)) ?W x y \<longleftrightarrow> bit_at (\<lambda>_. 0) ?W x y \<or> (\<exists>i \<in> set [?s..<nsyms g]. ?A i x y)"
    if "y div 32 < ?W" for x y
    by (rule fold_rows [where Q = "\<lambda>y. y div 32 < ?W", OF _ that])
  have e: "(\<exists>j < nvars g. bit_at E ?rs (i - ?s) j \<and> rlhs g r = ?s + j) \<longleftrightarrow>
      ?s \<le> rlhs g r \<and> (i - ?s, rlhs g r - ?s) \<in> (leftmost g)\<^sup>*" if "?s \<le> i" "i < nsyms g" "r < nrules g" for i r
  proof -
    have "rlhs g r < ?s + nvars g" using w that(3) n by (simp add: grammar_wf_def)
    moreover have "bit_at E ?rs (i - ?s) j \<longleftrightarrow> (i - ?s, j) \<in> (leftmost g)\<^sup>*" if "j < nvars g" for j
      using arg_cong [OF E(2), of "\<lambda>S. (i - ?s, j) \<in> S"] that \<open>i < nsyms g\<close> \<open>?s \<le> i\<close> n by (auto simp: bit_rel_def)
    ultimately show ?thesis by (auto simp: less_diff_conv2 intro!: exI [of _ "rlhs g r - ?s"])
  qed
  have z: "\<not> bit_at (\<lambda>_. 0) ?W x y" for x y by (simp add: bit_at_def)
  have "bit_at (fold ?F [?s..<nsyms g] (\<lambda>_. 0)) ?W i r \<longleftrightarrow> r < nrules g \<and> ?s \<le> rlhs g r \<and>
      (i - ?s, rlhs g r - ?s) \<in> (leftmost g)\<^sup>*" if "?s \<le> i" "i < nsyms g" "r div 32 < ?W" for i r
    using F [of r i] e [of i r] that z by auto
  moreover have "fold (\<lambda>i. (let vrow = (i - ntokens g) * ?rs
        in first_derives_row g E ((ntokens g + (i - ?s)) * ?W) [?s..<nsyms g] (E vrow) 1 (vrow + 1))) [?s..<nsyms g] (\<lambda>_. 0) =
      fold ?F [?s..<nsyms g] (\<lambda>_. 0)" by (rule fold_cong) (simp_all add: n)
  ultimately show ?thesis using E(1) by (auto simp: set_first_derives_def Let_def)
qed
lemma closure_ruleset_bits:
  assumes "r div 32 < WORDSIZE (nrules g)"
  shows "bit_at (closure_ruleset g FD nucleus) 0 0 r \<longleftrightarrow>
    (\<exists>x \<in> set nucleus. ISVAR g (ritem g x) \<and> bit_at FD (WORDSIZE (nrules g)) (nat (ritem g x)) r)"
proof -
  let ?f = "\<lambda>item ruleset. (let symbol = ritem g item
     in if ISVAR g symbol then or_words (WORDSIZE (nrules g)) FD (nat symbol * WORDSIZE (nrules g)) ruleset else ruleset)"
  have "bit_at (fold ?f xs R) 0 0 r \<longleftrightarrow> bit_at R 0 0 r \<or>
      (\<exists>x \<in> set xs. ISVAR g (ritem g x) \<and> bit_at FD (WORDSIZE (nrules g)) (nat (ritem g x)) r)" for xs R
    using assms by (induction xs arbitrary: R) (auto simp: Let_def or_words_def bit_at_def bit_or_iff)
  then show ?thesis by (simp add: closure_ruleset_def) (simp add: bit_at_def)
qed

text \<open>The merge of the nucleus with the first items of the rules, in increasing order.\<close>

definition emit_item :: "nat \<Rightarrow> nat list \<times> nat list \<Rightarrow> nat list \<times> nat list" where
  "emit_item itemno = (\<lambda>(csp, out).
     (dropWhile (\<lambda>i. i = itemno) (dropWhile (\<lambda>i. i < itemno) csp), out @ takeWhile (\<lambda>i. i < itemno) csp @ [itemno]))"

lemma closure_rule_emits:
  "b < 32 \<Longrightarrow> closure_rule g word ruleno b st = (if bit word b then emit_item (rrhs g (ruleno + b)) st else st)"
  by (cases st) (simp add: closure_rule_def emit_item_def mask_column Let_def del: push_bit_of_1)

lemma fold_if: "fold (\<lambda>x. if P x then f (h x) else (\<lambda>s. s)) xs s = fold f (map h (filter P xs)) s"
  by (induction xs arbitrary: s) auto

lemma closure_word_emits:
  "closure_word g R w st = fold emit_item (map (rrhs g) (filter (bit_at R 0 0) [32 * w..<32 * w + 32])) st"
proof -
  have "fold (closure_rule g (R w) (32 * w)) [0..<32] st =
      fold (\<lambda>b. if bit (R w) b then emit_item (rrhs g (32 * w + b)) else (\<lambda>s. s)) [0..<32] st"
    by (rule fold_cong) (auto simp: closure_rule_emits fun_eq_iff)
  also have "\<dots> = fold emit_item (map (\<lambda>b. rrhs g (32 * w + b)) (filter (bit (R w)) [0..<32])) st"
    by (rule fold_if)
  also have "map (\<lambda>b. rrhs g (32 * w + b)) (filter (bit (R w)) [0..<32]) =
      map (rrhs g) (filter (bit_at R 0 0) (map (\<lambda>b. b + 32 * w) [0..<32]))"
  proof -
    have "filter (\<lambda>b. bit_at R 0 0 (b + 32 * w)) [0..<32] = filter (bit (R w)) [0..<32]"
      by (rule filter_cong) (auto simp: bit_at_def)
    then show ?thesis by (simp add: filter_map comp_def add.commute)
  qed
  also have "map (\<lambda>b. b + 32 * w) [0..<32] = [32 * w..<32 * w + 32]"
    by (subst map_add_upt) (simp add: add.commute)
  finally have "fold (closure_rule g (R w) (32 * w)) [0..<32] st =
      fold emit_item (map (rrhs g) (filter (bit_at R 0 0) [32 * w..<32 * w + 32])) st" .
  moreover have "filter (bit_at R 0 0) [32 * w..<32 * w + 32] = []" if "R w = 0"
  proof -
    have "r div 32 = w" if "r \<in> set [32 * w..<32 * w + 32]" for r using that by auto
    then show ?thesis using that by (auto simp: bit_at_def filter_empty_conv)
  qed
  ultimately show ?thesis by (simp add: closure_word_def)
qed

lemma closure_words_emit:
  "fold (closure_word g R) [0..<W] st = fold emit_item (map (rrhs g) (filter (bit_at R 0 0) [0..<32 * W])) st"
proof (induction W)
  case (Suc W)
  have "[0..<32 * Suc W] = [0..<32 * W] @ [32 * W..<32 * W + 32]" 
    using upt_add_eq_append [of 0 "32 * W" 32] by (simp add: add.commute)
  then show ?case using Suc.IH by (simp add: closure_word_emits)
qed simp

lemma sorted_list_of_set_unique:
  "sorted_wrt (<) (xs :: nat list) \<Longrightarrow> set xs = A \<Longrightarrow> sorted_list_of_set A = xs"
  using sorted_list_of_set.idem_if_sorted_distinct [of xs] by (auto simp: strict_sorted_iff)

lemma sorted_cut:
  assumes "sorted_wrt (<) (xs :: nat list)"
  shows "takeWhile (\<lambda>i. i < a) xs = filter (\<lambda>i. i < a) xs"
    and "dropWhile (\<lambda>i. i = a) (dropWhile (\<lambda>i. i < a) xs) = filter (\<lambda>i. a < i) xs"
proof -
  have big: "takeWhile (\<lambda>i. i < a) ys = [] \<and> filter (\<lambda>i. i < a) ys = [] \<and> dropWhile (\<lambda>i. i = a) ys = ys \<and>
      dropWhile (\<lambda>i. i < a) ys = ys \<and> filter (\<lambda>i. a < i) ys = ys" if "\<forall>y \<in> set ys. a < y" for ys
    using that by (cases ys) (auto simp: filter_id_conv filter_empty_conv)
  show "takeWhile (\<lambda>i. i < a) xs = filter (\<lambda>i. i < a) xs" using assms
  proof (induction xs)
    case (Cons x xs)
    have "\<forall>y \<in> set xs. a < y" if "\<not> x < a" using that Cons.prems by auto
    then show ?case using Cons big [of xs] by auto
  qed simp
  show "dropWhile (\<lambda>i. i = a) (dropWhile (\<lambda>i. i < a) xs) = filter (\<lambda>i. a < i) xs" using assms
  proof (induction xs)
    case (Cons x xs)
    have "\<forall>y \<in> set xs. a < y" if "\<not> x < a" using that Cons.prems by auto
    then show ?case using Cons big [of xs] by (cases x a rule: linorder_cases) auto
  qed simp
qed

lemma emit_items:
  "sorted_wrt (<) L \<Longrightarrow> sorted_wrt (<) csp \<Longrightarrow>
   (case fold emit_item L (csp, out) of (csp', out') \<Rightarrow> out' @ csp') = out @ sorted_list_of_set (set csp \<union> set L)"
proof (induction L arbitrary: csp out)
  case Nil
  then show ?case using sorted_list_of_set_unique [of csp "set csp"] by simp
next
  case (Cons a L)
  let ?t = "takeWhile (\<lambda>i. i < a) csp" and ?d = "dropWhile (\<lambda>i. i = a) (dropWhile (\<lambda>i. i < a) csp)"
  note cut = sorted_cut [OF Cons.prems(2), of a]
  have s: "sorted_wrt (<) ?t" "sorted_wrt (<) ?d" unfolding cut using Cons.prems(2) by (simp_all add: sorted_wrt_filter)
  have d: "x \<in> set csp \<longleftrightarrow> x \<in> set ?t \<or> x \<in> set ?d \<or> x = a \<and> a \<in> set csp" "x \<in> set ?d \<Longrightarrow> a < x" for x
    unfolding cut by (auto simp: not_less le_less)
  let ?S = "sorted_list_of_set (set ?d \<union> set L)"
  have "sorted_wrt (<) (?t @ a # ?S)"
  proof -
    have "x < a" if "x \<in> set ?t" for x using set_takeWhileD [OF that] by simp
    moreover have "a < y" if "y \<in> set ?S" for y using that Cons.prems(1) d(2) by auto
    ultimately show ?thesis using s(1) by (auto simp: sorted_wrt_append dest: less_trans)
  qed
  moreover have "set (?t @ a # ?S) = set csp \<union> set (a # L)" using d(1) by auto
  ultimately have "sorted_list_of_set (set csp \<union> set (a # L)) = ?t @ a # ?S" by (rule sorted_list_of_set_unique)
  moreover have "(case fold emit_item L (?d, out @ ?t @ [a]) of (csp', out') \<Rightarrow> out' @ csp') = (out @ ?t @ [a]) @ ?S"
    using Cons.IH [OF _ s(2)] Cons.prems(1) by simp
  moreover have "emit_item a (csp, out) = (?d, out @ ?t @ [a])" by (simp add: emit_item_def)
  ultimately show ?case by (simp only: fold_Cons comp_apply append_assoc append_Cons append_Nil)
qed

lemma lr0_items_rules:
  assumes w: "grammar_wf g"
  shows "lr0_items g I = I \<union> {rrhs g r | r x. r < nrules g \<and> start_symbol g \<le> rlhs g r \<and> x \<in> I \<and> ISVAR g (ritem g x) \<and>
    (nat (ritem g x) - start_symbol g, rlhs g r - start_symbol g) \<in> (leftmost g)\<^sup>*}" (is "_ = _ \<union> ?N")
proof (intro equalityI subsetI)
  let ?s = "start_symbol g"
  have vars: "rlhs g r - ?s < nvars g" if "r < nrules g" "?s \<le> rlhs g r" for r
    using w that by (auto simp: grammar_wf_def less_diff_conv2)
  fix y assume "y \<in> lr0_items g I"
  then show "y \<in> I \<union> ?N"
  proof induction
    case (rule x r)
    from rule.IH show ?case
    proof
      assume "x \<in> I"
      then show ?thesis using rule.hyps
        by - (rule UnI2, rule CollectI, rule exI [of _ r], rule exI [of _ x], simp add: ISVAR_def)
    next
      assume "x \<in> ?N"
      then obtain q z where q: "x = rrhs g q" "q < nrules g" "?s \<le> rlhs g q" "z \<in> I" "ISVAR g (ritem g z)"
        "(nat (ritem g z) - ?s, rlhs g q - ?s) \<in> (leftmost g)\<^sup>*" by auto
      have "(rlhs g q - ?s, rlhs g r - ?s) \<in> leftmost g"
        unfolding leftmost_def using q rule.hyps vars by auto
      then have "(nat (ritem g z) - ?s, rlhs g r - ?s) \<in> (leftmost g)\<^sup>*" using q(6) by (rule rtrancl_into_rtrancl [rotated])
      then show ?thesis using q(4,5) rule.hyps
        by - (rule UnI2, rule CollectI, rule exI [of _ r], rule exI [of _ z], simp)
    qed
  qed simp
next
  let ?s = "start_symbol g"
  have reach: "r < nrules g \<Longrightarrow> rlhs g r = ?s + b \<Longrightarrow> rrhs g r \<in> lr0_items g I"
    if "(a, b) \<in> (leftmost g)\<^sup>*" "x \<in> I" "ritem g x = int (?s + a)" for a b x r
    using that(1)
  proof (induction arbitrary: r)
    case base
    then show ?case using that by (intro lr0_items.rule [of x]) (auto intro: lr0_items.nucleus)
  next
    case (step b c)
    then obtain q where q: "q < nrules g" "rlhs g q = ?s + b" "ritem g (rrhs g q) = int (?s + c)"
      by (auto simp: leftmost_def)
    show ?case
      by (rule lr0_items.rule [OF step.IH [OF q(1,2)]]) (use q(3) step.prems in simp_all)
  qed
  fix y assume "y \<in> I \<union> ?N"
  then show "y \<in> lr0_items g I"
  proof
    assume "y \<in> ?N"
    then obtain r x where r: "y = rrhs g r" "r < nrules g" "?s \<le> rlhs g r" "x \<in> I" "ISVAR g (ritem g x)"
      "(nat (ritem g x) - ?s, rlhs g r - ?s) \<in> (leftmost g)\<^sup>*" by auto
    have "ritem g x = int (?s + (nat (ritem g x) - ?s))" using r(5) by (auto simp: ISVAR_def)
    from reach [OF r(6,4) this r(2)] show ?thesis using r(1,3) by simp
  qed (rule lr0_items.nucleus)
qed

text \<open>C13: The closure of a sorted nucleus is the sorted list of the items of the LR(0) state: exactly the items that the
  nucleus generates by adding, for an item before a variable, the first items of the rules of that variable.  The tables
  that \<open>set_first_derives\<close> prepares by bit-matrix closure therefore replace the usual iteration to a fixed point.\<close>

theorem closure_correct:
  assumes w: "grammar_wf g" and n: "sorted_wrt (<) nucleus"
  shows "\<exists>FD. set_first_derives g = Some FD \<and> closure g FD nucleus = sorted_list_of_set (lr0_items g (set nucleus))"
proof -
  let ?s = "start_symbol g" and ?W = "WORDSIZE (nrules g)"
  obtain FD where FD: "set_first_derives g = Some FD" "\<And>i r. ?s \<le> i \<Longrightarrow> i < nsyms g \<Longrightarrow> r div 32 < ?W \<Longrightarrow>
      bit_at FD ?W i r \<longleftrightarrow> r < nrules g \<and> ?s \<le> rlhs g r \<and> (i - ?s, rlhs g r - ?s) \<in> (leftmost g)\<^sup>*"
    using set_first_derives_correct [OF w] by blast
  let ?R = "closure_ruleset g FD nucleus"
  have sym: "?s \<le> nat (ritem g x)" "nat (ritem g x) < nsyms g" if "ISVAR g (ritem g x)" for x
    using w that by (auto simp: grammar_wf_def ISVAR_def nat_less_iff dest: spec [of _ x])
  have bits: "bit_at ?R 0 0 r \<longleftrightarrow> (\<exists>x \<in> set nucleus. ISVAR g (ritem g x) \<and> r < nrules g \<and> ?s \<le> rlhs g r \<and>
      (nat (ritem g x) - ?s, rlhs g r - ?s) \<in> (leftmost g)\<^sup>*)" if "r < 32 * ?W" for r
  proof -
    have "r div 32 < ?W" using that by auto
    then show ?thesis using closure_ruleset_bits [of r g FD nucleus] FD(2) [OF sym] by auto
  qed
  let ?L = "map (rrhs g) (filter (bit_at ?R 0 0) [0..<32 * ?W])"
  have "sorted_wrt (<) ?L"
    unfolding sorted_wrt_map
  proof (rule sorted_wrt_mono_rel [of _ "(<)"])
    show "sorted_wrt (<) (filter (bit_at ?R 0 0) [0..<32 * ?W])" by (simp add: sorted_wrt_filter)
    fix r r' assume "r \<in> set (filter (bit_at ?R 0 0) [0..<32 * ?W])" "r' \<in> set (filter (bit_at ?R 0 0) [0..<32 * ?W])" "r < r'"
    then show "rrhs g r < rrhs g r'" using w bits by (auto simp: grammar_wf_def)
  qed
  moreover have "set ?L = {rrhs g r | r x. r < nrules g \<and> ?s \<le> rlhs g r \<and> x \<in> set nucleus \<and> ISVAR g (ritem g x) \<and>
      (nat (ritem g x) - ?s, rlhs g r - ?s) \<in> (leftmost g)\<^sup>*}"
  proof -
    have "r < 32 * ?W" if "r < nrules g" for r using that by (simp add: WORDSIZE_def)
    then show ?thesis using bits by fastforce
  qed
  ultimately have "closure g FD nucleus = sorted_list_of_set (lr0_items g (set nucleus))"
    using emit_items [OF _ n, of ?L "[]"] unfolding lr0_items_rules [OF w]
    by (simp add: closure_def closure_words_emit Let_def split_beta)
  then show ?thesis using FD(1) by blast
qed

text \<open>The grammar of sums: tokens \<open>$end\<close>, \<open>+\<close> and \<open>id\<close>, variables \<open>$accept\<close>, \<open>E\<close> and \<open>T\<close>.\<close>

definition sums_grammar :: grammar where
  "sums_grammar =
     \<lparr> ntokens = 3, nsyms = 6, nvars = 3, start_symbol = 3, nrules = 6,
       ritem = (\<lambda>k. if k < 12 then [- 1, 4, 0, - 2, 4, 1, 5, - 3, 5, - 4, 2, - 5] ! k else - 1),
       rlhs = (\<lambda>r. if r < 6 then [0, 0, 3, 4, 4, 5] ! r else 0),
       rrhs = (\<lambda>r. if r < 6 then [0, 0, 1, 4, 8, 10] ! r else 12) \<rparr>"

lemma sums_grammar_wf: "grammar_wf sums_grammar"
proof -
  have "ritem sums_grammar k < 6" for k by (simp add: sums_grammar_def nth_Cons')
  moreover have "\<forall>r' < 6. \<forall>r < r'. 3 \<le> rlhs sums_grammar r \<longrightarrow> rrhs sums_grammar r < rrhs sums_grammar r'"
    by (simp add: all_less_small sums_grammar_def)
  moreover have "\<forall>r < 6. rlhs sums_grammar r < 6" by (simp add: all_less_small sums_grammar_def)
  ultimately show ?thesis by (simp add: grammar_wf_def) (simp add: sums_grammar_def)
qed

theorem closure_correct_witness:
  "\<exists>FD. set_first_derives sums_grammar = Some FD \<and>
    closure sums_grammar FD [1] = sorted_list_of_set (lr0_items sums_grammar {1})"
  using closure_correct [OF sums_grammar_wf, of "[1]"] by simp

end
