(* ===== verification/Lr_Nullable.thy ===== *)
theory Lr_Nullable
  imports Lr_Closure
begin

text \<open>
  The nullable symbols of a grammar in the parser generator \<open>yacc\<close>: \<open>set_nullable\<close> of \<open>yacc/lr0.c\<close>, an iteration over
  the rules until nothing changes.  The allocation of the table is taken to succeed.
\<close>

section \<open>Nullable symbols\<close>

text \<open>The items \<open>ritem[1]\<close> to \<open>ritem[nitems - 1]\<close> are the right-hand sides one after another, each ended by the negated
  number of its rule.  The loops of \<open>set_nullable\<close>, innermost first: over the symbols of a right-hand side, over the
  right-hand sides, and until nothing changes.\<close>

partial_function (option) null_symbols :: "grammar \<Rightarrow> (nat \<Rightarrow> bool) \<Rightarrow> nat \<Rightarrow> bool \<Rightarrow> (nat \<times> bool) option" where
  "null_symbols g nullable i empty' =
     (if ritem g i \<ge> 0
      then null_symbols g nullable (i + 1) (if \<not> nullable (nat (ritem g i)) then False else empty')
      else Some (i, empty'))"

partial_function (option) null_pass :: "grammar \<Rightarrow> nat \<Rightarrow> (nat \<Rightarrow> bool) \<Rightarrow> bool \<Rightarrow> nat \<Rightarrow> ((nat \<Rightarrow> bool) \<times> bool) option" where
  "null_pass g nitems nullable done i =
     (if i < nitems then
        Option.bind (null_symbols g nullable i True)
          (\<lambda>(i, empty').
             (let j = rlhs g (nat (- ritem g i))
              in if empty' \<and> \<not> nullable j then null_pass g nitems (nullable(j := True)) False (i + 1)
                 else null_pass g nitems nullable done (i + 1)))
      else Some (nullable, done))"

partial_function (option) null_loop :: "grammar \<Rightarrow> nat \<Rightarrow> (nat \<Rightarrow> bool) \<Rightarrow> (nat \<Rightarrow> bool) option" where
  "null_loop g nitems nullable =
     Option.bind (null_pass g nitems nullable True 1)
       (\<lambda>(nullable, done). if done then Some nullable else null_loop g nitems nullable)"

declare null_symbols.simps [code] null_pass.simps [code] null_loop.simps [code]

definition set_nullable :: "grammar \<Rightarrow> nat \<Rightarrow> (nat \<Rightarrow> bool) option" where
  "set_nullable g nitems = null_loop g nitems (\<lambda>_. False)"

text \<open>The right-hand side that starts at \<open>i\<close> ends at \<open>e\<close>; the symbols that derive the empty word.\<close>

definition rhs_ends :: "grammar \<Rightarrow> nat \<Rightarrow> nat \<Rightarrow> bool" where
  "rhs_ends g i e \<longleftrightarrow> i \<le> e \<and> ritem g e < 0 \<and> (\<forall>k. i \<le> k \<longrightarrow> k < e \<longrightarrow> 0 \<le> ritem g k)"

definition rhs_starts :: "grammar \<Rightarrow> nat \<Rightarrow> bool" where
  "rhs_starts g i \<longleftrightarrow> i = 1 \<or> (1 < i \<and> ritem g (i - 1) < 0)"

inductive derives_empty :: "grammar \<Rightarrow> nat \<Rightarrow> nat \<Rightarrow> bool" for g nitems where
  "rhs_starts g i \<Longrightarrow> rhs_ends g i e \<Longrightarrow> e < nitems \<Longrightarrow> (\<And>k. i \<le> k \<Longrightarrow> k < e \<Longrightarrow> derives_empty g nitems (nat (ritem g k))) \<Longrightarrow>
   derives_empty g nitems (rlhs g (nat (- ritem g e)))"

definition empty_closed :: "grammar \<Rightarrow> nat \<Rightarrow> (nat \<Rightarrow> bool) \<Rightarrow> nat \<Rightarrow> bool" where
  "empty_closed g nitems N i \<longleftrightarrow>
     (\<forall>i' e. i \<le> i' \<longrightarrow> rhs_starts g i' \<longrightarrow> rhs_ends g i' e \<longrightarrow> e < nitems \<longrightarrow>
        (\<forall>k. i' \<le> k \<longrightarrow> k < e \<longrightarrow> N (nat (ritem g k))) \<longrightarrow> N (rlhs g (nat (- ritem g e))))"

lemma rhs_ends_exists:
  assumes "i < nitems" "ritem g (nitems - 1) < 0"
  obtains e where "rhs_ends g i e" "e < nitems"
proof -
  let ?P = "\<lambda>e. i \<le> e \<and> ritem g e < 0"
  have p: "?P (nitems - 1)" using assms by simp
  have "rhs_ends g i (LEAST e. ?P e)"
    unfolding rhs_ends_def using LeastI [of ?P, OF p] not_less_Least [of _ ?P] by (auto simp: not_less)
  moreover have "(LEAST e. ?P e) < nitems" using Least_le [of ?P, OF p] assms(1) by linarith
  ultimately show ?thesis by (rule that)
qed

lemma rhs_ends_unique: "rhs_ends g i e \<Longrightarrow> rhs_ends g i e' \<Longrightarrow> e = e'"
  unfolding rhs_ends_def by (metis linorder_neqE_nat not_less)

lemma null_symbols_returns:
  "rhs_ends g i e \<Longrightarrow> null_symbols g N i b = Some (e, b \<and> (\<forall>k. i \<le> k \<longrightarrow> k < e \<longrightarrow> N (nat (ritem g k))))"
proof (induction "e - i" arbitrary: i b)
  case 0
  then have "i = e" "ritem g i < 0" by (auto simp: rhs_ends_def)
  then show ?case by (subst null_symbols.simps) auto
next
  case (Suc n)
  then have i: "i < e" "0 \<le> ritem g i" "rhs_ends g (i + 1) e" by (auto simp: rhs_ends_def)
  have "(\<forall>k. i \<le> k \<longrightarrow> k < e \<longrightarrow> N (nat (ritem g k))) \<longleftrightarrow>
      N (nat (ritem g i)) \<and> (\<forall>k. i + 1 \<le> k \<longrightarrow> k < e \<longrightarrow> N (nat (ritem g k)))"
    using i(1) by (metis Suc_eq_plus1 Suc_leD Suc_leI le_neq_implies_less order_refl)
  moreover have "null_symbols g N (i + 1) b' = Some (e, b' \<and> (\<forall>k. i + 1 \<le> k \<longrightarrow> k < e \<longrightarrow> N (nat (ritem g k))))" for b'
    using Suc.hyps(2) i(3) by (intro Suc.hyps(1)) auto
  ultimately show ?case using i(2) by (subst null_symbols.simps) auto
qed

lemma empty_closed_step:
  assumes "rhs_ends g i e" "1 \<le> i" "empty_closed g nitems N (e + 1)"
    and "(\<forall>k. i \<le> k \<longrightarrow> k < e \<longrightarrow> N (nat (ritem g k))) \<longrightarrow> N (rlhs g (nat (- ritem g e)))"
  shows "empty_closed g nitems N i"
  unfolding empty_closed_def
proof (intro allI impI)
  fix i' e' assume a: "i \<le> i'" "rhs_starts g i'" "rhs_ends g i' e'" "e' < nitems" "\<forall>k. i' \<le> k \<longrightarrow> k < e' \<longrightarrow> N (nat (ritem g k))"
  show "N (rlhs g (nat (- ritem g e')))"
  proof (cases "i' = i")
    case True
    then show ?thesis using a assms(1,4) rhs_ends_unique by blast
  next
    case False
    then have "ritem g (i' - 1) < 0" "i \<le> i' - 1" using a(1,2) assms(2) by (auto simp: rhs_starts_def)
    then have "\<not> i' - 1 < e" using assms(1) unfolding rhs_ends_def by (meson not_le)
    then have "e < i'" using assms(2) a(1) by linarith
    then have "e + 1 \<le> i'" by simp
    then show ?thesis using a assms(3) unfolding empty_closed_def by blast
  qed
qed

text \<open>What a pass from \<open>i\<close> on does to the table: it only adds left-hand sides, soundly, and when it adds none the table is
  closed under the rules from \<open>i\<close> on.\<close>

definition pass_result :: "grammar \<Rightarrow> nat \<Rightarrow> nat \<Rightarrow> (nat \<Rightarrow> bool) \<times> bool \<Rightarrow> (nat \<Rightarrow> bool) \<times> bool \<Rightarrow> bool" where
  "pass_result g nitems i = (\<lambda>(N, d) (N', d').
     (\<forall>A. N A \<longrightarrow> N' A) \<and> {A. N' A \<and> \<not> N A} \<subseteq> (\<lambda>e. rlhs g (nat (- ritem g e))) ` {..<nitems} \<and>
     ((\<forall>A. N A \<longrightarrow> derives_empty g nitems A) \<longrightarrow> (\<forall>A. N' A \<longrightarrow> derives_empty g nitems A)) \<and>
     (d' \<longleftrightarrow> d \<and> N' = N) \<and> (N' = N \<longrightarrow> empty_closed g nitems N i))"

lemma pass_result_add:
  assumes "rhs_starts g i" "rhs_ends g i e" "e < nitems" "\<forall>k. i \<le> k \<longrightarrow> k < e \<longrightarrow> N (nat (ritem g k))"
    and "\<not> N (rlhs g (nat (- ritem g e)))" "pass_result g nitems (e + 1) (N(rlhs g (nat (- ritem g e)) := True), False) (N', d')"
  shows "pass_result g nitems i (N, d) (N', d')"
proof -
  let ?j = "rlhs g (nat (- ritem g e))"
  have d: "derives_empty g nitems ?j" if "\<forall>A. N A \<longrightarrow> derives_empty g nitems A"
    using that assms(4) by (intro derives_empty.intros [OF assms(1-3)]) simp
  let ?M = "N(?j := True)" and ?J = "(\<lambda>e. rlhs g (nat (- ritem g e))) ` {..<nitems}"
  have q: "\<forall>A. ?M A \<longrightarrow> N' A" "{A. N' A \<and> \<not> ?M A} \<subseteq> ?J"
    "(\<forall>A. ?M A \<longrightarrow> derives_empty g nitems A) \<longrightarrow> (\<forall>A. N' A \<longrightarrow> derives_empty g nitems A)" "d' \<longleftrightarrow> False \<and> N' = ?M"
    using assms(6) unfolding pass_result_def split_conv by argo+
  have "?M ?j" "\<And>A. N A \<Longrightarrow> ?M A" "\<And>A. ?M A \<Longrightarrow> A = ?j \<or> N A" by (auto split: if_splits)
  moreover have "?j \<in> ?J" using assms(3) by blast
  ultimately have "{A. N' A \<and> \<not> N A} \<subseteq> ?J" "N' \<noteq> N" "\<forall>A. N A \<longrightarrow> N' A"
    "(\<forall>A. N A \<longrightarrow> derives_empty g nitems A) \<longrightarrow> (\<forall>A. N' A \<longrightarrow> derives_empty g nitems A)"
    using q(1-3) d assms(5) by (blast, metis, metis, metis)
  then show ?thesis using q(4) by (simp add: pass_result_def)
qed

lemma null_pass_returns:
  assumes "1 < nitems \<longrightarrow> ritem g (nitems - 1) < 0" "rhs_starts g i"
  shows "\<exists>r. null_pass g nitems N d i = Some r \<and> pass_result g nitems i (N, d) r"
  using assms(2)
proof (induction "nitems - i" arbitrary: i N d rule: less_induct)
  case less
  show ?case
  proof (cases "i < nitems")
    case False
    then have "null_pass g nitems N d i = Some (N, d)" by (subst null_pass.simps) simp
    moreover have "empty_closed g nitems N i" using False by (auto simp: empty_closed_def rhs_ends_def)
    ultimately show ?thesis by (simp add: pass_result_def)
  next
    case True
    have i: "1 \<le> i" using less.prems by (auto simp: rhs_starts_def)
    then obtain e where e: "rhs_ends g i e" "e < nitems" using rhs_ends_exists [OF True] assms(1) True by auto
    define j where "j = rlhs g (nat (- ritem g e))"
    define b where "b \<longleftrightarrow> (\<forall>k. i \<le> k \<longrightarrow> k < e \<longrightarrow> N (nat (ritem g k)))"
    have "rhs_starts g (e + 1)" "nitems - (e + 1) < nitems - i" using e i True by (auto simp: rhs_ends_def rhs_starts_def)
    then have rest: "\<exists>r. null_pass g nitems N d (e + 1) = Some r \<and> pass_result g nitems (e + 1) (N, d) r" for N d
      by (intro less.hyps)
    have "null_symbols g N i True = Some (e, b)" using null_symbols_returns [OF e(1), of N True] by (simp add: b_def)
    then have p: "null_pass g nitems N d i =
        (if b \<and> \<not> N j then null_pass g nitems (N(j := True)) False (e + 1) else null_pass g nitems N d (e + 1))"
      using True by (subst null_pass.simps) (simp add: Let_def j_def)
    show ?thesis
    proof (cases "b \<and> \<not> N j")
      case True
      then show ?thesis
        using rest [of "N(j := True)" False] pass_result_add [OF less.prems e, of N] unfolding p b_def j_def by auto
    next
      case False
      then show ?thesis
        using rest [of N d] empty_closed_step [OF e(1) i, of nitems N] unfolding p b_def j_def by (auto simp: pass_result_def)
    qed
  qed
qed

lemma null_loop_returns:
  assumes "1 < nitems \<longrightarrow> ritem g (nitems - 1) < 0" "\<forall>A. N A \<longrightarrow> derives_empty g nitems A"
  shows "\<exists>N'. null_loop g nitems N = Some N' \<and> empty_closed g nitems N' 1 \<and> (\<forall>A. N' A \<longrightarrow> derives_empty g nitems A)"
  using assms(2)
proof (induction "card ((\<lambda>e. rlhs g (nat (- ritem g e))) ` {..<nitems} - {A. N A})" arbitrary: N rule: less_induct)
  case less
  let ?J = "(\<lambda>e. rlhs g (nat (- ritem g e))) ` {..<nitems}"
  obtain N' d where p: "null_pass g nitems N True 1 = Some (N', d)" "pass_result g nitems 1 (N, True) (N', d)"
    using null_pass_returns [OF assms(1), of 1 N True] by (auto simp: rhs_starts_def)
  show ?case
  proof (cases d)
    case True
    then show ?thesis using p less.prems by (subst null_loop.simps) (auto simp: pass_result_def)
  next
    case False
    then obtain A where "N' A" "\<not> N A" using p(2) unfolding pass_result_def split_conv by blast
    then have "?J - {A. N' A} \<subset> ?J - {A. N A}" using p(2) unfolding pass_result_def split_conv by blast
    then have "card (?J - {A. N' A}) < card (?J - {A. N A})" by (intro psubset_card_mono) auto
    then have "\<exists>N''. null_loop g nitems N' = Some N'' \<and> empty_closed g nitems N'' 1 \<and> (\<forall>A. N'' A \<longrightarrow> derives_empty g nitems A)"
      using p(2) less.prems by (intro less.hyps) (auto simp: pass_result_def)
    then show ?thesis using p(1) False by (subst null_loop.simps) simp
  qed
qed

text \<open>C15: The iteration of \<open>set_nullable\<close> ends, whatever the rules are, and marks exactly the symbols that derive the
  empty word.\<close>

theorem set_nullable_correct:
  assumes "1 < nitems \<longrightarrow> ritem g (nitems - 1) < 0"
  shows "\<exists>N. set_nullable g nitems = Some N \<and> (\<forall>A. N A \<longleftrightarrow> derives_empty g nitems A)"
proof -
  obtain N where N: "set_nullable g nitems = Some N" "empty_closed g nitems N 1" "\<forall>A. N A \<longrightarrow> derives_empty g nitems A"
    using null_loop_returns [OF assms, of "\<lambda>_. False"] by (auto simp: set_nullable_def)
  have "N A" if "derives_empty g nitems A" for A
    using that
  proof induction
    case (1 i e)
    moreover have "1 \<le> i" using 1 by (auto simp: rhs_starts_def)
    ultimately show ?case using N(2) unfolding empty_closed_def by blast
  qed
  then show ?thesis using N by blast
qed

text \<open>The rules \<open>A ::= \<epsilon>\<close>, \<open>B ::= A A\<close> and \<open>C ::= B t\<close>, with \<open>t\<close>, \<open>A\<close>, \<open>B\<close>, \<open>C\<close> numbered from 0.\<close>

definition empty_grammar :: grammar where
  "empty_grammar =
     \<lparr> ntokens = 1, nsyms = 4, nvars = 3, start_symbol = 1, nrules = 4,
       ritem = (\<lambda>k. if k < 8 then [- 1, - 1, 1, 1, - 2, 2, 0, - 3] ! k else - 1),
       rlhs = (\<lambda>r. if r < 4 then [0, 1, 2, 3] ! r else 0), rrhs = (\<lambda>r. if r < 4 then [0, 1, 2, 5] ! r else 8) \<rparr>"

theorem set_nullable_correct_witness:
  "\<exists>N. set_nullable empty_grammar 8 = Some N \<and> (\<forall>A. N A \<longleftrightarrow> derives_empty empty_grammar 8 A)"
  by (rule set_nullable_correct) (simp add: empty_grammar_def)

end
