(* ===== verification/Spec2Isabelle.thy ===== *)
theory Spec2Isabelle
  imports Bng_Long Ints Str Interp_Examples Callback Lexing Lr_Nullable
begin

text \<open>
  Verification of the C parts of the OCaml system under \<open>src/inline-more\<close>: the bytecode runtime (\<open>byterun\<close>), the kernel
  of the arbitrary-precision library (\<open>otherlibs/num\<close>) and the grammar analysis of the parser generator (\<open>yacc\<close>).  Paths
  below are relative to \<open>src/inline-more\<close>.  This theory has no definitions of its own.

  \<^bold>\<open>The program.\<close>  The bytecode interpreter runs programs over a stack and over blocks of the heap.  It allocates in the minor
  heap and, through the memory manager, in the major heap, whose free blocks form the free list and whose pages are
  recorded in the page table.  A write barrier notes the pointers from the major to the minor heap for the collector; C code
  notes its own pointers in the registry of global roots.  The interpreter calls C primitives (integers, strings, arrays,
  lexers) and C code calls the program back.

  \<^bold>\<open>The machine.\<close>  All models are of a 64-bit little-endian machine without threaded code.  Memory is a function from addresses
  to 64-bit words, read and written bytewise where the code does so; C integers are words of their width, and overflow
  wraps.  The C library's \<open>malloc\<close>, \<open>calloc\<close> and \<open>realloc\<close> are parameters (record \<^typ>\<open>libc\<close>).  A primitive that can raise or run
  a collection returns an \<open>outcome\<close>: a value, an exception, the value \<open>Collects\<close> where the code would start a collection, or
  \<open>Loops\<close>.  There is no fuel in the development: a loop without an evident bound is a \<open>partial_function\<close> into \<open>option\<close>, where
  \<open>None\<close> is divergence, and its theorems state that the result is \<open>Some\<close>.

  \<^bold>\<open>Theories and sources.\<close>
  \<^item> \<open>Prelude\<close>: types of C integers, exceptions, word arithmetic through \<open>unat\<close> (collection \<open>word_nat\<close>), list lemmas.
  \<^item> \<open>Bng_Digit\<close> (\<open>bng_digit.c\<close>), \<open>Bng\<close> and \<open>Bng_Long\<close> (\<open>bng.c\<close>, \<open>bng.h\<close>): the generic operations on numbers stored as arrays of
    digits.  \<open>bng_val\<close> is the number that an array holds.  The locale \<open>bng_contract\<close> has the laws of the operations that the code
    calls through the table \<open>bng_ops\<close>; multiplication, squaring and division are proved from it, and the interpretation
    \<open>generic\<close> discharges it for the portable operations.
  \<^item> \<open>Mlvalues\<close> (\<open>mlvalues.h\<close>, \<open>gc.h\<close>): tagged integers, headers, fields, bytes.
  \<^item> \<open>Serial\<close> (\<open>extern.c\<close>, \<open>intern.c\<close>, \<open>reverse.h\<close>): the output buffer and the encodings of integers and blocks of integers.
  \<^item> \<open>Ints\<close> (\<open>ints.c\<close>): parsing, formats, arithmetic and serialisation of \<open>int32\<close>, \<open>int64\<close> and \<open>nativeint\<close>.
  \<^item> \<open>Page_Table\<close> (\<open>memory.c\<close>): the hash table of pages.  The locale \<open>page_classifier\<close> is its contract as a map from pages to
    kinds, discharged by the interpretation \<open>hashed\<close>.
  \<^item> \<open>Freelist\<close> (\<open>freelist.c\<close>): next fit, first fit, merging and insertion of blocks.
  \<^item> \<open>Memory\<close> (\<open>memory.c\<close>, parts of \<open>major_gc.c\<close> and \<open>minor_gc.c\<close>): chunks, growth of the heap, major allocation, write barrier.
  \<^item> \<open>Alloc\<close> (\<open>alloc.c\<close>), \<open>Arrays\<close> (\<open>array.c\<close>), \<open>Str\<close> (\<open>str.c\<close>): allocation of blocks, arrays, strings.
  \<^item> \<open>Machine\<close> (\<open>interp.c\<close>, \<open>stacks.c\<close>, \<open>fail.c\<close>): registers and globals of the interpreter, raising, growth of the stack.
    An instruction yields a \<open>step\<close>: the next instruction, a return, a failure, or a request to the environment with a
    continuation.
  \<^item> \<open>Interp\<close> (\<open>interp.c\<close>, \<open>instruct.h\<close>): one definition for each instruction, the table of opcodes, and the relation \<open>exec\<close> of
    single execution steps.  \<open>Interp_Props\<close> and \<open>Stacks\<close> have the theorems, \<open>Interp_Examples\<close> a concrete machine.
  \<^item> \<open>Globroots\<close> (\<open>globroots.c\<close>): skip lists of roots.  The locale \<open>root_registry\<close> is the contract of a set of roots, discharged by
    the interpretation \<open>skip_list\<close>, on which the operations on generational roots rest.
  \<^item> \<open>Callback\<close> (\<open>callback.c\<close>): calls from C to the program through the interpreter, and named values kept as global roots.
  \<^item> \<open>Lexing\<close> (\<open>lexing.c\<close>): both automata of generated lexers.
  \<^item> \<open>Lr_Closure\<close> (\<open>yacc/warshall.c\<close>, \<open>yacc/closure.c\<close>) and \<open>Lr_Nullable\<close> (\<open>yacc/lr0.c\<close>): closures of item sets, nullable symbols.
\<close>

text \<open>
  \<^bold>\<open>What is shown.\<close>
  \<^item> Numbers: every operation computes the arithmetic result with its carry and leaves other memory alone; long division
    ends and its digit estimates are corrected exactly.
  \<^item> Representation: tagging, headers and serialised forms are inverted by their readers; the parsers agree with parsing
    over unbounded integers.
  \<^item> Memory: the page table implements a map, also across resizing; next fit finds a block that is large enough, if there is
    one, and keeps the list well formed; major allocation returns the end of that block; the write
    barrier keeps every pointer into the minor heap in the reference table.
  \<^item> Roots: any sequence of insertions and deletions in a skip list implements a set; cells that were
    freed may be allocated again.  A change of a generational root that held an integer or a block of either heap keeps all
    of them in the lists that the collector scans; scans visit every root; a root in the list that its value calls for is
    removed from both lists.  A root that held static data, or one that is removed while it waits in the young list for the
    next minor collection, is not covered: the code leaves the first in no list and the second in the young list.
  \<^item> Interpreter: integer instructions, calls and returns, partial application, tail calls, exception handlers, method lookup
    and division by zero behave as specified; growing the stack keeps its contents and trap frames, and overflows
    exactly at the maximal size; a callback from C leaves
    the stack as it found it whether the function returns or raises.
  \<^item> Lexers: the engine always stops, finds the longest match, and may be interrupted for a refill at any point; the engine
    with a memory of positions decides in the same way and writes to this memory only.  The last two hold for tables as
    \<open>ocamllex\<close> lays them out: \<open>lex_wf\<close> and \<open>lex_codes_end\<close> bound the entries and codes that a state can reach.
  \<^item> Grammars: Warshall's algorithm on packed rows is the reflexive transitive closure, the closure of a nucleus is the set of
    LR(0) items that it generates, and the iteration for nullable symbols ends in the least fixed point.

  \<^bold>\<open>Bounds.\<close>  Hypotheses bound sizes only where the code's own integers do: offsets of words within 61 bits, a stack below 2 GB
  at a callback (its offset is an \<open>int\<close>), at most 252 arguments of a callback, positions of a lexer within its buffer.
  \<open>caml_blit_string\<close> truncates its length to an \<open>int\<close>, and its theorem is stated for the truncated length.

  \<^bold>\<open>Not modelled.\<close>  The collector itself (\<open>minor_gc.c\<close>, \<open>major_gc.c\<close>, \<open>compact.c\<close>, \<open>roots.c\<close>, \<open>finalise.c\<close>, \<open>weak.c\<close>): it moves blocks, and
  its correctness needs a relation between two heaps that these memory models do not have; where a primitive would
  start it, the model stops with \<open>Collects\<close> or asks the environment.  Code that depends on custom blocks, floats or the C locale
  (\<open>compare.c\<close>, \<open>hash.c\<close>, \<open>floats.c\<close>, printing in \<open>ints.c\<close>).  Input, output, signals, dynamic loading and start-up
  (\<open>io.c\<close>, \<open>sys.c\<close>, \<open>signals.c\<close>, \<open>startup.c\<close> and others), which are calls to the operating system.  The object walk of
  \<open>extern.c\<close> and \<open>intern.c\<close>.  The parsing engine (\<open>parsing.c\<close>), a coroutine whose stacks are grown by OCaml code.  The digit macros
  in assembly, the native-code runtime (\<open>asmrun\<close>), the remaining libraries under \<open>otherlibs\<close>, and the automaton and table
  construction of \<open>yacc\<close>.  The compiler and the standard library are written in OCaml.
\<close>

end
